(* ===== verification/Asio_Prelude.thy ===== *)
theory Asio_Prelude
  imports Main "HOL-Library.Word" "HOL-Library.Sublist"
begin

text \<open>
  What every component of the development shares: the machine types of the code, the values of
  \<open>std::error_code\<close>, the ways an execution can leave defined behaviour (\<open>fault\<close>) and the
  result type that carries them, decimal printing (\<open>std::to_string\<close>), \<open>std::vector::resize\<close>
  and \<open>memcpy\<close> on byte lists, and the two generic interfaces the components are built on:
  transition systems with an invariant (locale \<open>invariant_system\<close>) and their reachable states, and
  the simulation of one transition system by a coarser one (locale \<open>simulation\<close>).
\<close>

section \<open>Collections of facts\<close>

named_theorems result_simps \<open>equations of the result type and its bind\<close>
named_theorems bytes_simps \<open>equations of byte buffers\<close>
named_theorems step_intros \<open>introduction rules of the step relations\<close>

section \<open>Machine types\<close>

type_synonym byte = "8 word"
type_synonym u16 = "16 word"
type_synonym u32 = "32 word"
type_synonym size_t = "64 word"

lemma unat_of_nat_size_t: "n < 2 ^ 64 \<Longrightarrow> unat (of_nat n :: size_t) = n"
  by (simp add: unat_of_nat take_bit_nat_eq_self)

lemma unat_of_nat_u32: "n < 2 ^ 32 \<Longrightarrow> unat (of_nat n :: u32) = n"
  by (simp add: unat_of_nat take_bit_nat_eq_self)

lemma unat_of_nat_u32_mod: "unat (of_nat n :: u32) = n mod 2 ^ 32"
  by (simp add: unat_of_nat take_bit_eq_mod)

lemma word_of_nat_unat [simp]: "of_nat (unat w) = (w :: 'w::len word)"
  by (metis of_nat_unat ucast_id)

lemma unat_size_t_diff:
  assumes "n \<le> m" "m < 2 ^ 64"
  shows "unat (of_nat m - of_nat n :: size_t) = m - n"
proof -
  have "(of_nat m - of_nat n :: size_t) = of_nat (m - n)"
    using assms(1) by (simp add: of_nat_diff)
  then have "unat (of_nat m - of_nat n :: size_t) = unat (of_nat (m - n) :: size_t)"
    by (rule arg_cong)
  also have "\<dots> = m - n" by (rule unat_of_nat_size_t) (use assms in linarith)
  finally show ?thesis .
qed

text \<open>A subtraction that borrows wraps to a value just below \<open>2 ^ 64\<close>.\<close>

lemma unat_size_t_borrow:
  assumes "m < n" "n < 2 ^ 64"
  shows "unat (of_nat m - of_nat n :: size_t) = 2 ^ 64 - (n - m)"
proof -
  have w: "unat (of_nat m :: size_t) = m" "unat (of_nat n :: size_t) = n"
    using assms by (simp_all add: unat_of_nat_size_t)
  have "unat (of_nat m - of_nat n :: size_t) = m + 2 ^ 64 - n"
    using w assms(1) by (simp add: unat_sub_if_size word_le_nat_alt word_size)
  then show ?thesis using assms by simp
qed

lemma unat_plus_1_less:
  fixes i n :: "'w::len word"
  assumes "i < n"
  shows "unat (i + 1) = unat i + 1"
proof -
  have "unat i < unat n" using assms by (simp add: word_less_nat_alt)
  moreover have "unat n < 2 ^ LENGTH('w)" by (rule unsigned_less)
  ultimately have "unat i + 1 < 2 ^ LENGTH('w)" by linarith
  then show ?thesis by (simp add: unat_word_ariths(1))
qed

section \<open>Faults and results\<close>

text \<open>
  \<open>fault\<close> names the ways the code leaves defined behaviour or ends the process:
  a read past the end of a buffer, an accessor called on an empty container, a null pointer
  dereferenced, a member function run on a destroyed object, an exception no handler catches
  (\<open>std::terminate\<close>). A computation is \<open>fault + 'a\<close>: \<open>Inl\<close> the fault, \<open>Inr\<close> the value.
\<close>

datatype fault =
    Out_of_bounds
  | Empty_container
  | Null_deref
  | Use_after_free
  | Terminate

definition rbind :: "'e + 'a \<Rightarrow> ('a \<Rightarrow> 'e + 'b) \<Rightarrow> 'e + 'b" where
  "rbind r f = (case r of Inl e \<Rightarrow> Inl e | Inr x \<Rightarrow> f x)"

lemma rbind_simps [simp, result_simps]:
  "rbind (Inl e) f = Inl e"
  "rbind (Inr x) f = f x"
  by (simp_all add: rbind_def)

lemma rbind_Inr_iff: "rbind r f = Inr y \<longleftrightarrow> (\<exists>x. r = Inr x \<and> f x = Inr y)"
  by (cases r) auto

lemma rbind_InrE:
  assumes "rbind r f = Inr y"
  obtains x where "r = Inr x" "f x = Inr y"
  using assms by (auto simp: rbind_Inr_iff)

lemma rbind_assoc: "rbind (rbind r f) g = rbind r (\<lambda>x. rbind (f x) g)"
  by (cases r) auto

section \<open>Error codes\<close>

text \<open>
  \<open>std::error_code\<close> (which \<open>asio::error_code\<close> is an alias of): a value and a category; it
  converts to \<open>true\<close> when its value is not zero and compares by both. The codes of particular
  conditions (\<open>asio::error::operation_aborted\<close>, \<open>asio::error::eof\<close>) differ between platforms
  and are parameters of the definitions that compare with them.
\<close>

record error_code =
  ec_value :: int
  ec_category :: nat

definition no_error :: error_code where
  "no_error = \<lparr>ec_value = 0, ec_category = 0\<rparr>"

definition failed :: "error_code \<Rightarrow> bool" where
  "failed ec \<longleftrightarrow> ec_value ec \<noteq> 0"

lemma not_failed_no_error [simp]: "\<not> failed no_error"
  by (simp add: failed_def no_error_def)

section \<open>Buffers\<close>

text \<open>\<open>std::vector::resize\<close>: cut at the end, or append value-initialised elements.\<close>

definition vector_resize :: "nat \<Rightarrow> byte list \<Rightarrow> byte list" where
  "vector_resize n xs = take n xs @ replicate (n - length xs) 0"

text \<open>\<open>memcpy\<close> of a whole object into a buffer at an offset.\<close>

definition memcpy_into :: "byte list \<Rightarrow> nat \<Rightarrow> byte list \<Rightarrow> byte list" where
  "memcpy_into dst i src = take i dst @ src @ drop (i + length src) dst"

lemma length_vector_resize [simp, bytes_simps]: "length (vector_resize n xs) = n"
  by (simp add: vector_resize_def)

lemma vector_resize_shrink [bytes_simps]: "n \<le> length xs \<Longrightarrow> vector_resize n xs = take n xs"
  by (simp add: vector_resize_def)

lemma memcpy_into_grown [bytes_simps]:
  "memcpy_into (vector_resize (length xs + length d) xs) (length xs) d = xs @ d"
  by (simp add: memcpy_into_def vector_resize_def)

section \<open>Lists\<close>

lemma nth_update_if: "xs[i := s] ! j = (if i = j \<and> j < length xs then s else xs ! j)"
  by (cases "i = j") (simp_all add: list_update_beyond not_less)

lemma map_update_same: "f s = f (xs ! i) \<Longrightarrow> map f (xs[i := s]) = map f xs"
  by (rule nth_equalityI) (simp_all add: nth_update_if)

lemma sum_list_decrease:
  fixes g :: "'s \<Rightarrow> nat"
  assumes "i < length xs" "g s < g (xs ! i)"
  shows "sum_list (map g (xs[i := s])) < sum_list (map g xs)"
  using assms
proof (induction xs arbitrary: i)
  case (Cons x xs)
  then show ?case by (cases i) simp_all
qed simp

text \<open>A sum over a list after one element was replaced, without subtraction.\<close>

lemma sum_list_replace:
  fixes g :: "'s \<Rightarrow> nat"
  assumes "i < length xs"
  shows "sum_list (map g (xs[i := s])) + g (xs ! i) = sum_list (map g xs) + g s"
  using assms
proof (induction xs arbitrary: i)
  case (Cons x xs)
  then show ?case by (cases i) simp_all
qed simp

lemma set_subseq: "subseq xs ys \<Longrightarrow> set xs \<subseteq> set ys"
  by (induction rule: list_emb.induct) auto

lemma distinct_subseq: "subseq xs ys \<Longrightarrow> distinct ys \<Longrightarrow> distinct xs"
  by (induction rule: list_emb.induct) (auto dest: set_subseq)

section \<open>Decimal text\<close>

text \<open>\<open>std::to_string\<close> and stream output of integers.\<close>

definition digit_char :: "nat \<Rightarrow> char" where
  "digit_char d = char_of (48 + d)"

fun show_nat :: "nat \<Rightarrow> string" where
  "show_nat n = (if n < 10 then [digit_char n] else show_nat (n div 10) @ [digit_char (n mod 10)])"

declare show_nat.simps [simp del]

definition show_int :: "int \<Rightarrow> string" where
  "show_int i = (if i < 0 then ''-'' @ show_nat (nat (- i)) else show_nat (nat i))"

definition digit_val :: "char \<Rightarrow> nat" where
  "digit_val c = of_char c - 48"

definition read_nat :: "string \<Rightarrow> nat" where
  "read_nat s = foldl (\<lambda>acc c. 10 * acc + digit_val c) 0 s"

lemma digit_val_char [simp]: "d < 10 \<Longrightarrow> digit_val (digit_char d) = d"
  by (simp add: digit_val_def digit_char_def)

lemma read_show_nat: "read_nat (show_nat n) = n"
proof (induction n rule: show_nat.induct)
  case (1 n)
  show ?case
  proof (cases "n < 10")
    case True
    then show ?thesis by (subst show_nat.simps) (simp add: read_nat_def)
  next
    case False
    with 1 have "read_nat (show_nat (n div 10)) = n div 10" by simp
    with False show ?thesis by (subst show_nat.simps) (simp add: read_nat_def)
  qed
qed

lemma show_nat_inj: "show_nat m = show_nat n \<Longrightarrow> m = n"
  by (metis read_show_nat)

section \<open>Lines\<close>

definition newline :: char where "newline = CHR 0x0A"

text \<open>\<open>std::getline\<close> on a stream buffer: the characters before the first newline; it and they leave.\<close>

definition getline :: "string \<Rightarrow> string \<times> string" where
  "getline text = (takeWhile (\<lambda>ch. ch \<noteq> newline) text, drop 1 (dropWhile (\<lambda>ch. ch \<noteq> newline) text))"

lemma getline_line [simp]: "newline \<notin> set line \<Longrightarrow> getline (line @ newline # rest) = (line, rest)"
proof (induction line)
  case (Cons c line)
  then show ?case by (auto simp: getline_def)
qed (simp add: getline_def)

section \<open>Transition systems\<close>

text \<open>
  A component with asynchronous operations is a step relation; a safety property is an invariant
  of it. The rule that lifts an invariant to every reachable state is proved once here.
\<close>

locale invariant_system =
  fixes init :: "'s \<Rightarrow> bool"
    and step :: "'s \<Rightarrow> 's \<Rightarrow> bool"
    and inv :: "'s \<Rightarrow> bool"
  assumes inv_init: "init s \<Longrightarrow> inv s"
    and inv_step: "inv s \<Longrightarrow> step s t \<Longrightarrow> inv t"
begin

lemma inv_steps: "step\<^sup>*\<^sup>* s t \<Longrightarrow> inv s \<Longrightarrow> inv t"
  by (induction rule: rtranclp_induct) (auto intro: inv_step)

lemma inv_reachable: "init s \<Longrightarrow> step\<^sup>*\<^sup>* s t \<Longrightarrow> inv t"
  by (blast intro: inv_steps inv_init)

lemma inv_next: "init s \<Longrightarrow> step\<^sup>*\<^sup>* s t \<Longrightarrow> step t u \<Longrightarrow> inv u"
  by (blast intro: inv_reachable inv_step)

end

text \<open>A quantity that every step decreases bounds the number of steps.\<close>

locale terminating_system =
  fixes step :: "'s \<Rightarrow> 's \<Rightarrow> bool"
    and inv :: "'s \<Rightarrow> bool"
    and left :: "'s \<Rightarrow> nat"
  assumes inv_keeps: "inv s \<Longrightarrow> step s t \<Longrightarrow> inv t"
    and decreases: "inv s \<Longrightarrow> step s t \<Longrightarrow> left t < left s"
begin

lemma steps_bounded: "(step ^^ n) s t \<Longrightarrow> inv s \<Longrightarrow> inv t \<and> n + left t \<le> left s"
proof (induction n arbitrary: t)
  case (Suc n)
  then obtain u where u: "(step ^^ n) s u" "step u t" by auto
  with Suc have "inv u" "n + left u \<le> left s" by blast+
  with inv_keeps [OF _ u(2)] decreases [OF _ u(2)] show ?case by fastforce
qed simp

text \<open>So some run comes to an end.\<close>

lemma run_to_end: "inv s \<Longrightarrow> \<exists>n t. (step ^^ n) s t \<and> \<not> (\<exists>u. step t u)"
proof (induction "left s" arbitrary: s rule: less_induct)
  case less
  show ?case
  proof (cases "\<exists>u. step s u")
    case True
    then obtain u where u: "step s u" by blast
    with less decreases inv_keeps obtain n t where "(step ^^ n) u t" "\<not> (\<exists>v. step t v)" by blast
    with u relpowp_Suc_I2 [of step s u n t] show ?thesis by blast
  next
    case False
    moreover have "(step ^^ 0) s s" by simp
    ultimately show ?thesis by blast
  qed
qed

end

text \<open>
  A detailed step relation that a coarser one simulates: a relation between the states that holds
  at the start and that every detailed step keeps, the coarser system taking any number of steps.
\<close>

locale simulation =
  fixes cinit :: "'c \<Rightarrow> bool" and cstep :: "'c \<Rightarrow> 'c \<Rightarrow> bool"
    and ainit :: "'a \<Rightarrow> bool" and astep :: "'a \<Rightarrow> 'a \<Rightarrow> bool"
    and rel :: "'c \<Rightarrow> 'a \<Rightarrow> bool"
  assumes rel_init: "cinit c \<Longrightarrow> \<exists>a. ainit a \<and> rel c a"
    and rel_step: "rel c a \<Longrightarrow> cstep c d \<Longrightarrow> \<exists>b. astep\<^sup>*\<^sup>* a b \<and> rel d b"
begin

lemma rel_steps:
  assumes "cstep\<^sup>*\<^sup>* c d" "rel c a"
  shows "\<exists>b. astep\<^sup>*\<^sup>* a b \<and> rel d b"
  using assms
proof (induction rule: rtranclp_induct)
  case base
  then show ?case by blast
next
  case (step d e)
  then obtain b where "astep\<^sup>*\<^sup>* a b" "rel d b" by blast
  with rel_step [OF _ step(2)] show ?case by (meson rtranclp_trans)
qed

lemma rel_reachable:
  assumes "cinit c" "cstep\<^sup>*\<^sup>* c d"
  shows "\<exists>a b. ainit a \<and> astep\<^sup>*\<^sup>* a b \<and> rel d b"
  using rel_init [OF assms(1)] rel_steps [OF assms(2)] by blast

end

end
