(* ===== verification/Net_Tsqueue.thy ===== *)
theory Net_Tsqueue
  imports Asio_Prelude
begin

text \<open>
  The queue of \<open>src/one_lone_coder/net_tsqueue.h\<close>, one operation at a time: each member function
  holds \<open>muxQueue\<close> for its whole body, so a single call is an atomic change of \<open>deqQueue\<close>
  (theory \<open>Tsqueue_Threads\<close> has the calls of several threads lock by lock). \<open>front\<close>, \<open>back\<close> and
  the two pops on an empty \<open>std::deque\<close> are undefined behaviour: \<open>Inl Empty_container\<close>.
  The contract the other components rely on is the locale \<open>fifo\<close>, extended by \<open>double_ended\<close>.
\<close>

section \<open>The class\<close>

record 'a tsqueue =
  deqQueue :: "'a list"

definition new_tsqueue :: "'a tsqueue" where
  "new_tsqueue = \<lparr>deqQueue = []\<rparr>"

definition tsq_front :: "'a tsqueue \<Rightarrow> fault + 'a" where
  "tsq_front q = (case deqQueue q of [] \<Rightarrow> Inl Empty_container | x # _ \<Rightarrow> Inr x)"

definition tsq_back :: "'a tsqueue \<Rightarrow> fault + 'a" where
  "tsq_back q = (if deqQueue q = [] then Inl Empty_container else Inr (last (deqQueue q)))"

definition pop_front :: "'a tsqueue \<Rightarrow> fault + 'a \<times> 'a tsqueue" where
  "pop_front q =
     (case deqQueue q of
        [] \<Rightarrow> Inl Empty_container
      | t # rest \<Rightarrow> Inr (t, q\<lparr>deqQueue := rest\<rparr>))"

definition pop_back :: "'a tsqueue \<Rightarrow> fault + 'a \<times> 'a tsqueue" where
  "pop_back q =
     (if deqQueue q = [] then Inl Empty_container
      else Inr (last (deqQueue q), q\<lparr>deqQueue := butlast (deqQueue q)\<rparr>))"

definition push_back :: "'a \<Rightarrow> 'a tsqueue \<Rightarrow> 'a tsqueue" where
  "push_back item q = q\<lparr>deqQueue := deqQueue q @ [item]\<rparr>"

definition push_front :: "'a \<Rightarrow> 'a tsqueue \<Rightarrow> 'a tsqueue" where
  "push_front item q = q\<lparr>deqQueue := item # deqQueue q\<rparr>"

definition tsq_empty :: "'a tsqueue \<Rightarrow> bool" where
  "tsq_empty q \<longleftrightarrow> deqQueue q = []"

definition tsq_count :: "'a tsqueue \<Rightarrow> size_t" where
  "tsq_count q = of_nat (length (deqQueue q))"

definition clear :: "'a tsqueue \<Rightarrow> 'a tsqueue" where
  "clear q = q\<lparr>deqQueue := []\<rparr>"

lemmas tsqueue_defs =
  new_tsqueue_def tsq_front_def tsq_back_def pop_front_def pop_back_def push_back_def push_front_def
  tsq_empty_def tsq_count_def clear_def

text \<open>Removing \<open>n\<close> items one after the other, with any removal operation.\<close>

fun take_n :: "('q \<Rightarrow> fault + 'a \<times> 'q) \<Rightarrow> nat \<Rightarrow> 'q \<Rightarrow> fault + 'a list \<times> 'q" where
  "take_n deq 0 q = Inr ([], q)"
| "take_n deq (Suc n) q =
     rbind (deq q) (\<lambda>(x, q'). rbind (take_n deq n q') (\<lambda>(xs, q''). Inr (x # xs, q'')))"

section \<open>The first-in first-out contract\<close>

locale fifo =
  fixes new_q :: "'q"
    and enq :: "'a \<Rightarrow> 'q \<Rightarrow> 'q"
    and deq :: "'q \<Rightarrow> fault + 'a \<times> 'q"
    and peek :: "'q \<Rightarrow> fault + 'a"
    and is_empty :: "'q \<Rightarrow> bool"
    and items :: "'q \<Rightarrow> 'a list"
  assumes items_new: "items new_q = []"
    and items_enq: "items (enq x q) = items q @ [x]"
    and deq_Nil: "items q = [] \<Longrightarrow> deq q = Inl Empty_container"
    and deq_Cons: "items q = x # xs \<Longrightarrow> \<exists>q'. deq q = Inr (x, q') \<and> items q' = xs"
    and peek_Nil: "items q = [] \<Longrightarrow> peek q = Inl Empty_container"
    and peek_Cons: "items q = x # xs \<Longrightarrow> peek q = Inr x"
    and is_empty_iff: "is_empty q \<longleftrightarrow> items q = []"
begin

lemma deq_InrD: "deq q = Inr (x, q') \<Longrightarrow> items q = x # items q'"
  using deq_Nil [of q] deq_Cons [of q] by (cases "items q") auto

lemma deq_fault_iff: "deq q = Inl e \<longleftrightarrow> e = Empty_container \<and> is_empty q"
  using deq_Nil [of q] deq_Cons [of q] by (cases "items q") (auto simp: is_empty_iff)

lemma peek_fault_iff: "peek q = Inl e \<longleftrightarrow> e = Empty_container \<and> is_empty q"
  using peek_Nil [of q] peek_Cons [of q] by (cases "items q") (auto simp: is_empty_iff)

lemma peek_is_next: "deq q = Inr (x, q') \<Longrightarrow> peek q = Inr x"
  using deq_InrD [of q x q'] peek_Cons by blast

lemma items_enq_all: "items (fold enq xs q) = items q @ xs"
  by (induction xs arbitrary: q) (simp_all add: items_enq)

lemma take_n_ok:
  "n \<le> length (items q) \<Longrightarrow>
   \<exists>q'. take_n deq n q = Inr (take n (items q), q') \<and> items q' = drop n (items q)"
proof (induction n arbitrary: q)
  case 0
  then show ?case by simp
next
  case (Suc n)
  then obtain x xs where q: "items q = x # xs" by (cases "items q") auto
  obtain q' where q': "deq q = Inr (x, q')" "items q' = xs" using deq_Cons [OF q] by blast
  with Suc.IH [of q'] Suc.prems q show ?case by (auto simp: q')
qed

lemma fifo_order: "\<exists>q'. take_n deq (length xs) (fold enq xs new_q) = Inr (xs, q') \<and> is_empty q'"
  using take_n_ok [of "length xs" "fold enq xs new_q"]
  by (auto simp: items_enq_all items_new is_empty_iff)

end

locale double_ended = fifo +
  fixes enq_front :: "'a \<Rightarrow> 'q \<Rightarrow> 'q"
    and deq_back :: "'q \<Rightarrow> fault + 'a \<times> 'q"
    and peek_back :: "'q \<Rightarrow> fault + 'a"
  assumes items_enq_front: "items (enq_front x q) = x # items q"
    and deq_back_Nil: "items q = [] \<Longrightarrow> deq_back q = Inl Empty_container"
    and deq_back_snoc: "items q = xs @ [x] \<Longrightarrow> \<exists>q'. deq_back q = Inr (x, q') \<and> items q' = xs"
    and peek_back_Nil: "items q = [] \<Longrightarrow> peek_back q = Inl Empty_container"
    and peek_back_snoc: "items q = xs @ [x] \<Longrightarrow> peek_back q = Inr x"
begin

lemma deq_back_enq: "\<exists>q'. deq_back (enq x q) = Inr (x, q') \<and> items q' = items q"
  by (rule deq_back_snoc) (rule items_enq)

lemma deq_enq_front: "\<exists>q'. deq (enq_front x q) = Inr (x, q') \<and> items q' = items q"
  by (rule deq_Cons) (rule items_enq_front)

lemma deq_back_fault_iff: "deq_back q = Inl e \<longleftrightarrow> e = Empty_container \<and> is_empty q"
  using deq_back_Nil [of q] deq_back_snoc [of q]
  by (cases "items q" rule: rev_cases) (auto simp: is_empty_iff)

text \<open>From the other end the same items come back last first.\<close>

lemma take_n_back_ok:
  "items q = xs @ ys \<Longrightarrow>
   \<exists>q'. take_n deq_back (length ys) q = Inr (rev ys, q') \<and> items q' = xs"
proof (induction ys arbitrary: q rule: rev_induct)
  case Nil
  then show ?case by simp
next
  case (snoc y ys)
  then have "items q = (xs @ ys) @ [y]" by simp
  then obtain q' where q': "deq_back q = Inr (y, q')" "items q' = xs @ ys"
    using deq_back_snoc by blast
  with snoc.IH [of q'] show ?case by auto
qed

end

interpretation tsq: double_ended new_tsqueue push_back pop_front tsq_front tsq_empty deqQueue
    push_front pop_back tsq_back
  by unfold_locales (simp_all add: tsqueue_defs split: list.split)

lemmas tsq_items [simp] =
  tsq.items_new tsq.items_enq tsq.items_enq_front

lemma tsq_empty_iff [simp]: "tsq_empty q \<longleftrightarrow> deqQueue q = []"
  by (rule tsq.is_empty_iff)

lemma pop_front_Cons: "deqQueue q = x # xs \<Longrightarrow> pop_front q = Inr (x, q\<lparr>deqQueue := xs\<rparr>)"
  by (simp add: pop_front_def)

lemma front_Cons: "deqQueue q = x # xs \<Longrightarrow> tsq_front q = Inr x"
  by (rule tsq.peek_Cons)

lemma tsq_count_eq: "length (deqQueue q) < 2 ^ 64 \<Longrightarrow> unat (tsq_count q) = length (deqQueue q)"
  by (simp add: tsq_count_def unat_of_nat_size_t)

lemma clear_items [simp]: "deqQueue (clear q) = []"
  by (simp add: clear_def)

end
