(* ===== verification/Tsqueue_Threads.thy ===== *)
theory Tsqueue_Threads
  imports Net_Tsqueue
begin

text \<open>
  The calls of \<open>net_tsqueue.h\<close> lock by lock. A thread is at a point \<open>pc\<close> of \<open>push_back\<close>,
  \<open>pop_front\<close>, \<open>empty\<close> or \<open>wait\<close> (the other members are the same single critical section of
  \<open>muxQueue\<close>); \<open>tstep s i t\<close> is one step of thread \<open>i\<close> and \<open>spurious\<close> the wake-up without a
  notification that \<open>std::condition_variable\<close> allows. Shown: mutual exclusion and lock order,
  first-in first-out order of all interleavings, no deadlock on the two mutexes, safety of
  \<open>wait\<close> followed by \<open>pop_front\<close> for one consumer, and two interleavings that the class does
  not rule out: a wake-up that is lost, and two consumers emptying one item.
\<close>

section \<open>Program points and states\<close>

datatype 'a pc =
    Outside               \<comment> \<open>in no member function\<close>
  | Push_enter 'a         \<comment> \<open>\<open>push_back\<close>: about to lock \<open>muxQueue\<close>\<close>
  | Push_emplace 'a       \<comment> \<open>holds \<open>muxQueue\<close>, about to emplace\<close>
  | Push_block            \<comment> \<open>about to lock \<open>muxBlocking\<close>\<close>
  | Push_notify           \<comment> \<open>holds both, about to call \<open>notify_one\<close>\<close>
  | Push_unblock          \<comment> \<open>about to unlock \<open>muxBlocking\<close>\<close>
  | Push_leave            \<comment> \<open>about to unlock \<open>muxQueue\<close>\<close>
  | Pop_enter             \<comment> \<open>\<open>pop_front\<close>: about to lock \<open>muxQueue\<close>\<close>
  | Pop_take              \<comment> \<open>holds \<open>muxQueue\<close>, about to move the front out\<close>
  | Pop_leave             \<comment> \<open>about to unlock \<open>muxQueue\<close>\<close>
  | Empty_enter bool      \<comment> \<open>\<open>empty\<close>, called from \<open>wait\<close> or not: about to lock \<open>muxQueue\<close>\<close>
  | Empty_read bool       \<comment> \<open>holds \<open>muxQueue\<close>, about to read\<close>
  | Empty_leave bool bool \<comment> \<open>has the result, about to unlock \<open>muxQueue\<close>\<close>
  | Wait_block            \<comment> \<open>\<open>wait\<close>: saw an empty queue, about to lock \<open>muxBlocking\<close>\<close>
  | Wait_sleep            \<comment> \<open>holds \<open>muxBlocking\<close>, about to call \<open>cvBlocking.wait\<close>\<close>
  | Wait_blocked          \<comment> \<open>blocked in \<open>cvBlocking.wait\<close>, \<open>muxBlocking\<close> released\<close>
  | Wait_relock           \<comment> \<open>woken, about to lock \<open>muxBlocking\<close> again\<close>
  | Wait_again            \<comment> \<open>holds \<open>muxBlocking\<close>, about to unlock it and test again\<close>
  | Saw_items             \<comment> \<open>\<open>empty\<close> has returned false, or \<open>wait\<close> has returned\<close>

record 'a threads =
  tq :: "'a tsqueue"
  muxQueue :: "nat option"
  muxBlocking :: "nat option"
  pcs :: "nat \<Rightarrow> 'a pc"
  faulted :: bool
  pushed :: "'a list"   \<comment> \<open>every item emplaced so far, in order\<close>
  popped :: "'a list"   \<comment> \<open>every item moved out so far, in order\<close>

definition go :: "nat \<Rightarrow> 'a pc \<Rightarrow> 'a threads \<Rightarrow> 'a threads" where
  "go i p s = s\<lparr>pcs := (pcs s)(i := p)\<rparr>"

lemma go_simps [simp]:
  "tq (go i p s) = tq s" "muxQueue (go i p s) = muxQueue s"
  "muxBlocking (go i p s) = muxBlocking s" "faulted (go i p s) = faulted s"
  "pushed (go i p s) = pushed s" "popped (go i p s) = popped s"
  "pcs (go i p s) = (pcs s)(i := p)"
  by (simp_all add: go_def)

definition threads_init :: "'a threads \<Rightarrow> bool" where
  "threads_init s \<longleftrightarrow> s = \<lparr>tq = new_tsqueue, muxQueue = None, muxBlocking = None,
     pcs = (\<lambda>_. Outside), faulted = False, pushed = [], popped = []\<rparr>"

text \<open>The two critical sections that touch the deque.\<close>

definition do_emplace :: "'a \<Rightarrow> 'a threads \<Rightarrow> 'a threads" where
  "do_emplace x s = s\<lparr>tq := push_back x (tq s), pushed := pushed s @ [x]\<rparr>"

definition do_take :: "'a threads \<Rightarrow> 'a threads" where
  "do_take s =
     (case pop_front (tq s) of
        Inl _ \<Rightarrow> s\<lparr>faulted := True\<rparr>
      | Inr (x, q') \<Rightarrow> s\<lparr>tq := q', popped := popped s @ [x]\<rparr>)"

lemma do_emplace_simps [simp]:
  "deqQueue (tq (do_emplace x s)) = deqQueue (tq s) @ [x]"
  "muxQueue (do_emplace x s) = muxQueue s" "muxBlocking (do_emplace x s) = muxBlocking s"
  "pcs (do_emplace x s) = pcs s" "faulted (do_emplace x s) = faulted s"
  "pushed (do_emplace x s) = pushed s @ [x]" "popped (do_emplace x s) = popped s"
  by (simp_all add: do_emplace_def)

lemma do_take_simps [simp]:
  "muxQueue (do_take s) = muxQueue s" "muxBlocking (do_take s) = muxBlocking s"
  "pcs (do_take s) = pcs s" "pushed (do_take s) = pushed s"
  by (simp_all add: do_take_def split: sum.split prod.split)

lemma do_take_faulted: "faulted (do_take s) \<longleftrightarrow> faulted s \<or> deqQueue (tq s) = []"
  by (auto simp: do_take_def pop_front_def split: list.split)

lemma do_take_items:
  "popped (do_take s) @ deqQueue (tq (do_take s)) = popped s @ deqQueue (tq s)"
  by (auto simp: do_take_def pop_front_def split: list.split)

section \<open>Steps\<close>

inductive tstep :: "'a threads \<Rightarrow> nat \<Rightarrow> 'a threads \<Rightarrow> bool" where
  call_push: "pcs s i = Outside \<or> pcs s i = Saw_items \<Longrightarrow> tstep s i (go i (Push_enter x) s)"
| call_pop: "pcs s i = Outside \<or> pcs s i = Saw_items \<Longrightarrow> tstep s i (go i Pop_enter s)"
| call_empty: "pcs s i = Outside \<or> pcs s i = Saw_items \<Longrightarrow> tstep s i (go i (Empty_enter False) s)"
| call_wait: "pcs s i = Outside \<or> pcs s i = Saw_items \<Longrightarrow> tstep s i (go i (Empty_enter True) s)"
| forget: "pcs s i = Saw_items \<Longrightarrow> tstep s i (go i Outside s)"
| push_lock: "pcs s i = Push_enter x \<Longrightarrow> muxQueue s = None \<Longrightarrow>
    tstep s i (go i (Push_emplace x) (s\<lparr>muxQueue := Some i\<rparr>))"
| push_emplace: "pcs s i = Push_emplace x \<Longrightarrow> tstep s i (go i Push_block (do_emplace x s))"
| push_block: "pcs s i = Push_block \<Longrightarrow> muxBlocking s = None \<Longrightarrow>
    tstep s i (go i Push_notify (s\<lparr>muxBlocking := Some i\<rparr>))"
| push_notify: "pcs s i = Push_notify \<Longrightarrow> pcs s j = Wait_blocked \<Longrightarrow>
    tstep s i (go i Push_unblock (go j Wait_relock s))"
| push_notify_none: "pcs s i = Push_notify \<Longrightarrow> (\<And>j. pcs s j \<noteq> Wait_blocked) \<Longrightarrow>
    tstep s i (go i Push_unblock s)"
| push_unblock: "pcs s i = Push_unblock \<Longrightarrow>
    tstep s i (go i Push_leave (s\<lparr>muxBlocking := None\<rparr>))"
| push_leave: "pcs s i = Push_leave \<Longrightarrow> tstep s i (go i Outside (s\<lparr>muxQueue := None\<rparr>))"
| pop_lock: "pcs s i = Pop_enter \<Longrightarrow> muxQueue s = None \<Longrightarrow>
    tstep s i (go i Pop_take (s\<lparr>muxQueue := Some i\<rparr>))"
| pop_take: "pcs s i = Pop_take \<Longrightarrow> tstep s i (go i Pop_leave (do_take s))"
| pop_leave: "pcs s i = Pop_leave \<Longrightarrow> tstep s i (go i Outside (s\<lparr>muxQueue := None\<rparr>))"
| empty_lock: "pcs s i = Empty_enter w \<Longrightarrow> muxQueue s = None \<Longrightarrow>
    tstep s i (go i (Empty_read w) (s\<lparr>muxQueue := Some i\<rparr>))"
| empty_read: "pcs s i = Empty_read w \<Longrightarrow>
    tstep s i (go i (Empty_leave w (tsq_empty (tq s))) s)"
| empty_leave: "pcs s i = Empty_leave w b \<Longrightarrow>
    tstep s i (go i (if \<not> b then Saw_items else if w then Wait_block else Outside)
                 (s\<lparr>muxQueue := None\<rparr>))"
| wait_block: "pcs s i = Wait_block \<Longrightarrow> muxBlocking s = None \<Longrightarrow>
    tstep s i (go i Wait_sleep (s\<lparr>muxBlocking := Some i\<rparr>))"
| wait_sleep: "pcs s i = Wait_sleep \<Longrightarrow>
    tstep s i (go i Wait_blocked (s\<lparr>muxBlocking := None\<rparr>))"
| wait_relock: "pcs s i = Wait_relock \<Longrightarrow> muxBlocking s = None \<Longrightarrow>
    tstep s i (go i Wait_again (s\<lparr>muxBlocking := Some i\<rparr>))"
| wait_again: "pcs s i = Wait_again \<Longrightarrow>
    tstep s i (go i (Empty_enter True) (s\<lparr>muxBlocking := None\<rparr>))"

inductive spurious :: "'a threads \<Rightarrow> nat \<Rightarrow> 'a threads \<Rightarrow> bool" where
  wake: "pcs s i = Wait_blocked \<Longrightarrow> spurious s i (go i Wait_relock s)"

definition any_step :: "'a threads \<Rightarrow> 'a threads \<Rightarrow> bool" where
  "any_step s t \<longleftrightarrow> (\<exists>i. tstep s i t \<or> spurious s i t)"

definition threads_reachable :: "'a threads \<Rightarrow> bool" where
  "threads_reachable s \<longleftrightarrow> (\<exists>s0. threads_init s0 \<and> any_step\<^sup>*\<^sup>* s0 s)"

inductive_cases tstepE: "tstep s i t"
inductive_cases spuriousE: "spurious s i t"
inductive_simps spurious_simps: "spurious s i t"

section \<open>Who holds which mutex\<close>

fun holdsQ :: "'a pc \<Rightarrow> bool" where
  "holdsQ (Push_emplace _) = True"
| "holdsQ Push_block = True"
| "holdsQ Push_notify = True"
| "holdsQ Push_unblock = True"
| "holdsQ Push_leave = True"
| "holdsQ Pop_take = True"
| "holdsQ Pop_leave = True"
| "holdsQ (Empty_read _) = True"
| "holdsQ (Empty_leave _ _) = True"
| "holdsQ _ = False"

fun holdsB :: "'a pc \<Rightarrow> bool" where
  "holdsB Push_notify = True"
| "holdsB Push_unblock = True"
| "holdsB Wait_sleep = True"
| "holdsB Wait_again = True"
| "holdsB _ = False"

definition mutex_inv :: "'a threads \<Rightarrow> bool" where
  "mutex_inv s \<longleftrightarrow>
     (\<forall>i. holdsQ (pcs s i) \<longleftrightarrow> muxQueue s = Some i) \<and>
     (\<forall>i. holdsB (pcs s i) \<longleftrightarrow> muxBlocking s = Some i)"

definition fifo_inv :: "'a threads \<Rightarrow> bool" where
  "fifo_inv s \<longleftrightarrow> mutex_inv s \<and> pushed s = popped s @ deqQueue (tq s)"

lemma mutex_invD:
  assumes "mutex_inv s"
  shows "holdsQ (pcs s i) \<longleftrightarrow> muxQueue s = Some i" "holdsB (pcs s i) \<longleftrightarrow> muxBlocking s = Some i"
  using assms by (simp_all add: mutex_inv_def)

text \<open>
  A step of thread \<open>i\<close> keeps the agreement when it changes no other thread, takes a mutex only
  while it is free, and leaves one only when it held it.
\<close>

definition lock_update :: "nat \<Rightarrow> bool \<Rightarrow> nat option \<Rightarrow> nat option \<Rightarrow> bool" where
  "lock_update i holds m m' \<longleftrightarrow>
     (if holds then (m = None \<or> m = Some i) \<and> m' = Some i
      else m' = (if m = Some i then None else m))"

lemma mutex_move:
  assumes inv: "mutex_inv s"
    and frame: "\<And>k. k \<noteq> i \<Longrightarrow> pcs t k = pcs s k"
    and Q: "lock_update i (holdsQ (pcs t i)) (muxQueue s) (muxQueue t)"
    and B: "lock_update i (holdsB (pcs t i)) (muxBlocking s) (muxBlocking t)"
  shows "mutex_inv t"
proof -
  have "holdsQ (pcs t k) \<longleftrightarrow> muxQueue t = Some k" for k
    using frame [of k] mutex_invD(1) [OF inv, of k] Q
    by (cases "k = i") (auto simp: lock_update_def split: if_splits)
  moreover have "holdsB (pcs t k) \<longleftrightarrow> muxBlocking t = Some k" for k
    using frame [of k] mutex_invD(2) [OF inv, of k] B
    by (cases "k = i") (auto simp: lock_update_def split: if_splits)
  ultimately show ?thesis by (simp add: mutex_inv_def)
qed

lemma mutex_inv_wake:
  assumes inv: "mutex_inv s" and j: "pcs s j = Wait_blocked"
  shows "mutex_inv (go j Wait_relock s)"
  by (rule mutex_move [OF inv, where i = j])
    (use j mutex_invD [OF inv, of j] in \<open>auto simp: lock_update_def\<close>)

lemma mutex_inv_tstep:
  assumes st: "tstep s i t" and inv: "mutex_inv s"
  shows "mutex_inv t"
proof (cases "\<exists>j. pcs s i = Push_notify \<and> pcs s j = Wait_blocked \<and>
    t = go i Push_unblock (go j Wait_relock s)")
  case True
  then obtain j where j: "pcs s i = Push_notify" "pcs s j = Wait_blocked"
    and t: "t = go i Push_unblock (go j Wait_relock s)" by blast
  have "i \<noteq> j" using j by auto
  show ?thesis unfolding t
    by (rule mutex_move [OF mutex_inv_wake [OF inv j(2)], where i = i])
      (use j \<open>i \<noteq> j\<close> mutex_invD [OF inv, of i] in \<open>auto simp: lock_update_def\<close>)
next
  case False
  show ?thesis
    by (rule mutex_move [OF inv, where i = i])
      (use st False mutex_invD [OF inv, of i] in
        \<open>cases rule: tstep.cases; auto simp: lock_update_def split: if_splits\<close>)+
qed

lemma mutex_inv_spurious: "spurious s i t \<Longrightarrow> mutex_inv s \<Longrightarrow> mutex_inv t"
  by (auto elim: spuriousE intro: mutex_inv_wake)

lemma fifo_inv_tstep: "tstep s i t \<Longrightarrow> fifo_inv s \<Longrightarrow> fifo_inv t"
proof -
  assume st: "tstep s i t" and inv: "fifo_inv s"
  have "pushed t = popped t @ deqQueue (tq t)"
    using st inv by (cases rule: tstep.cases) (auto simp: fifo_inv_def do_take_items)
  with st inv show ?thesis by (auto simp: fifo_inv_def intro: mutex_inv_tstep)
qed

lemma fifo_inv_spurious: "spurious s i t \<Longrightarrow> fifo_inv s \<Longrightarrow> fifo_inv t"
  by (auto simp: fifo_inv_def intro: mutex_inv_spurious elim: spuriousE)

interpretation threads: invariant_system threads_init any_step fifo_inv
  by unfold_locales
    (auto simp: any_step_def threads_init_def fifo_inv_def mutex_inv_def
      dest: fifo_inv_tstep fifo_inv_spurious)

lemma threads_reachable_inv: "threads_reachable s \<Longrightarrow> fifo_inv s"
  by (auto simp: threads_reachable_def intro: threads.inv_reachable)

lemma threads_reachable_init: "threads_init s \<Longrightarrow> threads_reachable s"
  by (auto simp: threads_reachable_def)

lemma threads_reachable_step: "threads_reachable s \<Longrightarrow> tstep s i t \<Longrightarrow> threads_reachable t"
proof -
  assume "threads_reachable s" "tstep s i t"
  then obtain s0 where "threads_init s0" "any_step\<^sup>*\<^sup>* s0 s" "any_step s t"
    unfolding threads_reachable_def any_step_def by blast
  then show ?thesis
    unfolding threads_reachable_def by (blast intro: rtranclp.rtrancl_into_rtrancl)
qed

section \<open>Progress\<close>

text \<open>A thread inside a member function that is not asleep on the condition variable.\<close>

fun active :: "'a pc \<Rightarrow> bool" where
  "active Outside = False"
| "active Saw_items = False"
| "active Wait_blocked = False"
| "active _ = True"

lemma holdsB_steps:
  assumes "holdsB (pcs s i)"
  shows "\<exists>t. tstep s i t"
proof (cases "pcs s i = Push_notify")
  case True
  then show ?thesis using tstep.push_notify [of s i] tstep.push_notify_none [of s i] by blast
next
  case False
  with assms show ?thesis by (cases "pcs s i") (auto intro: tstep.intros)
qed

lemma holdsQ_steps:
  assumes "holdsQ (pcs s i)" "\<not> holdsB (pcs s i)" "pcs s i \<noteq> Push_block \<or> muxBlocking s = None"
  shows "\<exists>t. tstep s i t"
  using assms by (cases "pcs s i") (auto intro: tstep.intros)

lemma free_mutex_steps:
  assumes "active (pcs s i)" "muxQueue s = None" "muxBlocking s = None"
  shows "\<exists>t. tstep s i t"
  using assms holdsQ_steps [of s i] holdsB_steps [of s i]
  by (cases "pcs s i") (auto intro: tstep.intros)

lemma holdsB_active: "holdsB p \<Longrightarrow> active p"
  by (cases p) auto

lemma holdsQ_active: "holdsQ p \<Longrightarrow> active p"
  by (cases p) auto

lemma mutex_inv_progress:
  assumes inv: "mutex_inv s" and act: "active (pcs s i)"
  shows "\<exists>j t. active (pcs s j) \<and> tstep s j t"
proof (cases "muxBlocking s")
  case (Some j)
  then have "holdsB (pcs s j)" by (simp add: mutex_invD(2) [OF inv])
  then show ?thesis using holdsB_steps holdsB_active by blast
next
  case B: None
  show ?thesis
  proof (cases "muxQueue s")
    case (Some j)
    then have "holdsQ (pcs s j)" "\<not> holdsB (pcs s j)" using B by (simp_all add: mutex_invD [OF inv])
    then show ?thesis using holdsQ_steps [of s j] B holdsQ_active by blast
  next
    case None
    then show ?thesis using free_mutex_steps [OF act None B] act by blast
  qed
qed

section \<open>One consumer that looks before it pops\<close>

text \<open>
  The discipline of \<open>server_interface::Update\<close> and of the client's loop: only thread \<open>c\<close> calls
  \<open>pop_front\<close>, and only right after \<open>empty\<close> returned false or \<open>wait\<close> returned. Any number of
  threads push, and they may look.
\<close>

definition disciplined :: "nat \<Rightarrow> 'a threads \<Rightarrow> nat \<Rightarrow> 'a threads \<Rightarrow> bool" where
  "disciplined c s i t \<longleftrightarrow>
     tstep s i t \<and> (pcs t i = Pop_enter \<longrightarrow> i = c \<and> pcs s i = Saw_items)"

definition disciplined_step :: "nat \<Rightarrow> 'a threads \<Rightarrow> 'a threads \<Rightarrow> bool" where
  "disciplined_step c s t \<longleftrightarrow> (\<exists>i. disciplined c s i t \<or> spurious s i t)"

fun popping :: "'a pc \<Rightarrow> bool" where
  "popping Pop_enter = True"
| "popping Pop_take = True"
| "popping _ = False"

fun knows_items :: "'a pc \<Rightarrow> bool" where
  "knows_items Saw_items = True"
| "knows_items (Empty_leave _ b) = (\<not> b)"
| "knows_items p = popping p"

definition consumer_inv :: "nat \<Rightarrow> 'a threads \<Rightarrow> bool" where
  "consumer_inv c s \<longleftrightarrow> \<not> faulted s \<and>
     (\<forall>i. popping (pcs s i) \<longrightarrow> i = c) \<and> (knows_items (pcs s c) \<longrightarrow> deqQueue (tq s) \<noteq> [])"

lemma consumer_inv_step:
  assumes inv: "consumer_inv c s" and st: "disciplined c s i t"
  shows "consumer_inv c t"
proof -
  have ts: "tstep s i t" and d: "pcs t i = Pop_enter \<Longrightarrow> i = c \<and> pcs s i = Saw_items"
    using st by (auto simp: disciplined_def)
  have pop: "popping (pcs s k) \<Longrightarrow> k = c" for k using inv by (simp add: consumer_inv_def)
  have kn: "knows_items (pcs s c) \<Longrightarrow> deqQueue (tq s) \<noteq> []" using inv by (simp add: consumer_inv_def)
  have nf: "\<not> faulted s" using inv by (simp add: consumer_inv_def)
  from ts show ?thesis
  proof cases
    case pop_take
    with pop [of i] have "i = c" by simp
    with pop_take kn have "deqQueue (tq s) \<noteq> []" by simp
    with pop_take nf pop \<open>i = c\<close> show ?thesis by (auto simp: consumer_inv_def do_take_faulted)
  next
    case (push_notify j)
    then show ?thesis using nf pop kn by (auto simp: consumer_inv_def)
  next
    case call_pop
    then show ?thesis using nf pop kn d by (auto simp: consumer_inv_def)
  qed (use nf pop kn pop [of i] in \<open>auto simp: consumer_inv_def split: if_splits\<close>)
qed

lemma consumer_inv_spurious: "spurious s i t \<Longrightarrow> consumer_inv c s \<Longrightarrow> consumer_inv c t"
  by (auto elim!: spuriousE simp: consumer_inv_def split: if_splits)

interpretation consumer: invariant_system threads_init "disciplined_step c" "consumer_inv c" for c
  by unfold_locales
    (auto simp: disciplined_step_def threads_init_def consumer_inv_def [of _ "\<lparr>tq = _, muxQueue = _,
        muxBlocking = _, pcs = _, faulted = _, pushed = _, popped = _\<rparr>"]
      dest: consumer_inv_step consumer_inv_spurious)

section \<open>Two interleavings\<close>

text \<open>States of two threads, for the concrete runs below.\<close>

definition two_threads :: "'a list \<Rightarrow> nat option \<Rightarrow> nat option \<Rightarrow> 'a pc \<Rightarrow> 'a pc \<Rightarrow> bool \<Rightarrow>
    'a list \<Rightarrow> 'a list \<Rightarrow> 'a threads" where
  "two_threads q mq mb p0 p1 f ps qs = \<lparr>tq = \<lparr>deqQueue = q\<rparr>, muxQueue = mq, muxBlocking = mb,
     pcs = (\<lambda>_. Outside)(0 := p0, 1 := p1), faulted = f, pushed = ps, popped = qs\<rparr>"

lemma two_threads_simps [simp]:
  "go 0 p (two_threads q mq mb p0 p1 f ps qs) = two_threads q mq mb p p1 f ps qs"
  "go (Suc 0) p (two_threads q mq mb p0 p1 f ps qs) = two_threads q mq mb p0 p f ps qs"
  "two_threads q mq mb p0 p1 f ps qs\<lparr>muxQueue := m\<rparr> = two_threads q m mb p0 p1 f ps qs"
  "two_threads q mq mb p0 p1 f ps qs\<lparr>muxBlocking := m\<rparr> = two_threads q mq m p0 p1 f ps qs"
  "do_emplace x (two_threads q mq mb p0 p1 f ps qs) = two_threads (q @ [x]) mq mb p0 p1 f (ps @ [x]) qs"
  "do_take (two_threads [] mq mb p0 p1 f ps qs) = two_threads [] mq mb p0 p1 True ps qs"
  "do_take (two_threads (x # q) mq mb p0 p1 f ps qs) = two_threads q mq mb p0 p1 f ps (qs @ [x])"
  "pcs (two_threads q mq mb p0 p1 f ps qs) = (\<lambda>_. Outside)(0 := p0, 1 := p1)"
  "muxQueue (two_threads q mq mb p0 p1 f ps qs) = mq"
  "muxBlocking (two_threads q mq mb p0 p1 f ps qs) = mb"
  "faulted (two_threads q mq mb p0 p1 f ps qs) = f"
  "deqQueue (tq (two_threads q mq mb p0 p1 f ps qs)) = q"
  by (simp_all add: two_threads_def go_def do_emplace_def do_take_def push_back_def pop_front_def
      fun_upd_twist)

lemma two_threads_init: "threads_init (two_threads [] None None Outside Outside False [] [])"
  by (simp add: threads_init_def two_threads_def new_tsqueue_def fun_eq_iff)

text \<open>
  Thread 0 finds the queue empty in \<open>wait\<close> and has released \<open>muxQueue\<close>; thread 1 pushes and
  notifies nobody; thread 0 then goes to sleep.
\<close>

lemma lost_wakeup_run:
  "threads_reachable (two_threads [x] None None Wait_blocked Outside False [x] [])"
proof -
  note st = threads_reachable_step and r0 = threads_reachable_init [OF two_threads_init]
  have r1: "threads_reachable (two_threads [] None None (Empty_enter True) Outside False [] ([] :: 'a list))"
    using st [OF r0 tstep.call_wait [where i = 0]] by simp
  have r2: "threads_reachable (two_threads [] (Some 0) None (Empty_read True) Outside False [] ([] :: 'a list))"
    using st [OF r1 tstep.empty_lock [where i = 0 and w = True]] by simp
  have r3: "threads_reachable (two_threads [] (Some 0) None (Empty_leave True True) Outside False [] ([] :: 'a list))"
    using st [OF r2 tstep.empty_read [where i = 0 and w = True]] by simp
  have r4: "threads_reachable (two_threads [] None None Wait_block Outside False [] ([] :: 'a list))"
    using st [OF r3 tstep.empty_leave [where i = 0 and w = True and b = True]] by simp
  have r5: "threads_reachable (two_threads [] None None Wait_block (Push_enter x) False [] [])"
    using st [OF r4 tstep.call_push [where i = 1 and x = x]] by simp
  have r6: "threads_reachable (two_threads [] (Some 1) None Wait_block (Push_emplace x) False [] [])"
    using st [OF r5 tstep.push_lock [where i = 1]] by simp
  have r7: "threads_reachable (two_threads [x] (Some 1) None Wait_block Push_block False [x] [])"
    using st [OF r6 tstep.push_emplace [where i = 1]] by simp
  have r8: "threads_reachable (two_threads [x] (Some 1) (Some 1) Wait_block Push_notify False [x] [])"
    using st [OF r7 tstep.push_block [where i = 1]] by simp
  have r9: "threads_reachable (two_threads [x] (Some 1) (Some 1) Wait_block Push_unblock False [x] [])"
    using st [OF r8 tstep.push_notify_none [where i = 1]] by simp
  have r10: "threads_reachable (two_threads [x] (Some 1) None Wait_block Push_leave False [x] [])"
    using st [OF r9 tstep.push_unblock [where i = 1]] by simp
  have r11: "threads_reachable (two_threads [x] None None Wait_block Outside False [x] [])"
    using st [OF r10 tstep.push_leave [where i = 1]] by simp
  have r12: "threads_reachable (two_threads [x] None (Some 0) Wait_sleep Outside False [x] [])"
    using st [OF r11 tstep.wait_block [where i = 0]] by simp
  show ?thesis using st [OF r12 tstep.wait_sleep [where i = 0]] by simp
qed

lemma blocked_no_step: "pcs s i = Wait_blocked \<Longrightarrow> \<not> tstep s i t"
  by (auto elim: tstepE)

text \<open>Two threads each find the one item, and each goes on to pop it.\<close>

lemma two_consumers_run:
  "threads_reachable (two_threads [] (Some 1) None Outside Pop_leave True [x] [x])"
proof -
  note st = threads_reachable_step and r0 = threads_reachable_init [OF two_threads_init]
  have r1: "threads_reachable (two_threads [] None None (Push_enter x) Outside False [] [])"
    using st [OF r0 tstep.call_push [where i = 0 and x = x]] by simp
  have r2: "threads_reachable (two_threads [] (Some 0) None (Push_emplace x) Outside False [] [])"
    using st [OF r1 tstep.push_lock [where i = 0]] by simp
  have r3: "threads_reachable (two_threads [x] (Some 0) None Push_block Outside False [x] [])"
    using st [OF r2 tstep.push_emplace [where i = 0]] by simp
  have r4: "threads_reachable (two_threads [x] (Some 0) (Some 0) Push_notify Outside False [x] [])"
    using st [OF r3 tstep.push_block [where i = 0]] by simp
  have r5: "threads_reachable (two_threads [x] (Some 0) (Some 0) Push_unblock Outside False [x] [])"
    using st [OF r4 tstep.push_notify_none [where i = 0]] by simp
  have r6: "threads_reachable (two_threads [x] (Some 0) None Push_leave Outside False [x] [])"
    using st [OF r5 tstep.push_unblock [where i = 0]] by simp
  have r7: "threads_reachable (two_threads [x] None None Outside Outside False [x] [])"
    using st [OF r6 tstep.push_leave [where i = 0]] by simp
  have r8: "threads_reachable (two_threads [x] None None (Empty_enter False) Outside False [x] [])"
    using st [OF r7 tstep.call_empty [where i = 0]] by simp
  have r9: "threads_reachable (two_threads [x] (Some 0) None (Empty_read False) Outside False [x] [])"
    using st [OF r8 tstep.empty_lock [where i = 0 and w = False]] by simp
  have r10: "threads_reachable (two_threads [x] (Some 0) None (Empty_leave False False) Outside False [x] [])"
    using st [OF r9 tstep.empty_read [where i = 0 and w = False]] by simp
  have r11: "threads_reachable (two_threads [x] None None Saw_items Outside False [x] [])"
    using st [OF r10 tstep.empty_leave [where i = 0 and w = False and b = False]] by simp
  have r12: "threads_reachable (two_threads [x] None None Saw_items (Empty_enter False) False [x] [])"
    using st [OF r11 tstep.call_empty [where i = 1]] by simp
  have r13: "threads_reachable (two_threads [x] (Some 1) None Saw_items (Empty_read False) False [x] [])"
    using st [OF r12 tstep.empty_lock [where i = 1 and w = False]] by simp
  have r14: "threads_reachable (two_threads [x] (Some 1) None Saw_items (Empty_leave False False) False [x] [])"
    using st [OF r13 tstep.empty_read [where i = 1 and w = False]] by simp
  have r15: "threads_reachable (two_threads [x] None None Saw_items Saw_items False [x] [])"
    using st [OF r14 tstep.empty_leave [where i = 1 and w = False and b = False]] by simp
  have r16: "threads_reachable (two_threads [x] None None Pop_enter Saw_items False [x] [])"
    using st [OF r15 tstep.call_pop [where i = 0]] by simp
  have r17: "threads_reachable (two_threads [x] (Some 0) None Pop_take Saw_items False [x] [])"
    using st [OF r16 tstep.pop_lock [where i = 0]] by simp
  have r18: "threads_reachable (two_threads [] (Some 0) None Pop_leave Saw_items False [x] [x])"
    using st [OF r17 tstep.pop_take [where i = 0]] by simp
  have r19: "threads_reachable (two_threads [] None None Outside Saw_items False [x] [x])"
    using st [OF r18 tstep.pop_leave [where i = 0]] by simp
  have r20: "threads_reachable (two_threads [] None None Outside Pop_enter False [x] [x])"
    using st [OF r19 tstep.call_pop [where i = 1]] by simp
  have r21: "threads_reachable (two_threads [] (Some 1) None Outside Pop_take False [x] [x])"
    using st [OF r20 tstep.pop_lock [where i = 1]] by simp
  show ?thesis using st [OF r21 tstep.pop_take [where i = 1]] by simp
qed

definition disciplined_reachable :: "nat \<Rightarrow> 'a threads \<Rightarrow> bool" where
  "disciplined_reachable c s \<longleftrightarrow> (\<exists>s0. threads_init s0 \<and> (disciplined_step c)\<^sup>*\<^sup>* s0 s)"

lemma disciplined_reachable_init: "threads_init s \<Longrightarrow> disciplined_reachable c s"
  by (auto simp: disciplined_reachable_def)

lemma disciplined_reachable_step:
  assumes "disciplined_reachable c s" "tstep s i t"
    "pcs t i \<noteq> Pop_enter"
  shows "disciplined_reachable c t"
proof -
  have "disciplined c s i t" using assms(2,3) by (simp add: disciplined_def)
  then have "disciplined_step c s t" unfolding disciplined_step_def by (intro exI disjI1)
  with assms(1) show ?thesis
    unfolding disciplined_reachable_def by (blast intro: rtranclp.rtrancl_into_rtrancl)
qed

text \<open>A disciplined run: one item is pushed and \<open>wait\<close> returns for it.\<close>

lemma wait_returns_run:
  "disciplined_reachable 0 (two_threads [x] None None Saw_items Outside False [x] [])"
proof -
  note st = disciplined_reachable_step [where c = 0] and r0 = disciplined_reachable_init [OF two_threads_init, where c = 0]
  have r1: "disciplined_reachable 0 (two_threads [] None None Outside (Push_enter x) False [] [])"
    using st [OF r0 tstep.call_push [where i = 1 and x = x]] by simp
  have r2: "disciplined_reachable 0 (two_threads [] (Some 1) None Outside (Push_emplace x) False [] [])"
    using st [OF r1 tstep.push_lock [where i = 1]] by simp
  have r3: "disciplined_reachable 0 (two_threads [x] (Some 1) None Outside Push_block False [x] [])"
    using st [OF r2 tstep.push_emplace [where i = 1]] by simp
  have r4: "disciplined_reachable 0 (two_threads [x] (Some 1) (Some 1) Outside Push_notify False [x] [])"
    using st [OF r3 tstep.push_block [where i = 1]] by simp
  have r5: "disciplined_reachable 0 (two_threads [x] (Some 1) (Some 1) Outside Push_unblock False [x] [])"
    using st [OF r4 tstep.push_notify_none [where i = 1]] by simp
  have r6: "disciplined_reachable 0 (two_threads [x] (Some 1) None Outside Push_leave False [x] [])"
    using st [OF r5 tstep.push_unblock [where i = 1]] by simp
  have r7: "disciplined_reachable 0 (two_threads [x] None None Outside Outside False [x] [])"
    using st [OF r6 tstep.push_leave [where i = 1]] by simp
  have r8: "disciplined_reachable 0 (two_threads [x] None None (Empty_enter True) Outside False [x] [])"
    using st [OF r7 tstep.call_wait [where i = 0]] by simp
  have r9: "disciplined_reachable 0 (two_threads [x] (Some 0) None (Empty_read True) Outside False [x] [])"
    using st [OF r8 tstep.empty_lock [where i = 0 and w = True]] by simp
  have r10: "disciplined_reachable 0 (two_threads [x] (Some 0) None (Empty_leave True False) Outside False [x] [])"
    using st [OF r9 tstep.empty_read [where i = 0 and w = True]] by simp
  show ?thesis using st [OF r10 tstep.empty_leave [where i = 0 and w = True and b = False]] by simp
qed

section \<open>Properties\<close>

text \<open>
  C15: Mutual exclusion and order. In every interleaving of any number of threads, at most one
  thread is inside a critical section of \<open>muxQueue\<close>, the mutex records it, and the items pushed
  so far, in the order of their critical sections, are the items popped so far followed by what
  the deque holds: nothing is lost, duplicated or reordered.
\<close>

theorem tsqueue_fifo_all_interleavings:
  assumes "threads_reachable s"
  shows "pushed s = popped s @ deqQueue (tq s) \<and>
    (holdsQ (pcs s i) \<and> holdsQ (pcs s j) \<longrightarrow> i = j \<and> muxQueue s = Some i)"
  using threads_reachable_inv [OF assms] by (auto simp: fifo_inv_def mutex_invD)

theorem tsqueue_fifo_all_interleavings_witness:
  "pushed (two_threads [7 :: nat] None None Wait_blocked Outside False [7] []) = [7]"
  using tsqueue_fifo_all_interleavings [OF lost_wakeup_run [of "7 :: nat"]]
  by (simp add: two_threads_def)

text \<open>
  The two mutexes never deadlock: \<open>push_back\<close> locks \<open>muxBlocking\<close> inside \<open>muxQueue\<close>, and
  \<open>wait\<close> holds only one of them at a time, so while some thread is inside a member function and
  not asleep on the condition variable, some such thread can take its next step.
\<close>

theorem tsqueue_no_mutex_deadlock:
  assumes "threads_reachable s" "active (pcs s i)"
  shows "\<exists>j t. active (pcs s j) \<and> tstep s j t"
  using mutex_inv_progress [OF _ assms(2)] threads_reachable_inv [OF assms(1)]
  by (auto simp: fifo_inv_def)

theorem tsqueue_no_mutex_deadlock_witness:
  "\<exists>j t. active (pcs (two_threads [] (Some 1) None Outside Pop_leave True [7 :: nat] [7]) j) \<and>
     tstep (two_threads [] (Some 1) None Outside Pop_leave True [7 :: nat] [7]) j t"
  by (rule tsqueue_no_mutex_deadlock [OF two_consumers_run, where i = 1]) simp

text \<open>
  One consumer that pops only after \<open>wait\<close> returned or \<open>empty\<close> returned false never calls
  \<open>pop_front\<close> on an empty deque, whatever the producers do in between.
\<close>

theorem tsqueue_single_consumer_safe:
  assumes "disciplined_reachable c s"
  shows "\<not> faulted s \<and> (pcs s c = Saw_items \<longrightarrow> deqQueue (tq s) \<noteq> [])"
  using assms consumer.inv_reachable [of _ c s]
  by (auto simp: disciplined_reachable_def consumer_inv_def)

theorem tsqueue_single_consumer_safe_witness:
  "deqQueue (tq (two_threads [7 :: nat] None None Saw_items Outside False [7] [])) \<noteq> []"
  using tsqueue_single_consumer_safe [OF wait_returns_run [of "7 :: nat"]] by simp

text \<open>
  C38: The check of \<open>wait\<close> and its sleep are not one critical section, and \<open>notify_one\<close> reaches
  only threads that already sleep: a reachable state has an item in the queue, no other thread
  inside the class, and the consumer asleep with no step of its own left.
\<close>

theorem tsqueue_wait_lost_wakeup:
  "\<exists>s :: nat threads. threads_reachable s \<and> deqQueue (tq s) \<noteq> [] \<and>
     pcs s = (\<lambda>_. Outside)(0 := Wait_blocked) \<and> \<not> (\<exists>t. tstep s 0 t)"
proof -
  let ?s = "two_threads [7 :: nat] None None Wait_blocked Outside False [7] []"
  have "pcs ?s = (\<lambda>_. Outside)(0 := Wait_blocked)" by (simp add: fun_eq_iff)
  then show ?thesis
    using lost_wakeup_run [of "7 :: nat"] blocked_no_step [of ?s 0] by (intro exI [of _ ?s]) simp
qed

text \<open>
  With two consumers the test and the pop are separate critical sections: both can find the
  one item there is, and the second \<open>pop_front\<close> then runs on an empty deque.
\<close>

theorem tsqueue_two_consumers_fault:
  "\<exists>s :: nat threads. threads_reachable s \<and> faulted s"
  using two_consumers_run [of "7 :: nat"] by (auto intro!: exI)

end
