(* ===== verification/Net_Message.thy ===== *)
theory Net_Message
  imports Asio_Prelude
begin

text \<open>
  Messages (\<open>src/one_lone_coder/net_message.h\<close>): a header of an identifier and the body size, a
  body of raw bytes used as a stack. \<open>push_data\<close> and \<open>pop_data\<close> are the two templates
  \<open>operator<<\<close> and \<open>operator>>\<close>; a value of a standard-layout type is its object representation,
  a byte list, and \<open>sizeof(DataType)\<close> is that list's length. The lemmas: the size field, the
  stack discipline, and when a pull reads out of bounds.
\<close>

section \<open>Data\<close>

record 't message_header =
  hdr_id :: 't
  hdr_size :: u32

record 't message =
  header :: "'t message_header"
  body :: "byte list"

text \<open>An owned message: \<open>remote\<close> is the \<open>shared_ptr\<close> to the connection, null (\<open>None\<close>) on a client.\<close>

record 't owned_message =
  remote :: "nat option"
  msg :: "'t message"

text \<open>\<open>message::size()\<close>, a \<open>size_t\<close>.\<close>

definition msg_size :: "'t message \<Rightarrow> size_t" where
  "msg_size m = of_nat (length (body m))"

text \<open>\<open>message<T> m;\<close> with the identifier set, as every caller builds one.\<close>

definition new_message :: "'t \<Rightarrow> 't message" where
  "new_message i = \<lparr>header = \<lparr>hdr_id = i, hdr_size = 0\<rparr>, body = []\<rparr>"

section \<open>Operations\<close>

text \<open>
  \<open>operator<<\<close>: grow the vector by \<open>sizeof\<close>, copy the object behind the old end, store the new
  size, which the assignment converts from \<open>size_t\<close> to \<open>uint32_t\<close>.
\<close>

definition push_data :: "'t message \<Rightarrow> byte list \<Rightarrow> 't message" where
  "push_data m data =
     (let i = msg_size m;
          grown = m\<lparr>body := vector_resize (length (body m) + length data) (body m)\<rparr>;
          copied = grown\<lparr>body := memcpy_into (body grown) (unat i) data\<rparr>
      in copied\<lparr>header := (header copied)\<lparr>hdr_size := ucast (msg_size copied)\<rparr>\<rparr>)"

text \<open>
  \<open>operator>>\<close>: the start of the object is computed in \<open>size_t\<close>, so it wraps when the body is
  shorter than the object; the copy then reads outside the vector, which is undefined behaviour.
\<close>

definition pop_data :: "nat \<Rightarrow> 't message \<Rightarrow> fault + byte list \<times> 't message" where
  "pop_data n m =
     (let i = msg_size m - of_nat n
      in if unat i + n \<le> length (body m)
         then let data = take n (drop (unat i) (body m));
                  shrunk = m\<lparr>body := vector_resize (unat i) (body m)\<rparr>
              in Inr (data, shrunk\<lparr>header := (header shrunk)\<lparr>hdr_size := ucast (msg_size shrunk)\<rparr>\<rparr>)
         else Inl Out_of_bounds)"

text \<open>
  \<open>operator<<(std::ostream&, const message<T>&)\<close>; \<open>to_int\<close> is the conversion of the enumeration
  to \<open>int\<close>. The overload for an owned message prints the message in it.
\<close>

definition print_message :: "('t \<Rightarrow> int) \<Rightarrow> 't message \<Rightarrow> string" where
  "print_message to_int m =
     ''ID:'' @ show_int (to_int (hdr_id (header m))) @ '' Size:'' @ show_nat (unat (hdr_size (header m)))"

definition print_owned_message :: "('t \<Rightarrow> int) \<Rightarrow> 't owned_message \<Rightarrow> string" where
  "print_owned_message to_int om = print_message to_int (msg om)"

text \<open>Chains of either operator: \<open>m << a << b\<close> and \<open>m >> b >> a\<close>.\<close>

definition push_all :: "'t message \<Rightarrow> byte list list \<Rightarrow> 't message" where
  "push_all m ds = foldl push_data m ds"

fun pop_all :: "nat list \<Rightarrow> 't message \<Rightarrow> fault + byte list list \<times> 't message" where
  "pop_all [] m = Inr ([], m)"
| "pop_all (n # ns) m =
     rbind (pop_data n m) (\<lambda>(d, m').
     rbind (pop_all ns m') (\<lambda>(ds, m''). Inr (d # ds, m'')))"

section \<open>Well-formed messages\<close>

text \<open>
  A vector's length is a \<open>size_t\<close>. \<open>sized\<close> is what both operators establish: the size field is
  the body's length modulo \<open>2 ^ 32\<close>. \<open>wire_ok\<close> is what a peer needs to read the message back.
\<close>

definition sized :: "'t message \<Rightarrow> bool" where
  "sized m \<longleftrightarrow> hdr_size (header m) = of_nat (length (body m))"

definition wire_ok :: "'t message \<Rightarrow> bool" where
  "wire_ok m \<longleftrightarrow> unat (hdr_size (header m)) = length (body m)"

lemma wire_ok_sized: "wire_ok m \<Longrightarrow> sized m"
  unfolding wire_ok_def sized_def by (metis word_of_nat_unat)

lemma sized_wire_ok: "sized m \<Longrightarrow> length (body m) < 2 ^ 32 \<Longrightarrow> wire_ok m"
  by (simp add: wire_ok_def sized_def unat_of_nat_u32)

lemma wire_ok_size_pos: "wire_ok m \<Longrightarrow> 0 < hdr_size (header m) \<longleftrightarrow> body m \<noteq> []"
  by (auto simp: wire_ok_def word_less_nat_alt)

lemma new_message_ok [simp]: "wire_ok (new_message i)" "sized (new_message i)"
    "body (new_message i) = []" "hdr_id (header (new_message i)) = i"
  by (simp_all add: new_message_def wire_ok_def sized_def)

lemma ucast_size_t: "(ucast (of_nat n :: size_t) :: u32) = of_nat n"
proof -
  have "unat (ucast (of_nat n :: size_t) :: u32) = unat (of_nat n :: u32)"
    by (simp add: unsigned_ucast_eq unsigned_of_nat take_bit_take_bit)
  then show ?thesis by (simp only: word_unat_eq_iff)
qed

section \<open>Pushing\<close>

lemma body_push_data:
  assumes "length (body m) < 2 ^ 64"
  shows "body (push_data m d) = body m @ d"
  using assms by (simp add: push_data_def msg_size_def unat_of_nat_size_t bytes_simps Let_def)

lemma hdr_id_push_data [simp]: "hdr_id (header (push_data m d)) = hdr_id (header m)"
  by (simp add: push_data_def Let_def)

lemma hdr_size_push_data:
  assumes "length (body m) < 2 ^ 64"
  shows "hdr_size (header (push_data m d)) = of_nat (length (body m) + length d)"
  using assms
  by (simp add: push_data_def msg_size_def unat_of_nat_size_t bytes_simps Let_def ucast_size_t)

lemma sized_push_data: "length (body m) < 2 ^ 64 \<Longrightarrow> sized (push_data m d)"
  by (simp add: sized_def hdr_size_push_data body_push_data)

section \<open>Pulling\<close>

lemma pop_data_short:
  assumes "length (body m) < n" "n < 2 ^ 64"
  shows "pop_data n m = Inl Out_of_bounds"
proof -
  have "unat (msg_size m - of_nat n) = 2 ^ 64 - (n - length (body m))"
    unfolding msg_size_def using assms by (rule unat_size_t_borrow)
  then show ?thesis using assms by (simp add: pop_data_def)
qed

lemma pop_data_enough:
  assumes "n \<le> length (body m)" "length (body m) < 2 ^ 64"
  shows "pop_data n m =
    Inr (drop (length (body m) - n) (body m),
         m\<lparr>body := take (length (body m) - n) (body m),
           header := (header m)\<lparr>hdr_size := of_nat (length (body m) - n)\<rparr>\<rparr>)"
proof -
  have i: "unat (msg_size m - of_nat n) = length (body m) - n"
    unfolding msg_size_def using assms by (rule unat_size_t_diff)
  show ?thesis
    unfolding pop_data_def Let_def i
    using assms by (simp add: msg_size_def ucast_size_t bytes_simps del: of_nat_diff)
qed

lemma pop_data_ok_iff:
  assumes "length (body m) < 2 ^ 64" "n < 2 ^ 64"
  shows "pop_data n m \<noteq> Inl Out_of_bounds \<longleftrightarrow> n \<le> length (body m)"
  using assms by (cases "n \<le> length (body m)") (simp_all add: pop_data_enough pop_data_short)

text \<open>One push undone by the pull of the same type.\<close>

lemma pop_push_data:
  assumes "length (body m) + length d < 2 ^ 64"
  shows "pop_data (length d) (push_data m d) =
    Inr (d, m\<lparr>header := (header m)\<lparr>hdr_size := of_nat (length (body m))\<rparr>\<rparr>)"
proof -
  have b: "body (push_data m d) = body m @ d"
    using assms by (simp add: body_push_data)
  have "push_data m d = m\<lparr>body := body (push_data m d), header := header (push_data m d)\<rparr>"
    by (simp add: push_data_def Let_def)
  moreover have "(header (push_data m d))\<lparr>hdr_size := s\<rparr> = (header m)\<lparr>hdr_size := s\<rparr>" for s
    by (simp add: push_data_def Let_def)
  ultimately show ?thesis
    using assms by (simp add: pop_data_enough b)
qed

lemma pop_push_sized:
  assumes "length (body m) + length d < 2 ^ 64" "sized m"
  shows "pop_data (length d) (push_data m d) = Inr (d, m)"
  using assms by (simp add: pop_push_data sized_def)

text \<open>Chains: the pulled objects come back in reverse order.\<close>

lemma push_all_simps [simp]:
  "push_all m [] = m"
  "push_all m (d # ds) = push_all (push_data m d) ds"
  "push_all m (ds @ [d]) = push_data (push_all m ds) d"
  by (simp_all add: push_all_def)

lemma push_all_inv:
  assumes "length (body m) + length (concat ds) < 2 ^ 64" "sized m"
  shows "sized (push_all m ds)" "body (push_all m ds) = body m @ concat ds"
  using assms
  by (induction ds arbitrary: m) (auto simp: body_push_data sized_push_data)

lemma wire_ok_iff_small: "sized m \<Longrightarrow> wire_ok m \<longleftrightarrow> length (body m) < 2 ^ 32"
  using sized_wire_ok [of m] unsigned_less [of "hdr_size (header m)", where 'a = nat]
  by (auto simp: wire_ok_def)

lemma hdr_id_push_all [simp]: "hdr_id (header (push_all m ds)) = hdr_id (header m)"
  by (induction ds arbitrary: m) simp_all

section \<open>Properties\<close>

text \<open>
  C18: Pulling objects of the same types in the opposite order gives back the objects that were
  pushed and leaves the message as it was before, header included, as long as the body fits
  \<open>size_t\<close>.
\<close>

theorem message_chain_roundtrip:
  assumes "length (body m) + length (concat ds) < 2 ^ 64" "sized m"
  shows "pop_all (map length (rev ds)) (push_all m ds) = Inr (rev ds, m)"
  using assms
proof (induction ds rule: rev_induct)
  case Nil
  then show ?case by simp
next
  case (snoc d ds)
  then have "length (body m) + length (concat ds) < 2 ^ 64" by simp
  note inv = push_all_inv [OF this \<open>sized m\<close>]
  have "pop_data (length d) (push_data (push_all m ds) d) = Inr (d, push_all m ds)"
    using snoc.prems inv by (intro pop_push_sized) auto
  moreover have "pop_all (map length (rev ds)) (push_all m ds) = Inr (rev ds, m)"
    using snoc by simp
  ultimately show ?case by simp
qed

theorem message_chain_roundtrip_witness:
  "pop_all [1, 2, 4] (push_all (new_message (7 :: u32)) [[1, 2, 3, 4], [5, 6], [9]]) =
    Inr ([[9], [5, 6], [1, 2, 3, 4]], new_message 7)"
proof -
  have l: "map length (rev [[1, 2, 3, 4], [5, 6], [9 :: byte]]) = [1, 2, 4]" by simp
  have "pop_all (map length (rev [[1, 2, 3, 4], [5, 6], [9 :: byte]]))
      (push_all (new_message (7 :: u32)) [[1, 2, 3, 4], [5, 6], [9]]) =
    Inr (rev [[1, 2, 3, 4], [5, 6], [9]], new_message 7)"
    by (rule message_chain_roundtrip) simp_all
  then show ?thesis unfolding l by simp
qed

text \<open>
  C36: \<open>operator>>\<close> on a body of at least \<open>sizeof(DataType)\<close> bytes takes exactly that many off its
  end and keeps the size field in step; on a shorter body the index wraps around and the copy reads
  outside the vector.
\<close>

theorem message_pull_bounds:
  assumes "length (body m) < 2 ^ 64" "n < 2 ^ 64"
  shows "pop_data n m =
    (if n \<le> length (body m)
     then Inr (drop (length (body m) - n) (body m),
       m\<lparr>body := take (length (body m) - n) (body m),
         header := (header m)\<lparr>hdr_size := of_nat (length (body m) - n)\<rparr>\<rparr>)
     else Inl Out_of_bounds)"
  using assms pop_data_enough [of n m] pop_data_short [of m n] by (cases "n \<le> length (body m)") simp_all

theorem message_pull_bounds_witness:
  "pop_data 8 (push_data (new_message (1 :: u32)) [1, 2, 3, 4]) = Inl Out_of_bounds"
proof -
  have b: "length (body (push_data (new_message (1 :: u32)) [1, 2, 3, 4])) = 4"
    by (simp add: body_push_data)
  show ?thesis by (rule trans [OF message_pull_bounds]) (simp_all add: b)
qed

text \<open>
  After any chain of pushes the size field is the body's length modulo \<open>2^32\<close>: it is the length
  exactly when fewer than \<open>2^32\<close> bytes were pushed, and the identifier is untouched.
\<close>

theorem message_size_field:
  assumes "length (concat ds) < 2 ^ 64"
  shows "hdr_size (header (push_all (new_message i) ds)) = of_nat (length (concat ds)) \<and>
    body (push_all (new_message i) ds) = concat ds \<and>
    hdr_id (header (push_all (new_message i) ds)) = i \<and>
    (wire_ok (push_all (new_message i) ds) = (length (concat ds) < 2 ^ 32))"
proof -
  have "sized (push_all (new_message i) ds)" "body (push_all (new_message i) ds) = concat ds"
    using push_all_inv [of "new_message i" ds] assms by simp_all
  then show ?thesis using wire_ok_iff_small [of "push_all (new_message i) ds"] by (simp add: sized_def)
qed

theorem message_size_field_witness:
  "hdr_size (header (push_all (new_message (7 :: u32)) [[1, 2], [3]])) = of_nat (length (concat [[1, 2], [3 :: byte]])) \<and>
    body (push_all (new_message (7 :: u32)) [[1, 2], [3]]) = concat [[1, 2], [3]] \<and>
    hdr_id (header (push_all (new_message (7 :: u32)) [[1, 2], [3]])) = 7 \<and>
    (wire_ok (push_all (new_message (7 :: u32)) [[1, 2], [3]]) = (length (concat [[1, 2], [3 :: byte]]) < 2 ^ 32))"
  by (rule message_size_field) simp

end
