(* ===== verification/Net_Connection.thy ===== *)
theory Net_Connection
  imports Net_Message Net_Tsqueue
begin

text \<open>
  A connection (\<open>src/one_lone_coder/net_connection.h\<close>): its members, its public functions and the
  completion handlers of the asynchronous operations it starts. Asio is not part of the
  repository: an operation that was started is an entry of \<open>pending\<close>, and its completion is an
  event with the error code and the bytes asio reports, constrained only by \<open>asio_contract\<close>.
  A handler runs to its end in the thread of the \<open>io_context\<close>. The incoming queue is the parent's
  and is passed to the handlers that push to it.
\<close>

section \<open>State\<close>

datatype owner = Owner_server | Owner_client

datatype 't op =
    Write_header_op "'t message_header"  \<comment> \<open>\<open>async_write\<close> of the front message's header\<close>
  | Write_body_op "byte list"            \<comment> \<open>\<open>async_write\<close> of the front message's body\<close>
  | Read_header_op                       \<comment> \<open>\<open>async_read\<close> into \<open>m_msgTemporaryIn.header\<close>\<close>
  | Read_body_op nat                     \<comment> \<open>\<open>async_read\<close> into \<open>m_msgTemporaryIn.body\<close>\<close>
  | Connect_op                           \<comment> \<open>\<open>async_connect\<close>\<close>
  | Send_task "'t message"               \<comment> \<open>the closure \<open>Send\<close> posts\<close>
  | Close_task                           \<comment> \<open>the closure \<open>Disconnect\<close> posts\<close>

record 't connection =
  self :: nat                            \<comment> \<open>the object's address, as \<open>shared_from_this\<close> gives it\<close>
  m_nOwnerType :: owner
  sock_open :: bool                      \<comment> \<open>\<open>m_socket.is_open()\<close>\<close>
  conn_id :: u32
  m_qMessagesOut :: "'t message tsqueue"
  m_msgTemporaryIn :: "'t message"
  pending :: "'t op list"                \<comment> \<open>operations started and not yet completed\<close>
  console :: "string list"               \<comment> \<open>lines written to \<open>std::cout\<close>\<close>

text \<open>
  The object representation of a header: an argument, since it depends on the identifier type
  and the platform.
\<close>

record 't codec =
  enc_hdr :: "'t message_header \<Rightarrow> byte list"
  dec_hdr :: "byte list \<Rightarrow> 't message_header"
  hdr_sizeof :: nat

definition new_connection :: "nat \<Rightarrow> owner \<Rightarrow> bool \<Rightarrow> 't \<Rightarrow> 't connection" where
  "new_connection r parent is_open zero =
     \<lparr>self = r, m_nOwnerType = parent, sock_open = is_open, conn_id = 0,
      m_qMessagesOut = new_tsqueue, m_msgTemporaryIn = new_message zero,
      pending = [], console = []\<rparr>"

definition start_op :: "'t op \<Rightarrow> 't connection \<Rightarrow> 't connection" where
  "start_op p c = c\<lparr>pending := pending c @ [p]\<rparr>"

definition close_socket :: "'t connection \<Rightarrow> 't connection" where
  "close_socket c = c\<lparr>sock_open := False\<rparr>"

definition report :: "string \<Rightarrow> 't connection \<Rightarrow> 't connection" where
  "report what c =
     c\<lparr>console := console c @ [''['' @ show_nat (unat (conn_id c)) @ ''] '' @ what]\<rparr>"

section \<open>Operations\<close>

definition GetID :: "'t connection \<Rightarrow> u32" where
  "GetID c = conn_id c"

definition IsConnected :: "'t connection \<Rightarrow> bool" where
  "IsConnected c \<longleftrightarrow> sock_open c"

definition ReadHeader :: "'t connection \<Rightarrow> 't connection" where
  "ReadHeader c = start_op Read_header_op c"

definition ReadBody :: "'t connection \<Rightarrow> 't connection" where
  "ReadBody c = start_op (Read_body_op (length (body (m_msgTemporaryIn c)))) c"

definition WriteHeader :: "'t connection \<Rightarrow> fault + 't connection" where
  "WriteHeader c =
     rbind (tsq_front (m_qMessagesOut c)) (\<lambda>m. Inr (start_op (Write_header_op (header m)) c))"

definition WriteBody :: "'t connection \<Rightarrow> fault + 't connection" where
  "WriteBody c =
     rbind (tsq_front (m_qMessagesOut c)) (\<lambda>m. Inr (start_op (Write_body_op (body m)) c))"

definition ConnectToClient :: "u32 \<Rightarrow> 't connection \<Rightarrow> 't connection" where
  "ConnectToClient uid c =
     (if m_nOwnerType c = Owner_server
      then (if sock_open c then ReadHeader (c\<lparr>conn_id := uid\<rparr>) else c)
      else c)"

definition ConnectToServer :: "'t connection \<Rightarrow> 't connection" where
  "ConnectToServer c =
     (if m_nOwnerType c = Owner_client then start_op Connect_op c else c)"

definition Disconnect :: "'t connection \<Rightarrow> 't connection" where
  "Disconnect c = (if IsConnected c then start_op Close_task c else c)"

text \<open>\<open>StartListening\<close> has an empty body.\<close>

definition StartListening :: "'t connection \<Rightarrow> 't connection" where
  "StartListening c = c"

definition Send :: "'t message \<Rightarrow> 't connection \<Rightarrow> 't connection" where
  "Send m c = start_op (Send_task m) c"

section \<open>Handlers\<close>

definition send_task :: "'t message \<Rightarrow> 't connection \<Rightarrow> fault + 't connection" where
  "send_task m c =
     (let bWritingMessage = \<not> tsq_empty (m_qMessagesOut c);
          c' = c\<lparr>m_qMessagesOut := push_back m (m_qMessagesOut c)\<rparr>
      in if \<not> bWritingMessage then WriteHeader c' else Inr c')"

text \<open>The tail shared by both write handlers: remove the message, go on with the next.\<close>

definition message_written :: "'t connection \<Rightarrow> fault + 't connection" where
  "message_written c =
     rbind (pop_front (m_qMessagesOut c)) (\<lambda>(_, q).
       let c' = c\<lparr>m_qMessagesOut := q\<rparr>
       in if \<not> tsq_empty q then WriteHeader c' else Inr c')"

definition write_header_done :: "error_code \<Rightarrow> 't connection \<Rightarrow> fault + 't connection" where
  "write_header_done ec c =
     (if \<not> failed ec
      then rbind (tsq_front (m_qMessagesOut c)) (\<lambda>m.
             if length (body m) > 0 then WriteBody c else message_written c)
      else Inr (close_socket (report ''Write Header Fail.'' c)))"

definition write_body_done :: "error_code \<Rightarrow> 't connection \<Rightarrow> fault + 't connection" where
  "write_body_done ec c =
     (if \<not> failed ec then message_written c
      else Inr (close_socket (report ''Write Body Fail.'' c)))"

definition AddToIncomingMessageQueue ::
  "'t connection \<Rightarrow> 't owned_message tsqueue \<Rightarrow> 't connection \<times> 't owned_message tsqueue" where
  "AddToIncomingMessageQueue c q =
     (let q' = (if m_nOwnerType c = Owner_server
                then push_back \<lparr>remote = Some (self c), msg = m_msgTemporaryIn c\<rparr> q
                else push_back \<lparr>remote = None, msg = m_msgTemporaryIn c\<rparr> q)
      in (ReadHeader c, q'))"

text \<open>
  When the header's read completes, its bytes are in \<open>m_msgTemporaryIn.header\<close>; when the body's
  read completes, its bytes are in \<open>m_msgTemporaryIn.body\<close>. After a failed read the temporary is
  not read again, and is left as it was.
\<close>

definition read_header_done :: "'t codec \<Rightarrow> error_code \<Rightarrow> byte list \<Rightarrow>
    't connection \<Rightarrow> 't owned_message tsqueue \<Rightarrow> 't connection \<times> 't owned_message tsqueue" where
  "read_header_done cd ec bs c q =
     (if \<not> failed ec
      then let tmp = (m_msgTemporaryIn c)\<lparr>header := dec_hdr cd bs\<rparr>
           in if hdr_size (header tmp) > 0
              then let sized = tmp\<lparr>body := vector_resize (unat (hdr_size (header tmp))) (body tmp)\<rparr>
                   in (ReadBody (c\<lparr>m_msgTemporaryIn := sized\<rparr>), q)
              else AddToIncomingMessageQueue (c\<lparr>m_msgTemporaryIn := tmp\<rparr>) q
      else (close_socket (report ''Read Header Fail.'' c), q))"

definition read_body_done :: "error_code \<Rightarrow> byte list \<Rightarrow>
    't connection \<Rightarrow> 't owned_message tsqueue \<Rightarrow> 't connection \<times> 't owned_message tsqueue" where
  "read_body_done ec bs c q =
     (if \<not> failed ec
      then AddToIncomingMessageQueue
             (c\<lparr>m_msgTemporaryIn := (m_msgTemporaryIn c)\<lparr>body := bs\<rparr>\<rparr>) q
      else (close_socket (report ''Read Body Fail.'' c), q))"

definition connect_done :: "error_code \<Rightarrow> 't connection \<Rightarrow> 't connection" where
  "connect_done ec c = (if \<not> failed ec then ReadHeader c else c)"

section \<open>Completions\<close>

text \<open>
  What asio documents of its operations: \<open>async_read\<close> and \<open>async_write\<close> succeed only when the
  whole buffer was transferred, and a failed \<open>async_write\<close> has written some first part of it.
  \<open>bs\<close> are the bytes read into the buffer, or the bytes written from it. Nothing is assumed about
  which operations fail or when.
\<close>

fun asio_contract :: "'t codec \<Rightarrow> 't op \<Rightarrow> error_code \<Rightarrow> byte list \<Rightarrow> bool" where
  "asio_contract cd (Write_header_op h) ec bs \<longleftrightarrow>
     (if failed ec then prefix bs (enc_hdr cd h) else bs = enc_hdr cd h)"
| "asio_contract cd (Write_body_op b) ec bs \<longleftrightarrow> (if failed ec then prefix bs b else bs = b)"
| "asio_contract cd Read_header_op ec bs \<longleftrightarrow> failed ec \<or> length bs = hdr_sizeof cd"
| "asio_contract cd (Read_body_op n) ec bs \<longleftrightarrow> failed ec \<or> length bs = n"
| "asio_contract cd Connect_op ec bs \<longleftrightarrow> True"
| "asio_contract cd (Send_task m) ec bs \<longleftrightarrow> True"
| "asio_contract cd Close_task ec bs \<longleftrightarrow> True"

fun run_handler :: "'t codec \<Rightarrow> 't op \<Rightarrow> error_code \<Rightarrow> byte list \<Rightarrow>
    't connection \<Rightarrow> 't owned_message tsqueue \<Rightarrow>
    fault + 't connection \<times> 't owned_message tsqueue" where
  "run_handler cd (Write_header_op _) ec bs c q = rbind (write_header_done ec c) (\<lambda>c'. Inr (c', q))"
| "run_handler cd (Write_body_op _) ec bs c q = rbind (write_body_done ec c) (\<lambda>c'. Inr (c', q))"
| "run_handler cd Read_header_op ec bs c q = Inr (read_header_done cd ec bs c q)"
| "run_handler cd (Read_body_op _) ec bs c q = Inr (read_body_done ec bs c q)"
| "run_handler cd Connect_op ec bs c q = Inr (connect_done ec c, q)"
| "run_handler cd (Send_task m) ec bs c q = rbind (send_task m c) (\<lambda>c'. Inr (c', q))"
| "run_handler cd Close_task ec bs c q = Inr (close_socket c, q)"

text \<open>A completion takes the operation off the pending ones and runs its handler.\<close>

definition complete_op :: "'t codec \<Rightarrow> 't op \<Rightarrow> error_code \<Rightarrow> byte list \<Rightarrow>
    't connection \<Rightarrow> 't owned_message tsqueue \<Rightarrow>
    fault + 't connection \<times> 't owned_message tsqueue" where
  "complete_op cd p ec bs c q = run_handler cd p ec bs (c\<lparr>pending := remove1 p (pending c)\<rparr>) q"

lemmas connection_defs =
  start_op_def close_socket_def report_def GetID_def IsConnected_def ReadHeader_def ReadBody_def
  WriteHeader_def WriteBody_def ConnectToClient_def ConnectToServer_def Disconnect_def
  StartListening_def Send_def

lemmas handler_defs =
  send_task_def message_written_def write_header_done_def write_body_done_def
  AddToIncomingMessageQueue_def read_header_done_def read_body_done_def connect_done_def

section \<open>Fields the helpers keep\<close>

lemma start_op_simps [simp]:
  "pending (start_op p c) = pending c @ [p]" "m_qMessagesOut (start_op p c) = m_qMessagesOut c"
  "m_msgTemporaryIn (start_op p c) = m_msgTemporaryIn c" "sock_open (start_op p c) = sock_open c"
  "m_nOwnerType (start_op p c) = m_nOwnerType c" "self (start_op p c) = self c"
  "conn_id (start_op p c) = conn_id c" "console (start_op p c) = console c"
  by (simp_all add: start_op_def)

lemma closed_simps [simp]:
  "pending (close_socket c) = pending c" "m_qMessagesOut (close_socket c) = m_qMessagesOut c"
  "m_msgTemporaryIn (close_socket c) = m_msgTemporaryIn c" "sock_open (close_socket c) = False"
  "m_nOwnerType (close_socket c) = m_nOwnerType c" "self (close_socket c) = self c"
  "conn_id (close_socket c) = conn_id c"
  by (simp_all add: close_socket_def)

lemma report_simps [simp]:
  "pending (report s c) = pending c" "m_qMessagesOut (report s c) = m_qMessagesOut c"
  "m_msgTemporaryIn (report s c) = m_msgTemporaryIn c" "sock_open (report s c) = sock_open c"
  "m_nOwnerType (report s c) = m_nOwnerType c" "self (report s c) = self c"
  "conn_id (report s c) = conn_id c"
  by (simp_all add: report_def)

end
