(* ===== verification/Wire_Format.thy ===== *)
theory Wire_Format
  imports Net_Connection
begin

text \<open>
  The byte stream of one direction of a connection: what a sender's messages look like on the
  wire, how a stream is cut into messages by the size fields, and what a connection hands to its
  parent for each of them. The laws of the header's object representation are the locale
  \<open>wire_codec\<close>; its interpretation is the header of the example programs, an
  \<open>enum class : uint32_t\<close> followed by a \<open>uint32_t\<close>, little endian.
\<close>

section \<open>Streams\<close>

definition ser1 :: "'t codec \<Rightarrow> 't message \<Rightarrow> byte list" where
  "ser1 cd m = enc_hdr cd (header m) @ body m"

definition ser :: "'t codec \<Rightarrow> 't message list \<Rightarrow> byte list" where
  "ser cd ms = concat (map (ser1 cd) ms)"

lemma ser_simps [simp]:
  "ser cd [] = []" "ser cd (m # ms) = ser1 cd m @ ser cd ms" "ser cd (ms @ ns) = ser cd ms @ ser cd ns"
  by (simp_all add: ser_def)

text \<open>\<open>frames cd bs ms\<close>: the stream \<open>bs\<close> is exactly the messages \<open>ms\<close>, cut by the size fields.\<close>

inductive frames :: "'t codec \<Rightarrow> byte list \<Rightarrow> 't message list \<Rightarrow> bool" for cd where
  frames_Nil: "frames cd [] []"
| frames_Cons: "length hb = hdr_sizeof cd \<Longrightarrow> length b = unat (hdr_size (dec_hdr cd hb)) \<Longrightarrow>
    frames cd bs ms \<Longrightarrow> frames cd (hb @ b @ bs) (\<lparr>header = dec_hdr cd hb, body = b\<rparr> # ms)"

lemma frames_append:
  "frames cd bs ms \<Longrightarrow> frames cd bs' ms' \<Longrightarrow> frames cd (bs @ bs') (ms @ ms')"
  by (induction rule: frames.induct) (auto intro: frames.intros)

lemma frames_snoc:
  assumes "frames cd bs ms" "length hb = hdr_sizeof cd" "length b = unat (hdr_size (dec_hdr cd hb))"
  shows "frames cd (bs @ hb @ b) (ms @ [\<lparr>header = dec_hdr cd hb, body = b\<rparr>])"
  using frames_append [OF assms(1) frames_Cons [OF assms(2,3) frames_Nil]] by simp

lemma frames_wire_ok: "frames cd bs ms \<Longrightarrow> m \<in> set ms \<Longrightarrow> wire_ok m"
  by (induction rule: frames.induct) (auto simp: wire_ok_def)

lemma message_eta [simp]: "\<lparr>header = header m, body = body m\<rparr> = m"
  by (cases m) simp

section \<open>What the reader delivers\<close>

text \<open>
  The reader keeps one temporary message. A message without a body leaves the temporary's body as
  the message before it left it, and that body is delivered with it.
\<close>

fun deliver :: "byte list \<Rightarrow> 't message list \<Rightarrow> 't message list" where
  "deliver old [] = []"
| "deliver old (m # ms) =
     (if body m = [] then m\<lparr>body := old\<rparr> # deliver old ms else m # deliver (body m) ms)"

fun last_body :: "byte list \<Rightarrow> 't message list \<Rightarrow> byte list" where
  "last_body old [] = old"
| "last_body old (m # ms) = last_body (if body m = [] then old else body m) ms"

lemma last_body_append [simp]: "last_body old (ms @ ns) = last_body (last_body old ms) ns"
  by (induction ms arbitrary: old) simp_all

lemma deliver_append: "deliver old (ms @ ns) = deliver old ms @ deliver (last_body old ms) ns"
  by (induction ms arbitrary: old) simp_all

lemma length_deliver [simp]: "length (deliver old ms) = length ms"
  by (induction ms arbitrary: old) simp_all

lemma headers_deliver [simp]: "map header (deliver old ms) = map header ms"
  by (induction ms arbitrary: old) simp_all

lemma deliver_prefix: "prefix ms ns \<Longrightarrow> prefix (deliver old ms) (deliver old ns)"
  by (auto simp: prefix_def deliver_append)

lemma deliver_bodies: "(\<And>m. m \<in> set ms \<Longrightarrow> body m \<noteq> []) \<Longrightarrow> deliver old ms = ms"
  by (induction ms arbitrary: old) auto

section \<open>Header representations\<close>

locale wire_codec =
  fixes cd :: "'t codec"
  assumes dec_enc: "dec_hdr cd (enc_hdr cd h) = h"
    and length_enc: "length (enc_hdr cd h) = hdr_sizeof cd"
    and sizeof_pos: "0 < hdr_sizeof cd"
begin

lemma enc_inj: "enc_hdr cd h = enc_hdr cd h' \<Longrightarrow> h = h'"
  by (metis dec_enc)

lemma frames_ser: "(\<And>m. m \<in> set ms \<Longrightarrow> wire_ok m) \<Longrightarrow> frames cd (ser cd ms) ms"
proof (induction ms)
  case Nil
  then show ?case by (simp add: frames_Nil)
next
  case (Cons m ms)
  then have "length (body m) = unat (hdr_size (dec_hdr cd (enc_hdr cd (header m))))"
    by (simp add: dec_enc wire_ok_def)
  from frames_Cons [OF length_enc this] Cons show ?case
    by (simp add: ser1_def dec_enc)
qed

text \<open>A stream that starts like a serialization is cut into the messages it was made from.\<close>

lemma frames_cut:
  assumes "frames cd bs ms" "prefix bs (ser cd sent)" "\<And>m. m \<in> set sent \<Longrightarrow> wire_ok m"
  shows "prefix ms sent \<and> bs = ser cd ms"
  using assms
proof (induction arbitrary: sent rule: frames.induct)
  case frames_Nil
  then show ?case by simp
next
  case (frames_Cons hb b bs ms)
  have "sent \<noteq> []" using frames_Cons.prems(1) frames_Cons.hyps(1) sizeof_pos by auto
  then obtain s ss where s: "sent = s # ss" by (cases sent) auto
  obtain rest where "ser cd sent = hb @ b @ bs @ rest"
    using frames_Cons.prems(1) by (auto simp: prefix_def)
  then have "enc_hdr cd (header s) @ body s @ ser cd ss = hb @ b @ bs @ rest"
    by (simp add: s ser1_def)
  moreover have "length (enc_hdr cd (header s)) = length hb"
    using frames_Cons.hyps(1) by (simp add: length_enc)
  ultimately have hb: "enc_hdr cd (header s) = hb" and rest: "body s @ ser cd ss = b @ bs @ rest"
    by simp_all
  then have h: "dec_hdr cd hb = header s" using dec_enc by blast
  have "length b = length (body s)"
    using frames_Cons.hyps(2) frames_Cons.prems(2) [of s] h by (simp add: s wire_ok_def)
  with rest have b: "b = body s" and "ser cd ss = bs @ rest"
    by auto
  then have "prefix bs (ser cd ss)" by (simp add: prefix_def)
  with frames_Cons.IH [of ss] frames_Cons.prems(2) have "prefix ms ss \<and> bs = ser cd ms" by (simp add: s)
  with hb show ?case by (simp add: s h b ser1_def)
qed

lemma frames_prefix_ser:
  "frames cd bs ms \<Longrightarrow> prefix bs (ser cd sent) \<Longrightarrow> (\<And>m. m \<in> set sent \<Longrightarrow> wire_ok m) \<Longrightarrow> prefix ms sent"
  using frames_cut by blast

text \<open>A stream is cut in one way.\<close>

lemma frames_unique: "frames cd bs ms \<Longrightarrow> frames cd bs ns \<Longrightarrow> ms = ns"
proof (induction arbitrary: ns rule: frames.induct)
  case frames_Nil
  then show ?case by cases (use sizeof_pos in auto)
next
  case (frames_Cons hb b bs ms)
  from frames_Cons.prems show ?case
  proof cases
    case frames_Nil
    with frames_Cons.hyps(1) sizeof_pos show ?thesis by auto
  next
    case (frames_Cons hb' b' bs' ms')
    then have "hb = hb'" using frames_Cons.hyps(1) \<open>length hb = hdr_sizeof cd\<close> by simp
    with frames_Cons \<open>length b = unat (hdr_size (dec_hdr cd hb))\<close> have "b = b'" "bs = bs'" by simp_all
    with frames_Cons frames_Cons.IH \<open>hb = hb'\<close> show ?thesis by simp
  qed
qed

end

section \<open>The header of the example programs\<close>

definition u32_bytes :: "u32 \<Rightarrow> byte list" where
  "u32_bytes w = [ucast w, ucast (drop_bit 8 w), ucast (drop_bit 16 w), ucast (drop_bit 24 w)]"

definition bytes_u32 :: "byte list \<Rightarrow> u32" where
  "bytes_u32 bs = word_of_nat (unat (bs ! 0) + 256 * (unat (bs ! 1) + 256 * (unat (bs ! 2) + 256 * unat (bs ! 3))))"

definition custom_codec :: "u32 codec" where
  "custom_codec = \<lparr>enc_hdr = (\<lambda>h. u32_bytes (hdr_id h) @ u32_bytes (hdr_size h)),
     dec_hdr = (\<lambda>bs. \<lparr>hdr_id = bytes_u32 (take 4 bs), hdr_size = bytes_u32 (drop 4 bs)\<rparr>),
     hdr_sizeof = 8\<rparr>"

lemma length_u32_bytes [simp]: "length (u32_bytes w) = 4"
  by (simp add: u32_bytes_def)

lemma base256:
  fixes n :: nat
  assumes "n < 4294967296"
  shows "n mod 256 + 256 * (n div 256 mod 256 +
      256 * (n div 65536 mod 256 + 256 * (n div 16777216 mod 256))) = n"
proof -
  have "n div 65536 = n div 256 div 256" "n div 16777216 = n div 65536 div 256"
    by (simp_all add: div_mult2_eq [symmetric])
  moreover have "n div 16777216 mod 256 = n div 16777216"
    using assms by (simp add: div_less_iff_less_mult)
  ultimately show ?thesis by (metis add.commute div_mult_mod_eq mult.commute)
qed

lemma bytes_u32_bytes [simp]: "bytes_u32 (u32_bytes w) = w"
proof -
  have "unat w < 4294967296" using unsigned_less [of w] by simp
  then have "unat (u32_bytes w ! 0) + 256 * (unat (u32_bytes w ! 1) + 256 * (unat (u32_bytes w ! 2)
      + 256 * unat (u32_bytes w ! 3))) = unat w"
    using base256 [of "unat w"]
    by (simp add: u32_bytes_def unsigned_ucast_eq unat_div
        drop_bit_eq_div take_bit_eq_mod)
  then show ?thesis by (simp add: bytes_u32_def)
qed

interpretation custom: wire_codec custom_codec
  by unfold_locales (simp_all add: custom_codec_def)

end
