(* ===== verification/Connection_Protocol.thy ===== *)
theory Connection_Protocol
  imports Wire_Format
begin

text \<open>
  Every execution of one connection: the calls its parent makes, and the completions asio delivers
  in any order and with any errors. The state \<open>link\<close> adds to the connection what an observer
  records: the messages whose \<open>Send\<close> closure has run, the bytes written to and read from the
  socket, the messages handed to the parent. The invariants say that at most one write and one
  read are in flight, that the written bytes are always a first part of the accepted messages'
  serialization, and that the delivered messages are the frames of the bytes read.
\<close>

section \<open>Executions\<close>

record 't link =
  lk :: "'t connection"
  lk_in :: "'t owned_message tsqueue"   \<comment> \<open>the parent's \<open>m_qMessagesIn\<close>\<close>
  started :: bool
  accepted :: "'t message list"
  wire_out :: "byte list"
  wire_in :: "byte list"
  received :: "'t message list"

fun taken_over :: "'t op \<Rightarrow> 't message list" where
  "taken_over (Send_task m) = [m]"
| "taken_over _ = []"

fun bytes_written :: "'t op \<Rightarrow> byte list \<Rightarrow> byte list" where
  "bytes_written (Write_header_op _) bs = bs"
| "bytes_written (Write_body_op _) bs = bs"
| "bytes_written _ bs = []"

fun bytes_read :: "'t op \<Rightarrow> error_code \<Rightarrow> byte list \<Rightarrow> byte list" where
  "bytes_read Read_header_op ec bs = (if failed ec then [] else bs)"
| "bytes_read (Read_body_op _) ec bs = (if failed ec then [] else bs)"
| "bytes_read _ ec bs = []"

definition observe :: "'t op \<Rightarrow> error_code \<Rightarrow> byte list \<Rightarrow> 't link \<Rightarrow>
    't connection \<times> 't owned_message tsqueue \<Rightarrow> 't link" where
  "observe p ec bs w r =
     w\<lparr>lk := fst r, lk_in := snd r,
       accepted := accepted w @ taken_over p,
       wire_out := wire_out w @ bytes_written p bs,
       wire_in := wire_in w @ bytes_read p ec bs,
       received := received w @ map msg (drop (length (deqQueue (lk_in w))) (deqQueue (snd r)))\<rparr>"

text \<open>
  Bytes count as written when the operation that writes them completes, or as far as it got when it
  fails: an observer of the network sees them no later than the writer's handler does.

  \<open>begin\<close> is the one call of \<open>ConnectToClient\<close> or \<open>ConnectToServer\<close>; \<open>others\<close> is whatever the
  parent and its other connections do to the shared incoming queue; \<open>opened\<close> is asio opening the
  socket while it connects.
\<close>

inductive link_step :: "'t codec \<Rightarrow> fault + 't link \<Rightarrow> fault + 't link \<Rightarrow> bool" for cd where
  begin_server: "\<not> started w \<Longrightarrow> m_nOwnerType (lk w) = Owner_server \<Longrightarrow>
    link_step cd (Inr w) (Inr (w\<lparr>lk := ConnectToClient uid (lk w), started := True\<rparr>))"
| begin_client: "\<not> started w \<Longrightarrow> m_nOwnerType (lk w) = Owner_client \<Longrightarrow>
    link_step cd (Inr w) (Inr (w\<lparr>lk := ConnectToServer (lk w), started := True\<rparr>))"
| call_send: "link_step cd (Inr w) (Inr (w\<lparr>lk := Send m (lk w)\<rparr>))"
| call_disconnect: "link_step cd (Inr w) (Inr (w\<lparr>lk := Disconnect (lk w)\<rparr>))"
| opened: "Connect_op \<in> set (pending (lk w)) \<Longrightarrow>
    link_step cd (Inr w) (Inr (w\<lparr>lk := (lk w)\<lparr>sock_open := True\<rparr>\<rparr>))"
| others: "link_step cd (Inr w) (Inr (w\<lparr>lk_in := q\<rparr>))"
| completion: "p \<in> set (pending (lk w)) \<Longrightarrow> asio_contract cd p ec bs \<Longrightarrow>
    link_step cd (Inr w)
      (rbind (complete_op cd p ec bs (lk w) (lk_in w)) (\<lambda>r. Inr (observe p ec bs w r)))"

inductive_cases link_stepE: "link_step cd (Inr w) r"

definition link_init :: "fault + 't link \<Rightarrow> bool" where
  "link_init r \<longleftrightarrow> (\<exists>a ow is_open z. r = Inr \<lparr>lk = new_connection a ow is_open z,
     lk_in = new_tsqueue, started = False, accepted = [], wire_out = [], wire_in = [],
     received = []\<rparr>)"

definition link_reachable :: "'t codec \<Rightarrow> fault + 't link \<Rightarrow> bool" where
  "link_reachable cd r \<longleftrightarrow> (\<exists>r0. link_init r0 \<and> (link_step cd)\<^sup>*\<^sup>* r0 r)"

section \<open>The write side\<close>

fun is_write :: "'t op \<Rightarrow> bool" where
  "is_write (Write_header_op _) = True"
| "is_write (Write_body_op _) = True"
| "is_write _ = False"

text \<open>
  \<open>write_ok cd ws out sent wire\<close>: with the writes \<open>ws\<close> in flight and the queue \<open>out\<close>, of which the
  messages before \<open>out\<close> were \<open>sent\<close>, the socket has been given the bytes \<open>wire\<close>. The operation in
  flight refers to the front message, which stays at the front until the operation completes.
  The last disjunct of the idle case is a connection whose write failed.
\<close>

fun write_ok :: "'t codec \<Rightarrow> 't op list \<Rightarrow> 't message list \<Rightarrow> 't message list \<Rightarrow> byte list \<Rightarrow> bool" where
  "write_ok cd [] out sent wire \<longleftrightarrow>
     (if out = [] then wire = ser cd sent else prefix wire (ser cd (sent @ out)))"
| "write_ok cd [Write_header_op h] out sent wire \<longleftrightarrow>
     (\<exists>m rest. out = m # rest \<and> h = header m \<and> wire = ser cd sent)"
| "write_ok cd [Write_body_op b] out sent wire \<longleftrightarrow>
     (\<exists>m rest. out = m # rest \<and> b = body m \<and> wire = ser cd sent @ enc_hdr cd (header m))"
| "write_ok cd _ out sent wire \<longleftrightarrow> False"

definition write_inv :: "'t codec \<Rightarrow> 't link \<Rightarrow> bool" where
  "write_inv cd w \<longleftrightarrow>
     (\<exists>sent. accepted w = sent @ deqQueue (m_qMessagesOut (lk w)) \<and>
        write_ok cd (filter is_write (pending (lk w))) (deqQueue (m_qMessagesOut (lk w))) sent (wire_out w))"

lemma write_ok_prefix: "write_ok cd ws out sent wire \<Longrightarrow> prefix wire (ser cd (sent @ out))"
  by (induction cd ws out sent wire rule: write_ok.induct) (auto simp: ser1_def split: if_splits)

lemma drained_wire: "write_ok cd ws [] sent wire \<Longrightarrow> wire = ser cd sent"
  by (induction cd ws "[] :: 'a message list" sent wire rule: write_ok.induct) (auto split: if_splits)

text \<open>A message at the back of the queue disturbs no write in flight.\<close>

lemma write_ok_push:
  "write_ok cd ws out sent wire \<Longrightarrow> ws \<noteq> [] \<or> out \<noteq> [] \<Longrightarrow> write_ok cd ws (out @ [m]) sent wire"
  by (induction cd ws out sent wire rule: write_ok.induct)
    (auto simp flip: append_assoc intro: prefix_prefix)

lemma write_ok_single: "write_ok cd ws out sent wire \<Longrightarrow> p \<in> set ws \<Longrightarrow> ws = [p]"
  by (induction cd ws out sent wire rule: write_ok.induct) auto

lemma write_ok_length: "write_ok cd ws out sent wire \<Longrightarrow> length ws \<le> 1"
  by (induction cd ws out sent wire rule: write_ok.induct) auto

lemma filter_remove1_eq: "filter P (remove1 x xs) = (if P x then remove1 x (filter P xs) else filter P xs)"
  by (induction xs) auto

lemma WriteHeader_Cons:
  "deqQueue (m_qMessagesOut c) = m # rest \<Longrightarrow> WriteHeader c = Inr (start_op (Write_header_op (header m)) c)"
  by (simp add: WriteHeader_def front_Cons)

lemma WriteBody_Cons:
  "deqQueue (m_qMessagesOut c) = m # rest \<Longrightarrow> WriteBody c = Inr (start_op (Write_body_op (body m)) c)"
  by (simp add: WriteBody_def front_Cons)

text \<open>
  The message in front is written out: it joins the sent ones and the next header, if there is a
  next message, goes in flight.
\<close>

lemma message_written_ok:
  assumes "deqQueue (m_qMessagesOut c) = m # rest" "filter is_write (pending c) = []"
  shows "\<exists>c'. message_written c = Inr c' \<and> deqQueue (m_qMessagesOut c') = rest \<and>
    write_ok cd (filter is_write (pending c')) rest (sent @ [m]) (ser cd (sent @ [m]))"
  using assms by (cases rest) (simp_all add: message_written_def pop_front_Cons WriteHeader_Cons)

lemma write_header_done_ok:
  assumes "filter is_write (pending c) = []" "deqQueue (m_qMessagesOut c) = m # rest"
    "wire = ser cd sent" "asio_contract cd (Write_header_op (header m)) ec bs"
  shows "\<exists>c' sent'. write_header_done ec c = Inr c' \<and>
    sent' @ deqQueue (m_qMessagesOut c') = sent @ m # rest \<and>
    write_ok cd (filter is_write (pending c')) (deqQueue (m_qMessagesOut c')) sent' (wire @ bs)"
proof (cases "failed ec")
  case True
  then have "prefix (wire @ bs) (ser cd (sent @ m # rest))"
    using assms(3,4) by (auto simp: ser1_def prefix_def)
  with True assms(1,2) show ?thesis
    by (intro exI [of _ "close_socket (report ''Write Header Fail.'' c)"] exI [of _ sent])
      (simp add: write_header_done_def)
next
  case False
  show ?thesis
  proof (cases "body m = []")
    case True
    then have "wire @ bs = ser cd (sent @ [m])" using assms(3,4) False by (simp add: ser1_def)
    with message_written_ok [OF assms(2,1), of cd sent] True False assms(2) show ?thesis
      by (auto simp: write_header_done_def front_Cons intro!: exI [of _ "sent @ [m]"])
  next
    case body: False
    with assms False show ?thesis
      by (intro exI [of _ "start_op (Write_body_op (body m)) c"] exI [of _ sent])
        (simp add: write_header_done_def front_Cons WriteBody_Cons)
  qed
qed

lemma write_body_done_ok:
  assumes "filter is_write (pending c) = []" "deqQueue (m_qMessagesOut c) = m # rest"
    "wire = ser cd sent @ enc_hdr cd (header m)" "asio_contract cd (Write_body_op (body m)) ec bs"
  shows "\<exists>c' sent'. write_body_done ec c = Inr c' \<and>
    sent' @ deqQueue (m_qMessagesOut c') = sent @ m # rest \<and>
    write_ok cd (filter is_write (pending c')) (deqQueue (m_qMessagesOut c')) sent' (wire @ bs)"
proof (cases "failed ec")
  case True
  then have "prefix (wire @ bs) (ser cd (sent @ m # rest))"
    using assms(3,4) by (auto simp: ser1_def prefix_def)
  with True assms(1,2) show ?thesis
    by (intro exI [of _ "close_socket (report ''Write Body Fail.'' c)"] exI [of _ sent])
      (simp add: write_body_done_def)
next
  case False
  then have "wire @ bs = ser cd (sent @ [m])" using assms(3,4) by (simp add: ser1_def)
  with message_written_ok [OF assms(2,1), of cd sent] False show ?thesis
    by (auto simp: write_body_done_def intro!: exI [of _ "sent @ [m]"])
qed

lemma send_task_ok:
  assumes "write_ok cd (filter is_write (pending c)) (deqQueue (m_qMessagesOut c)) sent wire"
  shows "\<exists>c'. send_task m c = Inr c' \<and> deqQueue (m_qMessagesOut c') = deqQueue (m_qMessagesOut c) @ [m] \<and>
    write_ok cd (filter is_write (pending c')) (deqQueue (m_qMessagesOut c')) sent wire"
proof (cases "deqQueue (m_qMessagesOut c)")
  case Nil
  with assms have "filter is_write (pending c) = []"
    by (cases "(cd, filter is_write (pending c), deqQueue (m_qMessagesOut c), sent, wire)"
        rule: write_ok.cases) auto
  with Nil assms show ?thesis by (simp add: send_task_def WriteHeader_Cons)
next
  case (Cons a rest)
  with assms write_ok_push [OF assms, of m] show ?thesis by (simp add: send_task_def Let_def)
qed

text \<open>The handlers of reads and of the other operations leave the write side alone.\<close>

lemma not_write_frame:
  assumes "run_handler cd p ec bs c q = Inr (c', q')" "\<not> is_write p" "taken_over p = []"
  shows "m_qMessagesOut c' = m_qMessagesOut c \<and> filter is_write (pending c') = filter is_write (pending c)"
  using assms
  by (cases p) (auto simp: handler_defs ReadHeader_def ReadBody_def Let_def split: if_splits)

lemma not_write_total:
  "\<not> is_write p \<Longrightarrow> taken_over p = [] \<Longrightarrow> \<exists>r. run_handler cd p ec bs c q = Inr r"
  by (cases p) auto

lemma write_inv_completion:
  assumes inv: "write_inv cd w" and p: "p \<in> set (pending (lk w))" and ac: "asio_contract cd p ec bs"
  shows "\<exists>r. complete_op cd p ec bs (lk w) (lk_in w) = Inr r \<and> write_inv cd (observe p ec bs w r)"
proof -
  let ?c = "(lk w)\<lparr>pending := remove1 p (pending (lk w))\<rparr>" and ?out = "deqQueue (m_qMessagesOut (lk w))"
  obtain sent where acc: "accepted w = sent @ ?out"
    and ok: "write_ok cd (filter is_write (pending (lk w))) ?out sent (wire_out w)"
    using inv by (auto simp: write_inv_def)
  show ?thesis
  proof (cases "is_write p")
    case True
    then have ws: "filter is_write (pending (lk w)) = [p]" using p by (intro write_ok_single [OF ok]) simp
    then have none: "filter is_write (pending ?c) = []" using True by (simp add: filter_remove1_eq)
    show ?thesis
    proof (cases p)
      case (Write_header_op h)
      with ok ws obtain m rest where m: "?out = m # rest" "h = header m" "wire_out w = ser cd sent" by auto
      have out: "deqQueue (m_qMessagesOut ?c) = m # rest" using m(1) by simp
      have ac': "asio_contract cd (Write_header_op (header m)) ec bs" using ac Write_header_op m(2) by simp
      from write_header_done_ok [OF none out m(3) ac'] obtain c' sent' where "write_header_done ec ?c = Inr c'"
        "sent' @ deqQueue (m_qMessagesOut c') = sent @ m # rest"
        "write_ok cd (filter is_write (pending c')) (deqQueue (m_qMessagesOut c')) sent' (wire_out w @ bs)"
        by blast
      then show ?thesis using acc m(1)
        by (auto simp: Write_header_op complete_op_def observe_def write_inv_def intro!: exI [of _ sent'])
    next
      case (Write_body_op b)
      with ok ws obtain m rest where m: "?out = m # rest" "b = body m"
        "wire_out w = ser cd sent @ enc_hdr cd (header m)" by auto
      have out: "deqQueue (m_qMessagesOut ?c) = m # rest" using m(1) by simp
      have ac': "asio_contract cd (Write_body_op (body m)) ec bs" using ac Write_body_op m(2) by simp
      from write_body_done_ok [OF none out m(3) ac'] obtain c' sent' where "write_body_done ec ?c = Inr c'"
        "sent' @ deqQueue (m_qMessagesOut c') = sent @ m # rest"
        "write_ok cd (filter is_write (pending c')) (deqQueue (m_qMessagesOut c')) sent' (wire_out w @ bs)"
        by blast
      then show ?thesis using acc m(1)
        by (auto simp: Write_body_op complete_op_def observe_def write_inv_def intro!: exI [of _ sent'])
    qed (use True in simp_all)
  next
    case False
    then have ws: "filter is_write (pending ?c) = filter is_write (pending (lk w))"
      by (simp add: filter_remove1_eq)
    have bw: "bytes_written p bs = []" using False by (cases p) auto
    show ?thesis
    proof (cases "\<exists>m. p = Send_task m")
      case True
      then obtain m where m: "p = Send_task m" by blast
      from send_task_ok [of cd ?c sent "wire_out w" m] ok ws obtain c' where
        "send_task m ?c = Inr c'" "deqQueue (m_qMessagesOut c') = ?out @ [m]"
        "write_ok cd (filter is_write (pending c')) (deqQueue (m_qMessagesOut c')) sent (wire_out w)"
        by auto
      with m acc show ?thesis
        by (auto simp: complete_op_def observe_def write_inv_def intro!: exI [of _ sent])
    next
      case send: False
      then have "taken_over p = []" by (cases p) auto
      moreover from this False obtain c' q' where "run_handler cd p ec bs ?c (lk_in w) = Inr (c', q')"
        using not_write_total [of p cd ec bs ?c "lk_in w"] by auto
      ultimately show ?thesis
        using not_write_frame [of cd p ec bs ?c "lk_in w" c' q'] False acc ok ws bw
        by (auto simp: complete_op_def observe_def write_inv_def)
    qed
  qed
qed

lemma write_inv_calls:
  assumes "write_inv cd w"
  shows "write_inv cd (w\<lparr>lk := ConnectToClient uid (lk w), started := True\<rparr>)"
    "write_inv cd (w\<lparr>lk := ConnectToServer (lk w), started := True\<rparr>)"
    "write_inv cd (w\<lparr>lk := Send m (lk w)\<rparr>)" "write_inv cd (w\<lparr>lk := Disconnect (lk w)\<rparr>)"
    "write_inv cd (w\<lparr>lk := (lk w)\<lparr>sock_open := b\<rparr>\<rparr>)" "write_inv cd (w\<lparr>lk_in := q\<rparr>)"
  using assms
  by (simp_all add: write_inv_def ConnectToClient_def ConnectToServer_def Send_def Disconnect_def
      ReadHeader_def)

text \<open>No step of the write side is a fault.\<close>

definition write_side :: "'t codec \<Rightarrow> fault + 't link \<Rightarrow> bool" where
  "write_side cd r \<longleftrightarrow> (\<exists>w. r = Inr w \<and> write_inv cd w)"

lemma write_side_step:
  assumes "write_side cd r" "link_step cd r r'"
  shows "write_side cd r'"
proof -
  obtain w where w: "r = Inr w" "write_inv cd w" using assms(1) by (auto simp: write_side_def)
  from assms(2) show ?thesis
  proof cases
    case (completion p v ec bs)
    then obtain x where "complete_op cd p ec bs (lk w) (lk_in w) = Inr x" "write_inv cd (observe p ec bs w x)"
      using write_inv_completion [OF w(2), of p ec bs] w(1) by blast
    with completion w(1) show ?thesis by (auto simp: write_side_def)
  qed (use w(1) write_inv_calls [OF w(2)] in \<open>auto simp: write_side_def\<close>)
qed

lemma write_side_init: "link_init r \<Longrightarrow> write_side cd r"
  by (auto simp: link_init_def write_side_def write_inv_def new_connection_def)

interpretation write_side: invariant_system link_init "link_step cd" "write_side cd" for cd
  by unfold_locales (auto intro: write_side_init write_side_step)

section \<open>The read side\<close>

fun is_read :: "'t op \<Rightarrow> bool" where
  "is_read Read_header_op = True"
| "is_read (Read_body_op _) = True"
| "is_read Connect_op = True"
| "is_read _ = False"

text \<open>
  The messages handed over are the deliveries of all the complete frames of the bytes read: what is
  left behind them is nothing, or a header whose body has not arrived.
\<close>

definition unfinished :: "'t codec \<Rightarrow> byte list \<Rightarrow> bool" where
  "unfinished cd part \<longleftrightarrow> part = [] \<or> length part = hdr_sizeof cd \<and> 0 < hdr_size (dec_hdr cd part)"

definition delivered :: "'t codec \<Rightarrow> byte list \<Rightarrow> 't message list \<Rightarrow> bool" where
  "delivered cd wire recv \<longleftrightarrow>
     (\<exists>bs part ms. wire = bs @ part \<and> frames cd bs ms \<and> unfinished cd part \<and> recv = deliver [] ms)"

lemma deliveredI: "frames cd bs ms \<Longrightarrow> unfinished cd part \<Longrightarrow> delivered cd (bs @ part) (deliver [] ms)"
  by (auto simp: delivered_def)

lemma delivered_all: "frames cd bs ms \<Longrightarrow> delivered cd bs (deliver [] ms)"
  using deliveredI [of cd bs ms "[]"] by (simp add: unfinished_def)

lemma delivered_Nil: "delivered cd [] []"
  using delivered_all [OF frames_Nil, of cd] by simp

text \<open>
  \<open>read_ok cd rs begun tmp wire recv\<close>: with the reads \<open>rs\<close> in flight and the temporary message
  \<open>tmp\<close>, the bytes \<open>wire\<close> have been read and the messages \<open>recv\<close> handed over. The first case is
  a connection that has not begun to read, or has stopped after an error.
\<close>

fun read_ok :: "'t codec \<Rightarrow> 't op list \<Rightarrow> bool \<Rightarrow> 't message \<Rightarrow> byte list \<Rightarrow> 't message list \<Rightarrow> bool" where
  "read_ok cd [] begun tmp wire recv \<longleftrightarrow>
     (if begun then delivered cd wire recv
      else wire = [] \<and> recv = [] \<and> body tmp = [])"
| "read_ok cd [Connect_op] begun tmp wire recv \<longleftrightarrow> begun \<and> wire = [] \<and> recv = [] \<and> body tmp = []"
| "read_ok cd [Read_header_op] begun tmp wire recv \<longleftrightarrow> begun \<and>
     (\<exists>ms. frames cd wire ms \<and> recv = deliver [] ms \<and> body tmp = last_body [] ms)"
| "read_ok cd [Read_body_op n] begun tmp wire recv \<longleftrightarrow> begun \<and>
     (\<exists>bs hb ms. wire = bs @ hb \<and> frames cd bs ms \<and> recv = deliver [] ms \<and>
        length hb = hdr_sizeof cd \<and> header tmp = dec_hdr cd hb \<and>
        n = unat (hdr_size (header tmp)) \<and> 0 < n)"
| "read_ok cd _ begun tmp wire recv \<longleftrightarrow> False"

definition read_inv :: "'t codec \<Rightarrow> 't link \<Rightarrow> bool" where
  "read_inv cd w \<longleftrightarrow>
     read_ok cd (filter is_read (pending (lk w))) (started w) (m_msgTemporaryIn (lk w))
       (wire_in w) (received w)"

lemma read_ok_single: "read_ok cd rs begun tmp wire recv \<Longrightarrow> p \<in> set rs \<Longrightarrow> rs = [p] \<and> begun"
  by (induction cd rs begun tmp wire recv rule: read_ok.induct) auto

lemma read_ok_length: "read_ok cd rs begun tmp wire recv \<Longrightarrow> length rs \<le> 1"
  by (induction cd rs begun tmp wire recv rule: read_ok.induct) auto

lemma read_ok_stopped:
  "read_ok cd rs True tmp wire recv \<Longrightarrow> read_ok cd [] True tmp' wire recv"
  by (induction cd rs "True" tmp wire recv rule: read_ok.induct)
    (auto simp: unfinished_def word_gt_0 unat_gt_0 intro: delivered_Nil delivered_all deliveredI)

text \<open>What was delivered always comes from frames of the bytes read.\<close>

lemma read_ok_frames:
  assumes "read_ok cd rs begun tmp wire recv"
  shows "delivered cd wire recv"
proof (cases begun)
  case True
  with assms show ?thesis using read_ok_stopped [of cd rs tmp wire recv tmp] by simp
next
  case False
  with assms have "rs = []" by (cases "(cd, rs, begun, tmp, wire, recv)" rule: read_ok.cases) auto
  with assms False show ?thesis by (auto intro: delivered_Nil)
qed

lemma read_inv_delivered: "read_inv cd w \<Longrightarrow> delivered cd (wire_in w) (received w)"
  unfolding read_inv_def by (rule read_ok_frames)

lemma read_ok_bodyI:
  "frames cd bs ms \<Longrightarrow> recv = deliver [] ms \<Longrightarrow> length hb = hdr_sizeof cd \<Longrightarrow>
   header tmp = dec_hdr cd hb \<Longrightarrow> n = unat (hdr_size (header tmp)) \<Longrightarrow> 0 < n \<Longrightarrow>
   read_ok cd [Read_body_op n] True tmp (bs @ hb) recv"
  by auto

lemma read_header_done_ok:
  assumes none: "filter is_read (pending c) = []"
    and ok: "read_ok cd [Read_header_op] True (m_msgTemporaryIn c) wire recv"
    and ac: "asio_contract cd Read_header_op ec bs"
    and r: "read_header_done cd ec bs c q = (c', q')"
  shows "read_ok cd (filter is_read (pending c')) True (m_msgTemporaryIn c')
    (wire @ bytes_read Read_header_op ec bs) (recv @ map msg (drop (length (deqQueue q)) (deqQueue q')))"
proof (cases "failed ec")
  case True
  with r none show ?thesis
    using read_ok_stopped [OF ok, of "m_msgTemporaryIn c'"] by (auto simp: read_header_done_def)
next
  case False
  then have len: "length bs = hdr_sizeof cd" using ac by simp
  obtain ms where ms: "frames cd wire ms" "recv = deliver [] ms" "body (m_msgTemporaryIn c) = last_body [] ms"
    using ok by auto
  show ?thesis
  proof (cases "hdr_size (dec_hdr cd bs) > 0")
    case True
    with False r have "c' = ReadBody (c\<lparr>m_msgTemporaryIn := (m_msgTemporaryIn c)\<lparr>header := dec_hdr cd bs,
        body := vector_resize (unat (hdr_size (dec_hdr cd bs))) (body (m_msgTemporaryIn c))\<rparr>\<rparr>)" "q' = q"
      by (auto simp: read_header_done_def Let_def)
    then show ?thesis
      using read_ok_bodyI [OF ms(1,2) len, of "m_msgTemporaryIn c'"] none True False
      by (simp add: ReadBody_def unat_gt_0 del: read_ok.simps)
  next
    case empty: False
    then have z: "hdr_size (dec_hdr cd bs) = 0" by (simp add: word_gt_0)
    with False r have e: "c' = ReadHeader (c\<lparr>m_msgTemporaryIn := (m_msgTemporaryIn c)\<lparr>header := dec_hdr cd bs\<rparr>\<rparr>)"
      "map msg (drop (length (deqQueue q)) (deqQueue q')) = [(m_msgTemporaryIn c)\<lparr>header := dec_hdr cd bs\<rparr>]"
      by (auto simp: read_header_done_def AddToIncomingMessageQueue_def Let_def)
    have f: "frames cd (wire @ bs) (ms @ [\<lparr>header = dec_hdr cd bs, body = []\<rparr>])"
      using frames_snoc [OF ms(1) len, of "[]"] z by simp
    have "(m_msgTemporaryIn c)\<lparr>header := h\<rparr> = \<lparr>header = h, body = last_body [] ms\<rparr>" for h
      using ms(3) by simp
    with f False e ms none show ?thesis
      by (auto simp: ReadHeader_def deliver_append
          intro!: exI [of _ "ms @ [\<lparr>header = dec_hdr cd bs, body = []\<rparr>]"])
  qed
qed

lemma read_body_done_ok:
  assumes none: "filter is_read (pending c) = []"
    and ok: "read_ok cd [Read_body_op n] True (m_msgTemporaryIn c) wire recv"
    and ac: "asio_contract cd (Read_body_op n) ec bs"
    and r: "read_body_done ec bs c q = (c', q')"
  shows "read_ok cd (filter is_read (pending c')) True (m_msgTemporaryIn c')
    (wire @ bytes_read (Read_body_op n) ec bs) (recv @ map msg (drop (length (deqQueue q)) (deqQueue q')))"
proof (cases "failed ec")
  case True
  with r none show ?thesis
    using read_ok_stopped [OF ok, of "m_msgTemporaryIn c'"] by (auto simp: read_body_done_def)
next
  case False
  then have len: "length bs = n" using ac by simp
  obtain pre hb ms where d: "wire = pre @ hb" "frames cd pre ms" "recv = deliver [] ms"
    "length hb = hdr_sizeof cd" "header (m_msgTemporaryIn c) = dec_hdr cd hb"
    "n = unat (hdr_size (header (m_msgTemporaryIn c)))" "0 < n"
    using ok by auto
  let ?m = "\<lparr>header = dec_hdr cd hb, body = bs\<rparr>"
  have f: "frames cd (wire @ bs) (ms @ [?m])"
    using frames_snoc [OF d(2,4), of bs] d len by simp
  have tmp: "(m_msgTemporaryIn c)\<lparr>body := bs\<rparr> = ?m"
    using d(5) by (cases "m_msgTemporaryIn c") simp
  have "c' = ReadHeader (c\<lparr>m_msgTemporaryIn := ?m\<rparr>)"
    "map msg (drop (length (deqQueue q)) (deqQueue q')) = [?m]"
    using r False unfolding read_body_done_def tmp by (auto simp: AddToIncomingMessageQueue_def Let_def)
  moreover have "bs \<noteq> []" using len d(7) by auto
  ultimately show ?thesis
    using f False d(3) none
    by (auto simp: ReadHeader_def deliver_append intro!: exI [of _ "ms @ [?m]"])
qed

lemma not_read_frame:
  assumes "run_handler cd p ec bs c q = Inr (c', q')" "\<not> is_read p"
  shows "m_msgTemporaryIn c' = m_msgTemporaryIn c \<and> q' = q \<and>
    filter is_read (pending c') = filter is_read (pending c)"
  using assms
  by (cases p)
    (auto simp: handler_defs WriteHeader_def WriteBody_def Let_def rbind_Inr_iff split: if_splits)

lemma read_inv_completion:
  assumes inv: "read_inv cd w" and p: "p \<in> set (pending (lk w))" and ac: "asio_contract cd p ec bs"
    and r: "complete_op cd p ec bs (lk w) (lk_in w) = Inr r"
  shows "read_inv cd (observe p ec bs w r)"
proof -
  let ?c = "(lk w)\<lparr>pending := remove1 p (pending (lk w))\<rparr>"
  obtain c' q' where r': "r = (c', q')" and h: "run_handler cd p ec bs ?c (lk_in w) = Inr (c', q')"
    using r by (cases r) (simp add: complete_op_def)
  show ?thesis
  proof (cases "is_read p")
    case False
    with not_read_frame [OF h False] inv have
      "read_ok cd (filter is_read (pending c')) (started w) (m_msgTemporaryIn c') (wire_in w) (received w)"
      "q' = lk_in w"
      by (simp_all add: read_inv_def filter_remove1_eq)
    moreover have "bytes_read p ec bs = []" using False by (cases p) auto
    ultimately show ?thesis by (simp add: r' read_inv_def observe_def)
  next
    case True
    have ok: "read_ok cd (filter is_read (pending (lk w))) (started w) (m_msgTemporaryIn (lk w))
        (wire_in w) (received w)"
      using inv by (simp add: read_inv_def)
    have rs: "filter is_read (pending (lk w)) = [p]" and st: "started w"
      using read_ok_single [OF ok, of p] p True by simp_all
    then have none: "filter is_read (pending ?c) = []" using True by (simp add: filter_remove1_eq)
    note ok' = ok [unfolded rs]
    show ?thesis
    proof (cases p)
      case Read_header_op
      with h have "read_header_done cd ec bs ?c (lk_in w) = (c', q')" by simp
      from read_header_done_ok [OF none _ _ this, of "wire_in w" "received w"] ok' ac Read_header_op st
      show ?thesis by (simp add: r' read_inv_def observe_def)
    next
      case (Read_body_op n)
      with h have "read_body_done ec bs ?c (lk_in w) = (c', q')" by simp
      from read_body_done_ok [OF none _ _ this, where wire = "wire_in w" and recv = "received w" and n = n
          and cd = cd] ok' ac Read_body_op st
      show ?thesis by (simp add: r' read_inv_def observe_def del: asio_contract.simps)
    next
      case Connect_op
      with h ok' none st show ?thesis
        by (auto simp: r' read_inv_def observe_def connect_done_def ReadHeader_def
            intro: frames_Nil delivered_Nil intro!: exI [of _ "[]"])
    qed (use True in simp_all)
  qed
qed

lemma read_inv_calls:
  assumes "read_inv cd w"
  shows "\<not> started w \<Longrightarrow> read_inv cd (w\<lparr>lk := ConnectToClient uid (lk w), started := True\<rparr>)"
    "\<not> started w \<Longrightarrow> read_inv cd (w\<lparr>lk := ConnectToServer (lk w), started := True\<rparr>)"
    "read_inv cd (w\<lparr>lk := Send m (lk w)\<rparr>)" "read_inv cd (w\<lparr>lk := Disconnect (lk w)\<rparr>)"
    "read_inv cd (w\<lparr>lk := (lk w)\<lparr>sock_open := b\<rparr>\<rparr>)" "read_inv cd (w\<lparr>lk_in := q\<rparr>)"
proof -
  have idle: "filter is_read (pending (lk w)) = []" if "\<not> started w"
  proof (rule ccontr)
    assume "filter is_read (pending (lk w)) \<noteq> []"
    then obtain p where "p \<in> set (filter is_read (pending (lk w)))" by (meson last_in_set)
    with read_ok_single assms that show False by (metis read_inv_def)
  qed
  show "\<not> started w \<Longrightarrow> read_inv cd (w\<lparr>lk := ConnectToClient uid (lk w), started := True\<rparr>)"
    using assms idle
    by (auto simp: read_inv_def ConnectToClient_def ReadHeader_def
        intro: frames_Nil delivered_Nil intro!: exI [of _ "[]"])
  show "\<not> started w \<Longrightarrow> read_inv cd (w\<lparr>lk := ConnectToServer (lk w), started := True\<rparr>)"
    using assms idle by (auto simp: read_inv_def ConnectToServer_def intro: delivered_Nil)
qed (use assms in \<open>simp_all add: read_inv_def Send_def Disconnect_def\<close>)

definition read_side :: "'t codec \<Rightarrow> fault + 't link \<Rightarrow> bool" where
  "read_side cd r \<longleftrightarrow> (\<forall>w. r = Inr w \<longrightarrow> read_inv cd w)"

lemma read_side_step:
  assumes "read_side cd r" "link_step cd r r'"
  shows "read_side cd r'"
  using assms(2)
proof cases
  case (completion p w ec bs)
  with assms(1) have inv: "read_inv cd w" by (simp add: read_side_def)
  show ?thesis
    using read_inv_completion [OF inv completion(3,4)] completion(2)
    by (auto simp: read_side_def rbind_Inr_iff)
qed (use assms(1) in \<open>auto simp: read_side_def intro: read_inv_calls\<close>)

lemma read_side_init: "link_init r \<Longrightarrow> read_side cd r"
  by (auto simp: link_init_def read_side_def read_inv_def new_connection_def)

interpretation read_side: invariant_system link_init "link_step cd" "read_side cd" for cd
  by unfold_locales (auto intro: read_side_init read_side_step)

lemma link_reachable_inv:
  assumes "link_reachable cd r"
  shows "write_side cd r" "read_side cd r"
  using assms write_side.inv_reachable [of _ cd r] read_side.inv_reachable [of _ cd r]
  unfolding link_reachable_def by blast+

lemma link_reachableE:
  assumes "link_reachable cd r"
  obtains w where "r = Inr w" "write_inv cd w" "read_inv cd w"
  using link_reachable_inv [OF assms] by (auto simp: write_side_def read_side_def)

lemma link_reachable_step: "link_reachable cd r \<Longrightarrow> link_step cd r r' \<Longrightarrow> link_reachable cd r'"
  unfolding link_reachable_def by (blast intro: rtranclp.rtrancl_into_rtrancl)

section \<open>Concrete executions\<close>

text \<open>A schedule of calls and completions, run by computation; every run is an execution.\<close>

datatype 't link_event =
    Ev_begin u32
  | Ev_send "'t message"
  | Ev_disconnect
  | Ev_complete "'t op" error_code "byte list"

fun link_exec :: "'t codec \<Rightarrow> 't link_event \<Rightarrow> 't link \<Rightarrow> (fault + 't link) option" where
  "link_exec cd (Ev_begin uid) w =
     (if started w then None
      else Some (Inr (w\<lparr>lk := (if m_nOwnerType (lk w) = Owner_server then ConnectToClient uid (lk w)
                              else ConnectToServer (lk w)), started := True\<rparr>)))"
| "link_exec cd (Ev_send m) w = Some (Inr (w\<lparr>lk := Send m (lk w)\<rparr>))"
| "link_exec cd Ev_disconnect w = Some (Inr (w\<lparr>lk := Disconnect (lk w)\<rparr>))"
| "link_exec cd (Ev_complete p ec bs) w =
     (if p \<in> set (pending (lk w)) \<and> asio_contract cd p ec bs
      then Some (rbind (complete_op cd p ec bs (lk w) (lk_in w)) (\<lambda>r. Inr (observe p ec bs w r)))
      else None)"

fun link_run :: "'t codec \<Rightarrow> 't link_event list \<Rightarrow> fault + 't link \<Rightarrow> (fault + 't link) option" where
  "link_run cd [] r = Some r"
| "link_run cd (e # es) (Inl f) = None"
| "link_run cd (e # es) (Inr w) =
     (case link_exec cd e w of None \<Rightarrow> None | Some r \<Rightarrow> link_run cd es r)"

lemma link_exec_step: "link_exec cd e w = Some r \<Longrightarrow> link_step cd (Inr w) r"
  by (cases e; cases "m_nOwnerType (lk w)") (auto split: if_splits intro: link_step.intros)

lemma link_run_reachable:
  "link_run cd es r = Some r' \<Longrightarrow> link_reachable cd r \<Longrightarrow> link_reachable cd r'"
proof (induction cd es r rule: link_run.induct)
  case (3 cd e es w)
  from "3.prems"(1) obtain v where v: "link_exec cd e w = Some v" "link_run cd es v = Some r'"
    by (auto split: option.splits)
  with "3.IH" [OF v] link_reachable_step [OF "3.prems"(2) link_exec_step [OF v(1)]] show ?case by blast
qed simp_all

definition link_start :: "nat \<Rightarrow> owner \<Rightarrow> bool \<Rightarrow> 't \<Rightarrow> 't link" where
  "link_start a ow is_open z = \<lparr>lk = new_connection a ow is_open z, lk_in = new_tsqueue,
     started = False, accepted = [], wire_out = [], wire_in = [], received = []\<rparr>"

definition link_end :: "'t codec \<Rightarrow> 't link_event list \<Rightarrow> 't link \<Rightarrow> 't link" where
  "link_end cd es w = (case link_run cd es (Inr w) of Some (Inr v) \<Rightarrow> v | _ \<Rightarrow> w)"

lemma link_start_reachable: "link_reachable cd (Inr (link_start a ow is_open z))"
  unfolding link_reachable_def link_init_def link_start_def by blast

lemma link_end_reachable: "link_reachable cd (Inr (link_end cd es (link_start a ow is_open z)))"
  using link_run_reachable [OF _ link_start_reachable, of cd es a ow is_open z]
  by (auto simp: link_end_def link_start_reachable split: option.split sum.split)

text \<open>
  A client sends a message with a four-byte body and then one without a body; the server's
  connection reads those bytes.
\<close>

definition ping_msg :: "u32 message" where
  "ping_msg = push_data (new_message 2) [1, 2, 3, 4]"

definition bare_msg :: "u32 message" where
  "bare_msg = new_message 3"

definition refused :: error_code where
  "refused = \<lparr>ec_value = 111, ec_category = 0\<rparr>"

definition writer_run :: "u32 link_event list" where
  "writer_run =
     [Ev_begin 0, Ev_send ping_msg, Ev_send bare_msg,
      Ev_complete (Send_task ping_msg) no_error [],
      Ev_complete (Send_task bare_msg) no_error [],
      Ev_complete (Write_header_op (header ping_msg)) no_error (enc_hdr custom_codec (header ping_msg)),
      Ev_complete (Write_body_op (body ping_msg)) no_error (body ping_msg),
      Ev_complete (Write_header_op (header bare_msg)) no_error (enc_hdr custom_codec (header bare_msg))]"

definition reader_run :: "u32 link_event list" where
  "reader_run =
     [Ev_begin 10000,
      Ev_complete Read_header_op no_error (enc_hdr custom_codec (header ping_msg)),
      Ev_complete (Read_body_op 4) no_error (body ping_msg),
      Ev_complete Read_header_op no_error (enc_hdr custom_codec (header bare_msg))]"

definition writing_run :: "u32 link_event list" where
  "writing_run =
     [Ev_begin 0, Ev_send ping_msg, Ev_complete (Send_task ping_msg) no_error []]"

lemma run_defs:
  "ping_msg = \<lparr>header = \<lparr>hdr_id = 2, hdr_size = 4\<rparr>, body = [1, 2, 3, 4]\<rparr>"
  "bare_msg = \<lparr>header = \<lparr>hdr_id = 3, hdr_size = 0\<rparr>, body = []\<rparr>"
  by (simp_all add: ping_msg_def bare_msg_def push_data_def new_message_def msg_size_def
      memcpy_into_def vector_resize_def ucast_size_t)

definition writer_end :: "u32 link" where
  "writer_end = link_end custom_codec writer_run (link_start 0 Owner_client True 0)"

definition reader_end :: "u32 link" where
  "reader_end = link_end custom_codec reader_run (link_start 5 Owner_server True 0)"

definition writing_end :: "u32 link" where
  "writing_end = link_end custom_codec writing_run (link_start 0 Owner_client True 0)"

lemma ping_simps [simp]:
  "header ping_msg = \<lparr>hdr_id = 2, hdr_size = 4\<rparr>" "body ping_msg = [1, 2, 3, 4]"
  "header bare_msg = \<lparr>hdr_id = 3, hdr_size = 0\<rparr>" "body bare_msg = []"
  by (simp_all add: run_defs)

lemma hdr_bytes:
  "enc_hdr custom_codec \<lparr>hdr_id = 2, hdr_size = 4\<rparr> = [2, 0, 0, 0, 4, 0, 0, 0]"
  "enc_hdr custom_codec \<lparr>hdr_id = 3, hdr_size = 0\<rparr> = [3, 0, 0, 0, 0, 0, 0, 0]"
  by (simp_all add: custom_codec_def u32_bytes_def drop_bit_eq_div)

lemma hdr_of_bytes:
  "dec_hdr custom_codec [2, 0, 0, 0, 4, 0, 0, 0] = \<lparr>hdr_id = 2, hdr_size = 4\<rparr>"
  "dec_hdr custom_codec [3, 0, 0, 0, 0, 0, 0, 0] = \<lparr>hdr_id = 3, hdr_size = 0\<rparr>"
  "hdr_sizeof custom_codec = 8"
  using custom.dec_enc [of "\<lparr>hdr_id = 2, hdr_size = 4\<rparr>"] custom.dec_enc [of "\<lparr>hdr_id = 3, hdr_size = 0\<rparr>"]
  by (simp_all add: hdr_bytes) (simp add: custom_codec_def)

lemmas run_simps =
  link_end_def link_start_def new_connection_def complete_op_def connection_defs handler_defs
  observe_def tsqueue_defs no_error_def failed_def new_message_def vector_resize_def
  hdr_bytes hdr_of_bytes

lemma writer_end_facts:
  "accepted writer_end = [ping_msg, bare_msg]"
  "wire_out writer_end = [2, 0, 0, 0, 4, 0, 0, 0, 1, 2, 3, 4, 3, 0, 0, 0, 0, 0, 0, 0]"
  "deqQueue (m_qMessagesOut (lk writer_end)) = []"
  by (simp_all add: writer_end_def writer_run_def run_simps)

lemma reader_end_facts:
  "wire_in reader_end = [2, 0, 0, 0, 4, 0, 0, 0, 1, 2, 3, 4, 3, 0, 0, 0, 0, 0, 0, 0]"
  "received reader_end = [ping_msg, bare_msg\<lparr>body := [1, 2, 3, 4]\<rparr>]"
  "pending (lk reader_end) = [Read_header_op]"
  by (simp_all add: reader_end_def reader_run_def run_simps Let_def)

lemma writing_end_facts:
  "pending (lk writing_end) = [Connect_op, Write_header_op \<lparr>hdr_id = 2, hdr_size = 4\<rparr>]"
  "deqQueue (m_qMessagesOut (lk writing_end)) = [ping_msg]"
  "wire_out writing_end = []" "accepted writing_end = [ping_msg]"
  by (simp_all add: writing_end_def writing_run_def run_simps)

lemma ends_reachable:
  "link_reachable custom_codec (Inr writer_end)" "link_reachable custom_codec (Inr reader_end)"
  "link_reachable custom_codec (Inr writing_end)"
  unfolding writer_end_def reader_end_def writing_end_def by (rule link_end_reachable)+

section \<open>A failed write\<close>

text \<open>
  After a write failed its message stays at the front of the queue, so every later \<open>Send\<close> finds
  the queue not empty and leaves the writing to a handler that never comes.
\<close>

definition stalled :: "byte list \<Rightarrow> fault + 't link \<Rightarrow> bool" where
  "stalled wire r \<longleftrightarrow> (\<exists>w. r = Inr w \<and> filter is_write (pending (lk w)) = [] \<and>
     deqQueue (m_qMessagesOut (lk w)) \<noteq> [] \<and> wire_out w = wire)"

lemma stalled_completion:
  assumes "filter is_write (pending (lk w)) = []" "deqQueue (m_qMessagesOut (lk w)) \<noteq> []"
    "p \<in> set (pending (lk w))"
  shows "stalled (wire_out w)
    (rbind (complete_op cd p ec bs (lk w) (lk_in w)) (\<lambda>r. Inr (observe p ec bs w r)))"
proof -
  let ?c = "(lk w)\<lparr>pending := remove1 p (pending (lk w))\<rparr>"
  have nw: "\<not> is_write p" using assms(1,3) by (auto simp: filter_empty_conv)
  then have bw: "bytes_written p bs = []" by (cases p) auto
  have none: "filter is_write (pending ?c) = []" using assms(1) nw by (simp add: filter_remove1_eq)
  show ?thesis
  proof (cases "\<exists>m. p = Send_task m")
    case True
    with assms(2) none show ?thesis
      by (auto simp: stalled_def complete_op_def send_task_def observe_def Let_def)
  next
    case False
    then have t: "taken_over p = []" by (cases p) auto
    obtain c' q' where r: "run_handler cd p ec bs ?c (lk_in w) = Inr (c', q')"
      using not_write_total [OF nw t, of cd ec bs ?c "lk_in w"] by auto
    from not_write_frame [OF r nw t] r none assms(2) bw show ?thesis
      by (simp add: stalled_def complete_op_def observe_def)
  qed
qed

lemma stalled_step:
  assumes "stalled wire r" "link_step cd r r'"
  shows "stalled wire r'"
  using assms(2)
proof cases
  case (completion p w ec bs)
  with stalled_completion [of w p cd ec bs] assms(1) show ?thesis by (auto simp: stalled_def)
qed (use assms(1) in \<open>auto simp: stalled_def ConnectToClient_def ConnectToServer_def Send_def
        Disconnect_def ReadHeader_def\<close>)

interpretation stalled: invariant_system "stalled wire" "link_step cd" "stalled wire" for wire cd
  by unfold_locales (auto intro: stalled_step)

lemma failed_write_stalls:
  assumes inv: "write_inv cd w" and p: "p \<in> set (pending (lk w))" "is_write p" and ec: "failed ec"
  shows "stalled (wire_out w @ bs)
    (rbind (complete_op cd p ec bs (lk w) (lk_in w)) (\<lambda>r. Inr (observe p ec bs w r)))"
proof -
  obtain sent where ok: "write_ok cd (filter is_write (pending (lk w)))
      (deqQueue (m_qMessagesOut (lk w))) sent (wire_out w)"
    using inv by (auto simp: write_inv_def)
  have ws: "filter is_write (pending (lk w)) = [p]" using p by (intro write_ok_single [OF ok]) simp
  with ok p(2) have ne: "deqQueue (m_qMessagesOut (lk w)) \<noteq> []" by (cases p) auto
  have "filter is_write (remove1 p (pending (lk w))) = []" using ws p(2) by (simp add: filter_remove1_eq)
  with ne ec p(2) show ?thesis
    by (cases p) (auto simp: stalled_def complete_op_def write_header_done_def write_body_done_def observe_def)
qed

section \<open>Two connections\<close>

context wire_codec
begin

lemma received_from:
  assumes "write_inv cd w" "read_inv cd v" "prefix (wire_in v) (wire_out w)"
    and "\<And>m. m \<in> set (accepted w) \<Longrightarrow> wire_ok m"
  shows "prefix (received v) (deliver [] (accepted w))"
proof -
  have out: "prefix (wire_out w) (ser cd (accepted w))"
    using assms(1) by (auto simp: write_inv_def dest: write_ok_prefix)
  obtain bs ms where fr: "frames cd bs ms" "prefix bs (wire_in v)" "received v = deliver [] ms"
    using read_inv_delivered [OF assms(2)] by (auto simp: delivered_def)
  have "prefix bs (ser cd (accepted w))"
    using fr(2) assms(3) out prefix_order.trans by blast
  from frames_prefix_ser [OF fr(1) this assms(4)] fr(3) show ?thesis by (simp add: deliver_prefix)
qed

lemma received_all:
  assumes "read_inv cd v" "wire_in v = ser cd sent" "Read_header_op \<in> set (pending (lk v))"
    and "\<And>m. m \<in> set sent \<Longrightarrow> wire_ok m"
  shows "received v = deliver [] sent"
proof -
  have ok: "read_ok cd (filter is_read (pending (lk v))) (started v) (m_msgTemporaryIn (lk v))
      (wire_in v) (received v)"
    using assms(1) by (simp add: read_inv_def)
  then have "filter is_read (pending (lk v)) = [Read_header_op]"
    using assms(3) read_ok_single [OF ok, of Read_header_op] by simp
  with ok obtain ms where ms: "frames cd (wire_in v) ms" "received v = deliver [] ms" by auto
  from frames_unique [OF ms(1)] frames_ser [of sent] assms(2,4) ms(2) show ?thesis by auto
qed

end

section \<open>One connection among others\<close>

text \<open>A connection whose write side is in one of the states of \<open>Connection_Protocol\<close>.\<close>

definition conn_ok :: "'t codec \<Rightarrow> 't connection \<Rightarrow> bool" where
  "conn_ok cd c \<longleftrightarrow> (\<exists>w. lk w = c \<and> write_inv cd w)"

lemma conn_okI: "write_inv cd w \<Longrightarrow> conn_ok cd (lk w)"
  by (auto simp: conn_ok_def)

lemma conn_ok_new: "conn_ok cd (new_connection r ow is_open z)"
proof -
  have "write_inv cd (link_start r ow is_open z)"
    by (simp add: write_inv_def link_start_def new_connection_def)
  from conn_okI [OF this] show ?thesis by (simp add: link_start_def)
qed

lemma conn_ok_begin:
  assumes "conn_ok cd c"
  shows "conn_ok cd (ConnectToClient uid c)"
proof -
  obtain w where w: "lk w = c" "write_inv cd w" using assms by (auto simp: conn_ok_def)
  from conn_okI [OF write_inv_calls(1) [OF w(2), of uid]] show ?thesis by (simp add: w(1))
qed

lemma conn_ok_complete:
  assumes "conn_ok cd c" "p \<in> set (pending c)" "asio_contract cd p ec bs"
  shows "\<exists>c' q'. complete_op cd p ec bs c q = Inr (c', q') \<and> conn_ok cd c'"
proof -
  obtain w where w: "lk w = c" "write_inv cd w" using assms(1) by (auto simp: conn_ok_def)
  have "write_inv cd (w\<lparr>lk_in := q\<rparr>)" using w(2) by (rule write_inv_calls)
  from write_inv_completion [OF this, of p ec bs] w(1) assms(2,3) obtain r where
    r: "complete_op cd p ec bs c q = Inr r" "write_inv cd (observe p ec bs (w\<lparr>lk_in := q\<rparr>) r)" by auto
  from conn_okI [OF r(2)] r(1) show ?thesis by (cases r) (simp add: observe_def)
qed

lemma conn_ok_connect:
  assumes "conn_ok cd c"
  shows "conn_ok cd (ConnectToServer c)" "conn_ok cd (Send m c)" "conn_ok cd (Disconnect c)"
    "conn_ok cd (c\<lparr>sock_open := b\<rparr>)"
proof -
  obtain w where w: "lk w = c" "write_inv cd w" using assms by (auto simp: conn_ok_def)
  from conn_okI [OF write_inv_calls(2) [OF w(2)]] show "conn_ok cd (ConnectToServer c)" by (simp add: w(1))
  from conn_okI [OF write_inv_calls(3) [OF w(2), of m]] show "conn_ok cd (Send m c)" by (simp add: w(1))
  from conn_okI [OF write_inv_calls(4) [OF w(2)]] show "conn_ok cd (Disconnect c)" by (simp add: w(1))
  from conn_okI [OF write_inv_calls(5) [OF w(2), of b]] show "conn_ok cd (c\<lparr>sock_open := b\<rparr>)" by (simp add: w(1))
qed

section \<open>Properties\<close>

text \<open>
  C12: On every execution of a connection, with any order and any outcome of the asynchronous
  operations, no handler faults, at most one write and one read are in flight, and the bytes given
  to the socket are a first part of the serialization of the messages accepted by \<open>Send\<close>, in order.
\<close>

theorem connection_wire_prefix:
  assumes "link_reachable cd r"
  shows "\<exists>w. r = Inr w \<and> prefix (wire_out w) (ser cd (accepted w)) \<and>
    length (filter is_write (pending (lk w))) \<le> 1 \<and> length (filter is_read (pending (lk w))) \<le> 1"
proof -
  obtain w where w: "r = Inr w" "write_inv cd w" "read_inv cd w" by (rule link_reachableE [OF assms])
  obtain sent where "accepted w = sent @ deqQueue (m_qMessagesOut (lk w))" and
    ok: "write_ok cd (filter is_write (pending (lk w))) (deqQueue (m_qMessagesOut (lk w))) sent (wire_out w)"
    using w(2) by (auto simp: write_inv_def)
  then have "prefix (wire_out w) (ser cd (accepted w))" using write_ok_prefix [OF ok] by simp
  moreover have "length (filter is_write (pending (lk w))) \<le> 1"
    using ok by (rule write_ok_length)
  moreover have "length (filter is_read (pending (lk w))) \<le> 1"
    using w(3) unfolding read_inv_def by (rule read_ok_length)
  ultimately show ?thesis using w(1) by blast
qed

theorem connection_wire_prefix_witness:
  "\<exists>w. Inr writer_end = (Inr w :: fault + u32 link) \<and>
    prefix (wire_out w) (ser custom_codec (accepted w)) \<and>
    length (filter is_write (pending (lk w))) \<le> 1 \<and> length (filter is_read (pending (lk w))) \<le> 1"
  by (rule connection_wire_prefix [OF ends_reachable(1)])

text \<open>
  Once the outgoing queue is empty every accepted message has been written, whole and in order;
  as long as it is not, the write in flight, if there is one, refers to the buffer of the message at
  the front of the queue, which stays there until the operation completes.
\<close>

theorem connection_drained:
  assumes "link_reachable cd (Inr w)"
  shows "case deqQueue (m_qMessagesOut (lk w)) of
      [] \<Rightarrow> wire_out w = ser cd (accepted w) \<and> filter is_write (pending (lk w)) = []
    | m # _ \<Rightarrow> set (filter is_write (pending (lk w)))
        \<subseteq> {Write_header_op (header m), Write_body_op (body m)}"
proof -
  have "write_inv cd w" using link_reachableE [OF assms] by blast
  then obtain sent where "accepted w = sent @ deqQueue (m_qMessagesOut (lk w))"
    "write_ok cd (filter is_write (pending (lk w))) (deqQueue (m_qMessagesOut (lk w))) sent (wire_out w)"
    by (auto simp: write_inv_def)
  then show ?thesis
    by (cases "(cd, filter is_write (pending (lk w)), deqQueue (m_qMessagesOut (lk w)), sent, wire_out w)"
        rule: write_ok.cases) (auto split: list.split if_splits)
qed

theorem connection_drained_witness:
  "wire_out writer_end = ser custom_codec (accepted writer_end) \<and>
   filter is_write (pending (lk writer_end)) = []"
  using connection_drained [OF ends_reachable(1)] by (simp add: writer_end_facts)

text \<open>
  C17: A connection hands its parent all the messages it has read: the bytes its successful reads gave
  are the frames of these messages, cut by the size fields, in order and each once, with nothing behind
  them but at most one header whose body is yet to be read. The messages handed over differ from the
  frames only in the bodies of messages of size 0 (\<open>deliver\<close>).
\<close>

theorem connection_received_frames:
  assumes "link_reachable cd (Inr w)"
  shows "\<exists>bs part ms. wire_in w = bs @ part \<and> frames cd bs ms \<and> received w = deliver [] ms \<and>
    (part = [] \<or> length part = hdr_sizeof cd \<and> 0 < hdr_size (dec_hdr cd part))"
proof -
  have "read_inv cd w" using link_reachableE [OF assms] by blast
  then have "delivered cd (wire_in w) (received w)" by (rule read_inv_delivered)
  then show ?thesis unfolding delivered_def unfinished_def by blast
qed

theorem connection_received_frames_witness:
  "\<exists>bs part ms. wire_in reader_end = bs @ part \<and> frames custom_codec bs ms \<and>
    received reader_end = deliver [] ms \<and>
    (part = [] \<or> length part = hdr_sizeof custom_codec \<and> 0 < hdr_size (dec_hdr custom_codec part))"
  by (rule connection_received_frames [OF ends_reachable(2)])

text \<open>
  C35: After a write has failed the connection never writes again, whatever is sent and whatever
  completes: the messages accepted later are queued and lost.
\<close>

theorem connection_write_failure_final:
  assumes "link_reachable cd (Inr w)" "p \<in> set (pending (lk w))" "is_write p" "failed ec"
    and "(link_step cd)\<^sup>*\<^sup>*
      (rbind (complete_op cd p ec bs (lk w) (lk_in w)) (\<lambda>r. Inr (observe p ec bs w r))) r'"
  shows "\<exists>v. r' = Inr v \<and> wire_out v = wire_out w @ bs \<and> deqQueue (m_qMessagesOut (lk v)) \<noteq> []"
proof -
  have "write_inv cd w" using link_reachableE [OF assms(1)] by blast
  from stalled.inv_reachable [OF failed_write_stalls [OF this assms(2-4)] assms(5)]
  show ?thesis by (auto simp: stalled_def)
qed

theorem connection_write_failure_final_witness:
  "\<exists>v. rbind (complete_op custom_codec (Write_header_op \<lparr>hdr_id = 2, hdr_size = 4\<rparr>) refused [2, 0]
        (lk writing_end) (lk_in writing_end))
      (\<lambda>r. Inr (observe (Write_header_op \<lparr>hdr_id = 2, hdr_size = 4\<rparr>) refused [2, 0] writing_end r)) = Inr v \<and>
     wire_out v = [] @ [2, 0] \<and> deqQueue (m_qMessagesOut (lk v)) \<noteq> []"
  using connection_write_failure_final [OF ends_reachable(3), of "Write_header_op \<lparr>hdr_id = 2, hdr_size = 4\<rparr>"
      refused, OF _ _ _ rtranclp.rtrancl_refl]
  by (simp only: writing_end_facts) (simp add: refused_def failed_def)

text \<open>
  C1: Between two connections of the example programs, if the bytes one has read are a first part of
  those the other has written, and no message exceeds what its size field says, the receiver's
  parent is handed a first part of the messages the sender accepted: in order, none lost, repeated
  or split. Messages of size 0 come with a stale body.
\<close>

theorem connections_end_to_end:
  assumes "link_reachable custom_codec (Inr w)" "link_reachable custom_codec (Inr v)"
    and "prefix (wire_in v) (wire_out w)" "list_all wire_ok (accepted w)"
  shows "prefix (received v) (deliver [] (accepted w)) \<and>
    prefix (map header (received v)) (map header (accepted w)) \<and>
    ([] \<notin> set (map body (accepted w)) \<longrightarrow> prefix (received v) (accepted w))"
proof -
  have "write_inv custom_codec w" "read_inv custom_codec v"
    using link_reachableE [OF assms(1)] link_reachableE [OF assms(2)] by blast+
  then have p: "prefix (received v) (deliver [] (accepted w))"
    using custom.received_from [of w v] assms(3,4) by (simp add: list_all_iff)
  moreover have "prefix (map header (received v)) (map header (accepted w))"
    using map_mono_prefix [OF p, of header] by simp
  moreover have "[] \<notin> set (map body (accepted w)) \<longrightarrow> deliver [] (accepted w) = accepted w"
    by (force intro: deliver_bodies)
  ultimately show ?thesis by auto
qed

theorem connections_end_to_end_witness:
  "prefix (received reader_end) (deliver [] [ping_msg, bare_msg]) \<and>
   prefix (map header (received reader_end)) [header ping_msg, header bare_msg]"
proof -
  have "prefix (wire_in reader_end) (wire_out writer_end)" "list_all wire_ok (accepted writer_end)"
    by (simp_all add: writer_end_facts reader_end_facts wire_ok_def)
  from connections_end_to_end [OF ends_reachable(1,2) this] show ?thesis
    unfolding writer_end_facts by simp
qed

text \<open>
  When the sender's queue is empty, all its bytes have arrived and the receiver is back at
  reading a header, every accepted message has been delivered.
\<close>

theorem connections_deliver_all:
  assumes "link_reachable custom_codec (Inr w)" "link_reachable custom_codec (Inr v)"
    and "deqQueue (m_qMessagesOut (lk w)) = []" "wire_in v = wire_out w"
    and "Read_header_op \<in> set (pending (lk v))" "list_all wire_ok (accepted w)"
  shows "received v = deliver [] (accepted w)"
proof -
  have w: "write_inv custom_codec w" and v: "read_inv custom_codec v"
    using link_reachableE [OF assms(1)] link_reachableE [OF assms(2)] by blast+
  then have "wire_out w = ser custom_codec (accepted w)"
    using assms(3) by (auto simp: write_inv_def drained_wire)
  with custom.received_all [OF v _ assms(5)] assms(4,6) show ?thesis by (simp add: list_all_iff)
qed

theorem connections_deliver_all_witness:
  "received reader_end = deliver [] (accepted writer_end)"
  by (rule connections_deliver_all [OF ends_reachable(1,2)])
    (simp_all add: writer_end_facts reader_end_facts wire_ok_def)

text \<open>
  A message without a body is delivered with the body of the message before it: the receiver of
  a four-byte ping followed by an empty message is handed a second message whose size field is 0
  and whose body has four bytes.
\<close>

theorem connection_stale_body:
  "link_reachable custom_codec (Inr reader_end) \<and>
   wire_in reader_end = ser custom_codec [ping_msg, bare_msg] \<and>
   received reader_end = [ping_msg, bare_msg\<lparr>body := [1, 2, 3, 4]\<rparr>] \<and>
   hdr_size (header bare_msg) = 0"
  by (simp add: reader_end_facts ends_reachable ser1_def hdr_bytes)

end
