(* ===== verification/Net_Client.thy ===== *)
theory Net_Client
  imports Connection_Protocol
begin

text \<open>
  The client (\<open>src/one_lone_coder/net_client.h\<close>): its one connection, its queue, and the
  \<open>io_context\<close> with its thread. The calls are the main thread's; completions of the connection's
  operations happen while the context runs. Lemmas: what the calls do, and that the context,
  once stopped by \<open>Disconnect\<close>, completes nothing any more.
\<close>

section \<open>State\<close>

record 't client =
  m_connection :: "'t connection option"     \<comment> \<open>the \<open>unique_ptr\<close>\<close>
  released :: "'t connection list"           \<comment> \<open>objects given up by \<open>release\<close>, never deleted\<close>
  cl_qMessagesIn :: "'t owned_message tsqueue"
  context_stopped :: bool                    \<comment> \<open>\<open>m_context.stopped()\<close>\<close>
  thrContext :: bool                         \<comment> \<open>\<open>thrContext.joinable()\<close>\<close>
  cl_log :: "string list"

definition new_client :: "'t client" where
  "new_client = \<lparr>m_connection = None, released = [], cl_qMessagesIn = new_tsqueue,
     context_stopped = False, thrContext = False, cl_log = []\<rparr>"

definition cl_say :: "string \<Rightarrow> 't client \<Rightarrow> 't client" where
  "cl_say line c = c\<lparr>cl_log := cl_log c @ [line]\<rparr>"

section \<open>Operations\<close>

definition cl_IsConnected :: "'t client \<Rightarrow> bool" where
  "cl_IsConnected c = (case m_connection c of Some k \<Rightarrow> IsConnected k | None \<Rightarrow> False)"

text \<open>
  \<open>Connect\<close>; \<open>resolve_error\<close> and \<open>thread_error\<close> are the texts of the exceptions of \<open>resolve\<close> and of
  \<open>std::thread\<close>'s constructor, if they throw. The new connection's socket is not open yet.
  Assigning to a thread that is still joinable ends the process.
\<close>

definition Connect :: "'t \<Rightarrow> string option \<Rightarrow> string option \<Rightarrow> 't client \<Rightarrow> fault + bool \<times> 't client" where
  "Connect z resolve_error thread_error c =
     (case resolve_error of
        Some what \<Rightarrow> Inr (False, cl_say (''Client Exception: '' @ what) c)
      | None \<Rightarrow>
          let c1 = c\<lparr>m_connection := Some (new_connection 0 Owner_client False z)\<rparr>;
              c2 = c1\<lparr>m_connection := map_option ConnectToServer (m_connection c1)\<rparr>
          in case thread_error of
               Some what \<Rightarrow> Inr (False, cl_say (''Client Exception: '' @ what) c2)
             | None \<Rightarrow> if thrContext c2 then Inl Terminate
                       else Inr (True, c2\<lparr>thrContext := True\<rparr>))"

text \<open>
  \<open>Disconnect\<close>, which the destructor calls too; \<open>asio_thread\<close> is what the context's thread does
  between the posting of the close and the stop.
\<close>

definition cl_Disconnect :: "('t client \<Rightarrow> 't client) \<Rightarrow> 't client \<Rightarrow> 't client" where
  "cl_Disconnect asio_thread c =
     (let c1 = (if cl_IsConnected c
                then c\<lparr>m_connection := map_option Disconnect (m_connection c)\<rparr> else c);
          c2 = (asio_thread c1)\<lparr>context_stopped := True\<rparr>;
          c3 = (if thrContext c2 then c2\<lparr>thrContext := False\<rparr> else c2)
      in c3\<lparr>released := released c3 @ (case m_connection c3 of Some k \<Rightarrow> [k] | None \<Rightarrow> []),
            m_connection := None\<rparr>)"

definition cl_Send :: "'t message \<Rightarrow> 't client \<Rightarrow> 't client" where
  "cl_Send m c =
     (if cl_IsConnected c then c\<lparr>m_connection := map_option (Send m) (m_connection c)\<rparr> else c)"

definition Incoming :: "'t client \<Rightarrow> 't owned_message tsqueue" where
  "Incoming c = cl_qMessagesIn c"

text \<open>A completion, while the context runs; and asio opening the socket while it connects.\<close>

definition cl_running :: "'t client \<Rightarrow> bool" where
  "cl_running c \<longleftrightarrow> thrContext c \<and> \<not> context_stopped c"

definition cl_event :: "'t codec \<Rightarrow> 't op \<Rightarrow> error_code \<Rightarrow> byte list \<Rightarrow> 't connection \<Rightarrow> 't client \<Rightarrow> fault + 't client" where
  "cl_event cd p ec bs k c =
     rbind (complete_op cd p ec bs k (cl_qMessagesIn c)) (\<lambda>(k', q).
       Inr (c\<lparr>m_connection := Some k', cl_qMessagesIn := q\<rparr>))"

inductive client_step :: "'t codec \<Rightarrow> 't \<Rightarrow> fault + 't client \<Rightarrow> fault + 't client \<Rightarrow> bool" for cd z where
  connect: "client_step cd z (Inr c) (rbind (Connect z re te c) (\<lambda>(ok, c'). Inr c'))"
| disconnect: "client_step cd z (Inr c) (Inr (cl_Disconnect id c))"
| send: "client_step cd z (Inr c) (Inr (cl_Send m c))"
| take: "pop_front (cl_qMessagesIn c) = Inr (om, q) \<Longrightarrow>
    client_step cd z (Inr c) (Inr (c\<lparr>cl_qMessagesIn := q\<rparr>))"
| opened: "cl_running c \<Longrightarrow> m_connection c = Some k \<Longrightarrow> Connect_op \<in> set (pending k) \<Longrightarrow>
    client_step cd z (Inr c) (Inr (c\<lparr>m_connection := Some (k\<lparr>sock_open := True\<rparr>)\<rparr>))"
| event: "cl_running c \<Longrightarrow> m_connection c = Some k \<Longrightarrow> p \<in> set (pending k) \<Longrightarrow>
    asio_contract cd p ec bs \<Longrightarrow> client_step cd z (Inr c) (cl_event cd p ec bs k c)"

lemmas client_defs =
  cl_say_def cl_IsConnected_def Connect_def cl_Disconnect_def cl_Send_def Incoming_def cl_event_def

section \<open>A stopped context\<close>

text \<open>
  Nothing restarts the context. From then on every connection, old or new, is in the state the calls
  left it in: not connected, its operations pending for ever.
\<close>

definition idle_connection :: "'t connection \<Rightarrow> bool" where
  "idle_connection k \<longleftrightarrow> \<not> sock_open k \<and> pending k = [Connect_op]"

definition stopped_client :: "'t owned_message list \<Rightarrow> fault + 't client \<Rightarrow> bool" where
  "stopped_client arrived r \<longleftrightarrow> (case r of
     Inl f \<Rightarrow> f = Terminate
   | Inr c \<Rightarrow> context_stopped c \<and> pred_option idle_connection (m_connection c) \<and>
       suffix (deqQueue (cl_qMessagesIn c)) arrived)"

lemma stopped_client_simps [simp]:
  "stopped_client arrived (Inl f) \<longleftrightarrow> f = Terminate"
  "stopped_client arrived (Inr c) \<longleftrightarrow> context_stopped c \<and>
     pred_option idle_connection (m_connection c) \<and> suffix (deqQueue (cl_qMessagesIn c)) arrived"
  by (simp_all add: stopped_client_def)

lemma idle_not_connected:
  "pred_option idle_connection (m_connection c) \<Longrightarrow> \<not> cl_IsConnected c"
  by (auto simp: cl_IsConnected_def idle_connection_def IsConnected_def split: option.splits)

lemma stopped_client_step:
  assumes "stopped_client arrived r" "client_step cd z r r'"
  shows "stopped_client arrived r'"
  using assms(2)
proof cases
  case (connect c re te)
  with assms(1) show ?thesis
    by (auto simp: Connect_def Let_def cl_say_def idle_connection_def new_connection_def
        ConnectToServer_def start_op_def split: option.splits)
next
  case (disconnect c)
  with assms(1) show ?thesis by (auto simp: cl_Disconnect_def Let_def)
next
  case (send c m)
  with assms(1) idle_not_connected [of c] show ?thesis by (auto simp: cl_Send_def)
next
  case (take c om q)
  with assms(1) show ?thesis
    by (auto simp: pop_front_def split: list.splits dest: suffix_ConsD)
next
  case (opened c k)
  with assms(1) show ?thesis by (simp add: cl_running_def)
next
  case (event c k p ec bs)
  with assms(1) show ?thesis by (simp add: cl_running_def)
qed

interpretation dead: invariant_system "stopped_client arrived" "client_step cd z" "stopped_client arrived"
  for arrived cd z
  by unfold_locales (auto intro: stopped_client_step)

section \<open>Invariant\<close>

definition client_side :: "'t codec \<Rightarrow> fault + 't client \<Rightarrow> bool" where
  "client_side cd r \<longleftrightarrow> (case r of Inl f \<Rightarrow> f = Terminate
     | Inr c \<Rightarrow> pred_option (conn_ok cd) (m_connection c))"

lemma client_side_simps [simp]:
  "client_side cd (Inl f) \<longleftrightarrow> f = Terminate"
  "client_side cd (Inr c) \<longleftrightarrow> pred_option (conn_ok cd) (m_connection c)"
  by (simp_all add: client_side_def)

lemma client_side_step:
  assumes "client_side cd r" "client_step cd z r r'"
  shows "client_side cd r'"
  using assms(2)
proof cases
  case (connect c re te)
  with assms(1) show ?thesis
    by (auto simp: Connect_def Let_def cl_say_def conn_ok_new intro!: conn_ok_connect split: option.splits)
next
  case (disconnect c)
  with assms(1) show ?thesis by (auto simp: cl_Disconnect_def Let_def)
next
  case (send c m)
  with assms(1) show ?thesis
    by (cases "m_connection c") (auto simp: cl_Send_def intro: conn_ok_connect)
next
  case (take c om q)
  with assms(1) show ?thesis by simp
next
  case (opened c k)
  with assms(1) show ?thesis by (simp add: conn_ok_connect)
next
  case (event c k p ec bs)
  with assms(1) have "conn_ok cd k" by simp
  from conn_ok_complete [OF this event(5,6), of "cl_qMessagesIn c"] event(2) show ?thesis
    by (auto simp: cl_event_def)
qed

interpretation client_side: invariant_system "\<lambda>r. r = Inr new_client" "client_step cd z" "client_side cd"
  for cd z
  by unfold_locales (auto simp: new_client_def intro: client_side_step)

end
