(* ===== verification/Net_Server.thy ===== *)
theory Net_Server
  imports Connection_Protocol
begin

text \<open>
  The server (\<open>src/one_lone_coder/net_server.h\<close>). A \<open>std::shared_ptr\<close> to a connection is an index
  into \<open>objects\<close>, every connection ever made; the object of an index is alive as long as some
  \<open>shared_ptr\<close> to it is left in the deque or in a queued message (\<open>referenced\<close>). The virtual member
  functions are a record of callbacks; what the library relies on about them is the locale
  \<open>server_callbacks\<close>. The handlers of asio's thread and the calls of the main thread are steps of
  one relation, each handler and each processed message one step.
\<close>

section \<open>State\<close>

record 't server =
  objects :: "'t connection list"
  m_qMessagesIn :: "'t owned_message tsqueue"
  m_deqConnections :: "nat option list"
  accepts :: nat                        \<comment> \<open>\<open>async_accept\<close> operations in flight\<close>
  ctx_stopped :: bool                   \<comment> \<open>\<open>m_asioContext.stopped()\<close>\<close>
  thread_joinable :: bool               \<comment> \<open>\<open>m_threadContext.joinable()\<close>\<close>
  nIDCounter :: u32
  log :: "string list"                  \<comment> \<open>lines written to \<open>std::cout\<close> and \<open>std::cerr\<close>\<close>

definition new_server :: "'t server" where
  "new_server = \<lparr>objects = [], m_qMessagesIn = new_tsqueue, m_deqConnections = [], accepts = 0,
     ctx_stopped = False, thread_joinable = False, nIDCounter = 10000, log = []\<rparr>"

record 't callbacks =
  OnClientConnect :: "nat option \<Rightarrow> 't server \<Rightarrow> fault + bool \<times> 't server"
  OnClientDisconnect :: "nat option \<Rightarrow> 't server \<Rightarrow> fault + 't server"
  OnMessage :: "nat option \<Rightarrow> 't message \<Rightarrow> 't server \<Rightarrow> fault + 't server"

text \<open>The bodies the class itself gives the three functions.\<close>

definition base_callbacks :: "'t callbacks" where
  "base_callbacks = \<lparr>OnClientConnect = (\<lambda>client s. Inr (False, s)),
     OnClientDisconnect = (\<lambda>client s. Inr s), OnMessage = (\<lambda>client m s. Inr s)\<rparr>"

definition say :: "string \<Rightarrow> 't server \<Rightarrow> 't server" where
  "say line s = s\<lparr>log := log s @ [line]\<rparr>"

lemma say_simps [simp]:
  "objects (say l s) = objects s" "m_deqConnections (say l s) = m_deqConnections s"
  "m_qMessagesIn (say l s) = m_qMessagesIn s" "nIDCounter (say l s) = nIDCounter s"
  "accepts (say l s) = accepts s" "ctx_stopped (say l s) = ctx_stopped s"
  "thread_joinable (say l s) = thread_joinable s"
  by (simp_all add: say_def)

text \<open>A pointer dereferenced: null is a fault.\<close>

definition deref :: "nat option \<Rightarrow> 't server \<Rightarrow> fault + 't connection" where
  "deref p s = (case p of None \<Rightarrow> Inl Null_deref
     | Some r \<Rightarrow> if r < length (objects s) then Inr (objects s ! r) else Inl Out_of_bounds)"

definition invoke :: "nat option \<Rightarrow> ('t connection \<Rightarrow> 't connection) \<Rightarrow> 't server \<Rightarrow> fault + 't server" where
  "invoke p f s = rbind (deref p s) (\<lambda>c. Inr (s\<lparr>objects := (objects s)[the p := f c]\<rparr>))"

section \<open>Operations\<close>

definition WaitForClientConnection :: "'t server \<Rightarrow> 't server" where
  "WaitForClientConnection s = s\<lparr>accepts := accepts s + 1\<rparr>"

text \<open>
  \<open>Start\<close>; \<open>thread_error\<close> is the text of the exception \<open>std::thread\<close>'s constructor throws, if it does. Assigning
  to a \<open>std::thread\<close> that is still joinable ends the process.
\<close>

definition Start :: "string option \<Rightarrow> 't server \<Rightarrow> fault + bool \<times> 't server" where
  "Start thread_error s =
     (let s1 = WaitForClientConnection s
      in case thread_error of
           Some what \<Rightarrow> Inr (False, say (''[SERVER] Exception: '' @ what) s1)
         | None \<Rightarrow> if thread_joinable s1 then Inl Terminate
         else Inr (True, say ''[SERVER] Started!'' (s1\<lparr>thread_joinable := True\<rparr>)))"

definition Stop :: "'t server \<Rightarrow> 't server" where
  "Stop s =
     (let s1 = s\<lparr>ctx_stopped := True\<rparr>;
          s2 = (if thread_joinable s1 then s1\<lparr>thread_joinable := False\<rparr> else s1)
      in say ''[SERVER] Stopped!'' s2)"

text \<open>
  The handler of \<open>async_accept\<close>. \<open>peer\<close> is what \<open>remote_endpoint\<close> gives for the new socket, \<open>None\<close>
  when it throws because the peer is gone already; nothing catches the exception in asio's thread.
  \<open>describe\<close> is \<open>error_code::message\<close>; \<open>z\<close> is \<open>T\<close>'s zero, with which the connection's temporary message starts.
\<close>

definition accept_handler :: "'t callbacks \<Rightarrow> (error_code \<Rightarrow> string) \<Rightarrow> 't \<Rightarrow>
    error_code \<Rightarrow> string option \<Rightarrow> 't server \<Rightarrow> fault + 't server" where
  "accept_handler cb describe z ec peer s =
     rbind
       (if \<not> failed ec
        then (case peer of
            None \<Rightarrow> Inl Terminate
          | Some address \<Rightarrow>
              let s1 = say (''[SERVER] New Connection: '' @ address) s;
                  newconn = length (objects s1);
                  s2 = s1\<lparr>objects := objects s1 @ [new_connection newconn Owner_server True z]\<rparr>
              in rbind (OnClientConnect cb (Some newconn) s2) (\<lambda>(approved, s3).
                   if approved
                   then let s4 = s3\<lparr>m_deqConnections := m_deqConnections s3 @ [Some newconn]\<rparr>;
                            uid = nIDCounter s4;
                            s5 = s4\<lparr>nIDCounter := uid + 1\<rparr>
                        in rbind (invoke (last (m_deqConnections s5)) (ConnectToClient uid) s5) (\<lambda>s6.
                           rbind (deref (last (m_deqConnections s6)) s6) (\<lambda>c.
                             Inr (say (''['' @ show_nat (unat (GetID c)) @ ''] Connection Approved'') s6)))
                   else Inr (say ''[-----] Connection Denied'' s3)))
        else Inr (say (''[SERVER] New Connection Error: '' @ describe ec) s))
       (\<lambda>s'. Inr (WaitForClientConnection s'))"

text \<open>\<open>client && client->IsConnected()\<close>.\<close>

definition reachable_client :: "nat option \<Rightarrow> 't server \<Rightarrow> bool" where
  "reachable_client p s = (case deref p s of Inl _ \<Rightarrow> False | Inr c \<Rightarrow> IsConnected c)"

text \<open>\<open>std::remove\<close> followed by \<open>erase\<close> to the end.\<close>

definition erase_all :: "'a \<Rightarrow> 'a list \<Rightarrow> 'a list" where
  "erase_all v xs = filter (\<lambda>x. x \<noteq> v) xs"

text \<open>\<open>client.reset()\<close> makes the parameter null before it is searched for.\<close>

definition MessageClient :: "'t callbacks \<Rightarrow> nat option \<Rightarrow> 't message \<Rightarrow> 't server \<Rightarrow> fault + 't server" where
  "MessageClient cb client m s =
     (if reachable_client client s then invoke client (Send m) s
      else rbind (OnClientDisconnect cb client s) (\<lambda>s1.
        let client' = None
        in Inr (s1\<lparr>m_deqConnections := erase_all client' (m_deqConnections s1)\<rparr>)))"

text \<open>
  The loop of \<open>MessageAllClients\<close> over the positions of the deque; \<open>client\<close> is a reference to the
  element, so \<open>reset\<close> writes a null pointer into the deque. The flag is \<open>bInvalidClientExists\<close>.
\<close>

fun message_clients :: "'t callbacks \<Rightarrow> 't message \<Rightarrow> nat option \<Rightarrow> nat list \<Rightarrow> bool \<Rightarrow> 't server \<Rightarrow>
    fault + bool \<times> 't server" where
  "message_clients cb m pIgnoreClient [] bad s = Inr (bad, s)"
| "message_clients cb m pIgnoreClient (i # is) bad s =
     (if i < length (m_deqConnections s)
      then let client = m_deqConnections s ! i
           in if reachable_client client s
              then (if client \<noteq> pIgnoreClient
                    then rbind (invoke client (Send m) s) (message_clients cb m pIgnoreClient is bad)
                    else message_clients cb m pIgnoreClient is bad s)
              else rbind (OnClientDisconnect cb client s) (\<lambda>s1.
                     message_clients cb m pIgnoreClient is True
                       (s1\<lparr>m_deqConnections := (m_deqConnections s1)[i := None]\<rparr>))
      else Inl Out_of_bounds)"

definition MessageAllClients :: "'t callbacks \<Rightarrow> 't message \<Rightarrow> nat option \<Rightarrow> 't server \<Rightarrow> fault + 't server" where
  "MessageAllClients cb m pIgnoreClient s =
     rbind (message_clients cb m pIgnoreClient [0..<length (m_deqConnections s)] False s)
       (\<lambda>(bInvalidClientExists, s1).
         if bInvalidClientExists
         then Inr (s1\<lparr>m_deqConnections := erase_all None (m_deqConnections s1)\<rparr>)
         else Inr s1)"

text \<open>
  One round of the loop of \<open>Update\<close>: take the front message, hand it to \<open>OnMessage\<close>. The local
  \<open>msg\<close> keeps its connection alive until the round is over.
\<close>

definition update_round :: "'t callbacks \<Rightarrow> 't server \<Rightarrow> fault + 't server" where
  "update_round cb s =
     rbind (pop_front (m_qMessagesIn s)) (\<lambda>(om, q).
       OnMessage cb (remote om) (msg om) (s\<lparr>m_qMessagesIn := q\<rparr>))"

text \<open>
  \<open>asio_thread n\<close> is what the other thread does to the server before the loop looks at the queue
  for the \<open>n\<close>-th time.
\<close>

function update_loop :: "'t callbacks \<Rightarrow> (nat \<Rightarrow> 't server \<Rightarrow> fault + 't server) \<Rightarrow> size_t \<Rightarrow> size_t \<Rightarrow>
    't server \<Rightarrow> fault + 't server" where
  "update_loop cb asio_thread nMaxMessages nMessageCount s =
     (if nMessageCount < nMaxMessages
      then rbind (asio_thread (unat nMessageCount) s) (\<lambda>s1.
           if \<not> tsq_empty (m_qMessagesIn s1)
           then rbind (update_round cb s1) (update_loop cb asio_thread nMaxMessages (nMessageCount + 1))
           else Inr s1)
      else Inr s)"
  by auto
termination
proof (relation "measure (\<lambda>(cb, e, n, i, s). unat n - unat i)")
  fix cb :: "'a callbacks" and e :: "nat \<Rightarrow> 'a server \<Rightarrow> fault + 'a server" and n i :: size_t and s x y
  assume lt: "i < n"
  then have "unat (i + 1) = unat i + 1"
    by (rule unat_plus_1_less)
  with lt show "((cb, e, n, i + 1, y), cb, e, n, i, s) \<in> measure (\<lambda>(cb, e, n, i, s). unat n - unat i)"
    by (simp add: word_less_nat_alt)
qed simp

declare update_loop.simps [simp del]

text \<open>
  \<open>Update\<close>; \<open>arriving\<close> is what asio's thread does while \<open>wait\<close> blocks. \<open>None\<close>: it blocks still.
\<close>

definition Update :: "'t callbacks \<Rightarrow> ('t server \<Rightarrow> fault + 't server) \<Rightarrow>
    (nat \<Rightarrow> 't server \<Rightarrow> fault + 't server) \<Rightarrow> size_t \<Rightarrow> bool \<Rightarrow> 't server \<Rightarrow> (fault + 't server) option" where
  "Update cb arriving asio_thread nMaxMessages bWait s =
     (if bWait
      then (case arriving s of
          Inl e \<Rightarrow> Some (Inl e)
        | Inr s1 \<Rightarrow> if tsq_empty (m_qMessagesIn s1) then None
                    else Some (update_loop cb asio_thread nMaxMessages 0 s1))
      else Some (update_loop cb asio_thread nMaxMessages 0 s))"

section \<open>The contract of the callbacks\<close>

text \<open>\<open>posts c c'\<close>: \<open>c'\<close> is \<open>c\<close> after calls of \<open>Send\<close> and \<open>Disconnect\<close>, which only post closures.\<close>

fun posted :: "'t op \<Rightarrow> bool" where
  "posted (Send_task _) = True"
| "posted Close_task = True"
| "posted _ = False"

definition posts :: "'t connection \<Rightarrow> 't connection \<Rightarrow> bool" where
  "posts c c' \<longleftrightarrow> (\<exists>ps. list_all posted ps \<and> c' = c\<lparr>pending := pending c @ ps\<rparr>)"

lemma posts_refl [simp]: "posts c c"
  unfolding posts_def by (rule exI [of _ "[]"]) simp

lemma posts_Send [simp]: "posts c (Send m c)"
  unfolding posts_def by (rule exI [of _ "[Send_task m]"]) (simp add: Send_def start_op_def)

lemma posts_trans: "posts a b \<Longrightarrow> posts b c \<Longrightarrow> posts a c"
  unfolding posts_def by (force intro: exI [of _ "ps @ qs" for ps qs])

lemma posts_fields:
  assumes "posts c c'"
  shows "conn_id c' = conn_id c" "sock_open c' = sock_open c" "m_nOwnerType c' = m_nOwnerType c"
    "self c' = self c" "m_qMessagesOut c' = m_qMessagesOut c"
    "filter is_write (pending c') = filter is_write (pending c)"
proof -
  obtain ps where ps: "list_all posted ps" "c' = c\<lparr>pending := pending c @ ps\<rparr>"
    using assms by (auto simp: posts_def)
  have "filter is_write ps = []" using ps(1) by (induction ps) (auto elim!: posted.elims)
  with ps(2) show "filter is_write (pending c') = filter is_write (pending c)" by simp
qed (use assms in \<open>auto simp: posts_def\<close>)

definition same_rest :: "'t server \<Rightarrow> 't server \<Rightarrow> bool" where
  "same_rest s s' \<longleftrightarrow> m_qMessagesIn s' = m_qMessagesIn s \<and> accepts s' = accepts s \<and>
     ctx_stopped s' = ctx_stopped s \<and> thread_joinable s' = thread_joinable s \<and>
     nIDCounter s' = nIDCounter s"

definition objects_post :: "'t server \<Rightarrow> 't server \<Rightarrow> bool" where
  "objects_post s s' \<longleftrightarrow> list_all2 posts (objects s) (objects s')"

text \<open>Every pointer of the server is one that \<open>make_shared\<close> gave.\<close>

definition valid_ref :: "'t server \<Rightarrow> nat option \<Rightarrow> bool" where
  "valid_ref s p \<longleftrightarrow> (\<exists>r < length (objects s). p = Some r)"

definition refs_ok :: "'t server \<Rightarrow> bool" where
  "refs_ok s \<longleftrightarrow> list_all (valid_ref s) (m_deqConnections s) \<and> distinct (m_deqConnections s) \<and>
     list_all (\<lambda>om. valid_ref s (remote om)) (deqQueue (m_qMessagesIn s))"

locale server_callbacks =
  fixes cb :: "'t callbacks"
  assumes connect_posts: "refs_ok s \<Longrightarrow> valid_ref s p \<Longrightarrow>
      \<exists>ok s'. OnClientConnect cb p s = Inr (ok, s') \<and> same_rest s s' \<and> objects_post s s' \<and>
        m_deqConnections s' = m_deqConnections s"
    and disconnect_logs: "valid_ref s p \<Longrightarrow>
      \<exists>s'. OnClientDisconnect cb p s = Inr s' \<and> same_rest s s' \<and> objects s' = objects s \<and>
        m_deqConnections s' = m_deqConnections s"
    and message_serves: "refs_ok s \<Longrightarrow> valid_ref s p \<Longrightarrow>
      \<exists>s'. OnMessage cb p m s = Inr s' \<and> same_rest s s' \<and> objects_post s s' \<and>
        subseq (m_deqConnections s') (m_deqConnections s)"

lemma same_rest_refl [simp]: "same_rest s s"
  by (simp add: same_rest_def)

lemma same_rest_trans: "same_rest a b \<Longrightarrow> same_rest b c \<Longrightarrow> same_rest a c"
  by (simp add: same_rest_def)

lemma objects_post_refl [simp]: "objects_post s s"
  by (simp add: objects_post_def list_all2_refl)

lemma objects_post_trans: "objects_post a b \<Longrightarrow> objects_post b c \<Longrightarrow> objects_post a c"
  unfolding objects_post_def by (rule list_all2_trans [of posts posts posts]) (auto intro: posts_trans)

interpretation base: server_callbacks base_callbacks
  by unfold_locales (auto simp: base_callbacks_def)

lemma valid_ref_cong: "length (objects s') = length (objects s) \<Longrightarrow> valid_ref s' = valid_ref s"
  by (rule ext) (simp add: valid_ref_def)

lemma deref_valid: "valid_ref s p \<Longrightarrow> deref p s = Inr (objects s ! the p)"
  by (auto simp: valid_ref_def deref_def)

lemma invoke_valid:
  "valid_ref s p \<Longrightarrow> invoke p f s = Inr (s\<lparr>objects := (objects s)[the p := f (objects s ! the p)]\<rparr>)"
  by (simp add: invoke_def deref_valid)

lemma reachable_client_valid: "valid_ref s p \<Longrightarrow> reachable_client p s = IsConnected (objects s ! the p)"
  by (simp add: reachable_client_def deref_valid)

lemma IsConnected_Send [simp]: "IsConnected (Send m c) = IsConnected c"
  by (simp add: IsConnected_def Send_def)

section \<open>Broadcasting\<close>

text \<open>What \<open>MessageAllClients\<close> does to the connections, as a fold and in closed form.\<close>

definition send_to :: "'t message \<Rightarrow> nat option \<Rightarrow> nat option \<Rightarrow> 't connection list \<Rightarrow> 't connection list" where
  "send_to m ign p os =
     (if IsConnected (os ! the p) \<and> p \<noteq> ign then os[the p := Send m (os ! the p)] else os)"

lemma length_send_to [simp]: "length (send_to m ign p os) = length os"
  by (simp add: send_to_def)

lemma connected_send_to [simp]: "IsConnected (send_to m ign p os ! r) = IsConnected (os ! r)"
proof (cases "r = the p \<and> r < length os")
  case True
  then show ?thesis by (simp add: send_to_def)
next
  case False
  then have "os[the p := c] ! r = os ! r" for c by (metis list_update_beyond not_less nth_list_update_neq)
  then show ?thesis by (simp add: send_to_def)
qed

lemma fold_send_to:
  assumes "distinct ps" "list_all (\<lambda>p. \<exists>r < length os. p = Some r) ps" "r < length os"
  shows "fold (send_to m ign) ps os ! r =
    (if Some r \<in> set ps \<and> Some r \<noteq> ign \<and> IsConnected (os ! r) then Send m (os ! r) else os ! r)"
  using assms
proof (induction ps arbitrary: os)
  case Nil
  then show ?case by simp
next
  case (Cons p ps)
  then obtain q where q: "p = Some q" "q < length os" by auto
  with Cons show ?case by (auto simp: send_to_def nth_list_update)
qed

lemma length_fold_send_to [simp]: "length (fold (send_to m ign) ps os) = length os"
  by (induction ps arbitrary: os) simp_all

context server_callbacks
begin

lemma message_clients_run:
  assumes "m_deqConnections s = pre @ suf" "list_all (valid_ref s) suf"
  shows "\<exists>s'. message_clients cb m ign [length pre..<length (pre @ suf)] bad s =
      Inr (bad \<or> (\<exists>p \<in> set suf. \<not> IsConnected (objects s ! the p)), s') \<and> same_rest s s' \<and>
    objects s' = fold (send_to m ign) suf (objects s) \<and>
    m_deqConnections s' = pre @ map (\<lambda>p. if IsConnected (objects s ! the p) then p else None) suf"
  using assms
proof (induction suf arbitrary: pre s bad)
  case Nil
  then show ?case by simp
next
  case (Cons p suf)
  have p: "valid_ref s p" and suf: "list_all (valid_ref s) suf" using Cons.prems(2) by simp_all
  have ix: "[length pre..<length (pre @ p # suf)] = length pre # [Suc (length pre)..<length (pre @ p # suf)]"
    by (rule upt_rec [THEN trans]) simp
  have at: "length pre < length (m_deqConnections s)" "m_deqConnections s ! length pre = p"
    using Cons.prems(1) by simp_all
  show ?case
  proof (cases "IsConnected (objects s ! the p)")
    case True
    let ?s = "s\<lparr>objects := send_to m ign p (objects s)\<rparr>"
    have "m_deqConnections ?s = (pre @ [p]) @ suf" "list_all (valid_ref ?s) suf"
      using Cons.prems(1) suf valid_ref_cong [of ?s s] by simp_all
    from Cons.IH [OF this, of bad] obtain s' where
      s': "message_clients cb m ign [length (pre @ [p])..<length ((pre @ [p]) @ suf)] bad ?s =
        Inr (bad \<or> (\<exists>p \<in> set suf. \<not> IsConnected (objects ?s ! the p)), s')" "same_rest ?s s'"
        "objects s' = fold (send_to m ign) suf (objects ?s)"
        "m_deqConnections s' = (pre @ [p]) @
           map (\<lambda>p. if IsConnected (objects ?s ! the p) then p else None) suf"
      by blast
    have "message_clients cb m ign [length pre..<length (pre @ p # suf)] bad s =
        message_clients cb m ign [Suc (length pre)..<length (pre @ p # suf)] bad ?s"
      unfolding ix using at True p
      by (simp add: reachable_client_valid invoke_valid send_to_def Let_def)
    with s' True show ?thesis by (auto simp: same_rest_def)
  next
    case False
    obtain s1 where s1: "OnClientDisconnect cb p s = Inr s1" "same_rest s s1" "objects s1 = objects s"
      "m_deqConnections s1 = m_deqConnections s"
      using disconnect_logs [OF p] by blast
    let ?s = "s1\<lparr>m_deqConnections := (m_deqConnections s1)[length pre := None]\<rparr>"
    have "m_deqConnections ?s = (pre @ [None]) @ suf" "list_all (valid_ref ?s) suf"
      using Cons.prems(1) suf s1 valid_ref_cong [of ?s s] by simp_all
    from Cons.IH [OF this, of True] obtain s' where
      s': "message_clients cb m ign [length (pre @ [None])..<length ((pre @ [None]) @ suf)] True ?s =
        Inr (True, s')" "same_rest ?s s'"
        "objects s' = fold (send_to m ign) suf (objects ?s)"
        "m_deqConnections s' = (pre @ [None]) @
           map (\<lambda>p. if IsConnected (objects ?s ! the p) then p else None) suf"
      by auto
    have "message_clients cb m ign [length pre..<length (pre @ p # suf)] bad s =
        message_clients cb m ign [Suc (length pre)..<length (pre @ p # suf)] True ?s"
      unfolding ix using at False p s1(1) by (simp add: reachable_client_valid Let_def)
    moreover have "send_to m ign p (objects s) = objects s" using False by (simp add: send_to_def)
    ultimately show ?thesis using s' False s1 by (auto simp: same_rest_def)
  qed
qed

lemma MessageAllClients_run:
  assumes "list_all (valid_ref s) (m_deqConnections s)"
  shows "\<exists>s'. MessageAllClients cb m ign s = Inr s' \<and> same_rest s s' \<and>
    objects s' = fold (send_to m ign) (m_deqConnections s) (objects s) \<and>
    m_deqConnections s' = filter (\<lambda>p. IsConnected (objects s ! the p)) (m_deqConnections s)"
proof -
  have e: "erase_all None (map (\<lambda>p. if IsConnected (objects s ! the p) then p else None) ps) =
      filter (\<lambda>p. IsConnected (objects s ! the p)) ps" if "list_all (valid_ref s) ps" for ps
    using that by (induction ps) (auto simp: erase_all_def valid_ref_def)
  have a: "map (\<lambda>p. if IsConnected (objects s ! the p) then p else None) ps = ps"
      "filter (\<lambda>p. IsConnected (objects s ! the p)) ps = ps"
    if "\<forall>p \<in> set ps. IsConnected (objects s ! the p)" for ps
    using that by (induction ps) auto
  from message_clients_run [of s "[]" "m_deqConnections s" m ign False] assms obtain s' where
    s': "message_clients cb m ign [0..<length (m_deqConnections s)] False s =
      Inr (\<exists>p \<in> set (m_deqConnections s). \<not> IsConnected (objects s ! the p), s')" "same_rest s s'"
      "objects s' = fold (send_to m ign) (m_deqConnections s) (objects s)"
      "m_deqConnections s' = map (\<lambda>p. if IsConnected (objects s ! the p) then p else None) (m_deqConnections s)"
    by auto
  show ?thesis
  proof (cases "\<forall>p \<in> set (m_deqConnections s). IsConnected (objects s ! the p)")
    case True
    then show ?thesis using s' a [OF True] by (simp add: MessageAllClients_def)
  next
    case False
    then show ?thesis using s' e [OF assms] by (auto simp: MessageAllClients_def same_rest_def)
  qed
qed

lemma MessageClient_dead:
  assumes "list_all (valid_ref s) (m_deqConnections s)" "valid_ref s p" "\<not> IsConnected (objects s ! the p)"
  shows "\<exists>s'. MessageClient cb p m s = Inr s' \<and> same_rest s s' \<and> objects s' = objects s \<and>
    m_deqConnections s' = m_deqConnections s"
proof -
  obtain s1 where s1: "OnClientDisconnect cb p s = Inr s1" "same_rest s s1" "objects s1 = objects s"
    "m_deqConnections s1 = m_deqConnections s"
    using disconnect_logs [OF assms(2)] by blast
  have "erase_all None ps = ps" if "list_all (valid_ref s) ps" for ps
    using that by (induction ps) (auto simp: erase_all_def valid_ref_def)
  with s1 assms show ?thesis
    by (simp add: MessageClient_def reachable_client_valid same_rest_def)
qed

lemma MessageClient_alive:
  assumes "valid_ref s p" "IsConnected (objects s ! the p)"
  shows "MessageClient cb p m s = Inr (s\<lparr>objects := (objects s)[the p := Send m (objects s ! the p)]\<rparr>)"
  using assms by (simp add: MessageClient_def reachable_client_valid invoke_valid)

end

section \<open>Executions\<close>

text \<open>A \<open>shared_ptr\<close> to the connection is left in the deque or in a queued message.\<close>

definition referenced :: "'t server \<Rightarrow> nat \<Rightarrow> bool" where
  "referenced s r \<longleftrightarrow> Some r \<in> set (m_deqConnections s) \<or>
     Some r \<in> remote ` set (deqQueue (m_qMessagesIn s))"

text \<open>
  A completion of one of a connection's operations. The handlers capture the raw \<open>this\<close>: the
  completion runs on the connection whether or not it is still alive.
\<close>

definition connection_event :: "'t codec \<Rightarrow> nat \<Rightarrow> 't op \<Rightarrow> error_code \<Rightarrow> byte list \<Rightarrow> 't server \<Rightarrow> fault + 't server" where
  "connection_event cd r p ec bs s =
     (if referenced s r
      then rbind (complete_op cd p ec bs (objects s ! r) (m_qMessagesIn s)) (\<lambda>(c, q).
        Inr (s\<lparr>objects := (objects s)[r := c], m_qMessagesIn := q\<rparr>))
      else Inl Use_after_free)"

definition running :: "'t server \<Rightarrow> bool" where
  "running s \<longleftrightarrow> thread_joinable s \<and> \<not> ctx_stopped s"

inductive server_step :: "'t callbacks \<Rightarrow> (error_code \<Rightarrow> string) \<Rightarrow> 't \<Rightarrow> 't codec \<Rightarrow>
    fault + 't server \<Rightarrow> fault + 't server \<Rightarrow> bool" for cb describe z cd where
  start: "server_step cb describe z cd (Inr s) (rbind (Start thread_error s) (\<lambda>(ok, s'). Inr s'))"
| stop: "server_step cb describe z cd (Inr s) (Inr (Stop s))"
| accept: "running s \<Longrightarrow> 0 < accepts s \<Longrightarrow>
    server_step cb describe z cd (Inr s)
      (accept_handler cb describe z ec peer (s\<lparr>accepts := accepts s - 1\<rparr>))"
| event: "running s \<Longrightarrow> r < length (objects s) \<Longrightarrow> p \<in> set (pending (objects s ! r)) \<Longrightarrow>
    asio_contract cd p ec bs \<Longrightarrow>
    server_step cb describe z cd (Inr s) (connection_event cd r p ec bs s)"
| process: "deqQueue (m_qMessagesIn s) \<noteq> [] \<Longrightarrow>
    server_step cb describe z cd (Inr s) (update_round cb s)"
| message_one: "p \<in> set (m_deqConnections s) \<Longrightarrow>
    server_step cb describe z cd (Inr s) (MessageClient cb p m s)"
| message_all: "server_step cb describe z cd (Inr s) (MessageAllClients cb m ign s)"

definition server_reachable :: "'t callbacks \<Rightarrow> (error_code \<Rightarrow> string) \<Rightarrow> 't \<Rightarrow> 't codec \<Rightarrow>
    fault + 't server \<Rightarrow> bool" where
  "server_reachable cb describe z cd r \<longleftrightarrow> (server_step cb describe z cd)\<^sup>*\<^sup>* (Inr new_server) r"

section \<open>Invariant\<close>

lemma conn_ok_posts:
  assumes "conn_ok cd c" "posts c c'"
  shows "conn_ok cd c'"
proof -
  obtain w where w: "lk w = c" "write_inv cd w" using assms(1) by (auto simp: conn_ok_def)
  have "write_inv cd (w\<lparr>lk := c'\<rparr>)"
    using w posts_fields [OF assms(2)] by (simp add: write_inv_def)
  from conn_okI [OF this] show ?thesis by simp
qed

text \<open>
  What a completion changes: not the connection's identity; the queue grows by at most one message,
  from this connection.
\<close>

lemma complete_op_frame:
  assumes "complete_op cd p ec bs c q = Inr (c', q')"
  shows "self c' = self c \<and> m_nOwnerType c' = m_nOwnerType c \<and> conn_id c' = conn_id c \<and>
    (q' = q \<or> (\<exists>m. deqQueue q' = deqQueue q @ [\<lparr>remote = (if m_nOwnerType c = Owner_server then Some (self c) else None), msg = m\<rparr>]))"
  using assms
  by (cases p)
    (auto simp: complete_op_def handler_defs connection_defs rbind_Inr_iff Let_def split: if_splits)

text \<open>
  The identifiers: \<open>k\<close> connections were approved so far, the counter is \<open>k\<close> steps from its start,
  and the connections in the deque carry the numbers of their approvals.
\<close>

definition ids_below :: "nat \<Rightarrow> 't server \<Rightarrow> bool" where
  "ids_below n s \<longleftrightarrow> (\<exists>k num. k \<le> n \<and> nIDCounter s = 10000 + of_nat k \<and>
     inj_on num (set (m_deqConnections s)) \<and>
     (\<forall>p \<in> set (m_deqConnections s). num p < k \<and> conn_id (objects s ! the p) = 10000 + of_nat (num p)))"

lemma ids_below_mono: "ids_below m s \<Longrightarrow> m \<le> n \<Longrightarrow> ids_below n s"
  unfolding ids_below_def by (meson order_trans)

definition server_ok :: "'t codec \<Rightarrow> 't server \<Rightarrow> bool" where
  "server_ok cd s \<longleftrightarrow> list_all (conn_ok cd) (objects s) \<and> refs_ok s \<and> ids_below (length (objects s)) s \<and>
     (\<forall>r < length (objects s). self (objects s ! r) = r \<and> m_nOwnerType (objects s ! r) = Owner_server)"

text \<open>A state served by a callback: closures were posted, clients perhaps removed.\<close>

definition served :: "'t server \<Rightarrow> 't server \<Rightarrow> bool" where
  "served s s' \<longleftrightarrow> same_rest s s' \<and> objects_post s s' \<and>
     subseq (m_deqConnections s') (m_deqConnections s)"

lemma servedD:
  assumes "served s s'"
  shows "length (objects s') = length (objects s)" "valid_ref s' = valid_ref s"
    "r < length (objects s) \<Longrightarrow> posts (objects s ! r) (objects s' ! r)"
    "set (m_deqConnections s') \<subseteq> set (m_deqConnections s)"
    "distinct (m_deqConnections s) \<Longrightarrow> distinct (m_deqConnections s')"
    "nIDCounter s' = nIDCounter s" "m_qMessagesIn s' = m_qMessagesIn s"
proof -
  have o: "list_all2 posts (objects s) (objects s')" and d: "subseq (m_deqConnections s') (m_deqConnections s)"
    using assms by (simp_all add: served_def objects_post_def)
  show l: "length (objects s') = length (objects s)" using list_all2_lengthD [OF o] by simp
  show "valid_ref s' = valid_ref s" using l by (rule valid_ref_cong)
  show "r < length (objects s) \<Longrightarrow> posts (objects s ! r) (objects s' ! r)"
    using o by (rule list_all2_nthD)
  show "set (m_deqConnections s') \<subseteq> set (m_deqConnections s)" using d by (rule set_subseq)
  show "distinct (m_deqConnections s) \<Longrightarrow> distinct (m_deqConnections s')" using d by (rule distinct_subseq)
qed (use assms in \<open>simp_all add: served_def same_rest_def\<close>)

lemma refs_ok_served: "refs_ok s \<Longrightarrow> served s s' \<Longrightarrow> refs_ok s'"
  using servedD [of s s'] by (auto simp: refs_ok_def list_all_iff)

lemma ids_below_served:
  assumes "ids_below n s" "refs_ok s" "served s s'"
  shows "ids_below n s'"
proof -
  obtain k num where k: "k \<le> n" "nIDCounter s = 10000 + of_nat k" "inj_on num (set (m_deqConnections s))"
    "\<forall>p \<in> set (m_deqConnections s). num p < k \<and> conn_id (objects s ! the p) = 10000 + of_nat (num p)"
    using assms(1) by (auto simp: ids_below_def)
  note sv = servedD [OF assms(3)]
  have "num p < k \<and> conn_id (objects s' ! the p) = 10000 + of_nat (num p)"
    if p: "p \<in> set (m_deqConnections s')" for p
  proof -
    have "p \<in> set (m_deqConnections s)" using p sv(4) by blast
    moreover from this have "the p < length (objects s)"
      using assms(2) by (auto simp: refs_ok_def list_all_iff valid_ref_def)
    ultimately show ?thesis using k(4) posts_fields(1) [OF sv(3)] by simp
  qed
  moreover have "inj_on num (set (m_deqConnections s'))" using k(3) sv(4) by (rule inj_on_subset)
  moreover have "nIDCounter s' = 10000 + of_nat k" using k(2) sv(6) by simp
  ultimately show ?thesis using k(1) unfolding ids_below_def by blast
qed

lemma server_ok_served:
  assumes "server_ok cd s" "served s s'"
  shows "server_ok cd s'"
proof -
  note sv = servedD [OF assms(2)]
  have c: "conn_ok cd (objects s' ! r) \<and> self (objects s' ! r) = r \<and> m_nOwnerType (objects s' ! r) = Owner_server"
    if "r < length (objects s)" for r
    using that assms(1) conn_ok_posts [OF _ sv(3) [OF that]] posts_fields(3,4) [OF sv(3) [OF that]]
    by (auto simp: server_ok_def list_all_length)
  with assms sv(1) show ?thesis
    using refs_ok_served [OF _ assms(2)] ids_below_served [OF _ _ assms(2)]
    by (simp add: server_ok_def list_all_length)
qed

text \<open>Fields the invariant does not mention.\<close>

lemma server_ok_fields [simp]:
  "server_ok cd (s\<lparr>accepts := a\<rparr>) = server_ok cd s" "server_ok cd (s\<lparr>ctx_stopped := b\<rparr>) = server_ok cd s"
  "server_ok cd (s\<lparr>thread_joinable := b\<rparr>) = server_ok cd s" "server_ok cd (say l s) = server_ok cd s"
  by (simp_all add: server_ok_def refs_ok_def ids_below_def valid_ref_def say_def list_all_iff)

lemma server_ok_queue:
  "server_ok cd s \<Longrightarrow> list_all (\<lambda>om. valid_ref s (remote om)) (deqQueue q) \<Longrightarrow>
   server_ok cd (s\<lparr>m_qMessagesIn := q\<rparr>)"
  by (simp add: server_ok_def refs_ok_def ids_below_def valid_ref_def list_all_iff)

lemma server_ok_valid: "server_ok cd s \<Longrightarrow> p \<in> set (m_deqConnections s) \<Longrightarrow> valid_ref s p"
  by (simp add: server_ok_def refs_ok_def list_all_iff)

lemma server_ok_obj:
  assumes "server_ok cd s" "r < length (objects s)"
  shows "conn_ok cd (objects s ! r)" "self (objects s ! r) = r" "m_nOwnerType (objects s ! r) = Owner_server"
  using assms by (auto simp: server_ok_def list_all_length)

text \<open>A new connection, and its approval.\<close>

definition with_new :: "'t \<Rightarrow> 't server \<Rightarrow> 't server" where
  "with_new z s = s\<lparr>objects := objects s @ [new_connection (length (objects s)) Owner_server True z]\<rparr>"

lemma server_ok_new:
  assumes "server_ok cd s"
  shows "server_ok cd (with_new z s)" "ids_below (length (objects s)) (with_new z s)"
proof -
  have v: "valid_ref s p \<Longrightarrow> valid_ref (with_new z s) p" for p by (auto simp: valid_ref_def with_new_def)
  have at: "valid_ref s p \<Longrightarrow> objects (with_new z s) ! the p = objects s ! the p" for p
    by (auto simp: valid_ref_def with_new_def nth_append)
  have rf: "refs_ok (with_new z s)"
    using assms v by (auto simp: server_ok_def refs_ok_def list_all_iff with_new_def)
  have "conn_id (objects (with_new z s) ! the p) = conn_id (objects s ! the p)"
    if "p \<in> set (m_deqConnections s)" for p
    using at server_ok_valid [OF assms that] by simp
  then show ids: "ids_below (length (objects s)) (with_new z s)"
    using assms by (fastforce simp: server_ok_def ids_below_def with_new_def)
  then have "ids_below (length (objects (with_new z s))) (with_new z s)"
    by (rule ids_below_mono) (simp add: with_new_def)
  moreover have "conn_ok cd (objects (with_new z s) ! r) \<and> self (objects (with_new z s) ! r) = r \<and>
      m_nOwnerType (objects (with_new z s) ! r) = Owner_server" if "r < Suc (length (objects s))" for r
    using that server_ok_obj [OF assms] conn_ok_new
    by (cases "r = length (objects s)") (auto simp: with_new_def nth_append new_connection_def)
  ultimately show "server_ok cd (with_new z s)"
    using rf unfolding server_ok_def list_all_length by (simp add: with_new_def)
qed

definition approve :: "nat \<Rightarrow> 't server \<Rightarrow> 't server" where
  "approve r s = s\<lparr>m_deqConnections := m_deqConnections s @ [Some r], nIDCounter := nIDCounter s + 1,
     objects := (objects s)[r := ConnectToClient (nIDCounter s) (objects s ! r)]\<rparr>"

lemma server_ok_approve:
  assumes ok: "server_ok cd s" and r: "r < length (objects s)" "sock_open (objects s ! r)"
    "Some r \<notin> set (m_deqConnections s)" and ids: "ids_below n s" "n < length (objects s)"
  shows "server_ok cd (approve r s)"
proof -
  let ?c = "ConnectToClient (nIDCounter s) (objects s ! r)"
  have c: "conn_ok cd ?c" using server_ok_obj(1) [OF ok r(1)] by (rule conn_ok_begin)
  have c': "self ?c = r" "m_nOwnerType ?c = Owner_server" "conn_id ?c = nIDCounter s"
    using server_ok_obj(2,3) [OF ok r(1)] r(2) by (auto simp: ConnectToClient_def ReadHeader_def)
  obtain k num where k: "k \<le> n" "nIDCounter s = 10000 + of_nat k" "inj_on num (set (m_deqConnections s))"
    "\<forall>p \<in> set (m_deqConnections s). num p < k \<and> conn_id (objects s ! the p) = 10000 + of_nat (num p)"
    using ids(1) by (auto simp: ids_below_def)
  let ?num = "num(Some r := k)"
  have ne: "the p \<noteq> r" if "p \<in> set (m_deqConnections s)" for p
    using server_ok_valid [OF ok that] that r(3) by (auto simp: valid_ref_def)
  have "inj_on ?num (set (m_deqConnections (approve r s)))"
    using k(3,4) r(3) by (auto simp: approve_def inj_on_def)
  moreover have "\<forall>p \<in> set (m_deqConnections (approve r s)).
      ?num p < Suc k \<and> conn_id (objects (approve r s) ! the p) = 10000 + of_nat (?num p)"
    using k(2,4) ne c'(3) r by (auto simp: approve_def nth_list_update less_SucI)
  moreover have "nIDCounter (approve r s) = 10000 + of_nat (Suc k)" using k(2) by (simp add: approve_def)
  moreover have "Suc k \<le> length (objects (approve r s))" using k(1) ids(2) by (simp add: approve_def)
  ultimately have i: "ids_below (length (objects (approve r s))) (approve r s)"
    unfolding ids_below_def by blast
  have "conn_ok cd (objects (approve r s) ! q) \<and> self (objects (approve r s) ! q) = q \<and>
      m_nOwnerType (objects (approve r s) ! q) = Owner_server" if "q < length (objects s)" for q
    using that server_ok_obj [OF ok that] c c' by (cases "q = r") (simp_all add: approve_def)
  moreover have "refs_ok (approve r s)"
    using ok r by (auto simp: server_ok_def refs_ok_def approve_def list_all_iff valid_ref_def)
  ultimately show ?thesis using i unfolding server_ok_def list_all_length by (simp add: approve_def)
qed

lemma server_ok_event:
  assumes ok: "server_ok cd s" and r: "r < length (objects s)" and p: "p \<in> set (pending (objects s ! r))"
    and ac: "asio_contract cd p ec bs" and live: "referenced s r"
  shows "\<exists>s'. connection_event cd r p ec bs s = Inr s' \<and> server_ok cd s'"
proof -
  note ob = server_ok_obj [OF ok r]
  obtain c q where cq: "complete_op cd p ec bs (objects s ! r) (m_qMessagesIn s) = Inr (c, q)" "conn_ok cd c"
    using conn_ok_complete [OF ob(1) p ac] by blast
  from complete_op_frame [OF cq(1)] ob have c: "self c = r" "m_nOwnerType c = Owner_server"
    "conn_id c = conn_id (objects s ! r)"
    and q: "q = m_qMessagesIn s \<or> (\<exists>m. deqQueue q = deqQueue (m_qMessagesIn s) @ [\<lparr>remote = Some r, msg = m\<rparr>])"
    by auto
  let ?s = "s\<lparr>objects := (objects s)[r := c]\<rparr>"
  have v: "valid_ref ?s = valid_ref s" by (rule valid_ref_cong) simp
  have "conn_ok cd (objects ?s ! i) \<and> self (objects ?s ! i) = i \<and> m_nOwnerType (objects ?s ! i) = Owner_server"
    if "i < length (objects s)" for i
    using that server_ok_obj [OF ok that] c cq(2) by (cases "i = r") simp_all
  moreover have "conn_id (objects ?s ! i) = conn_id (objects s ! i)" for i
    using c(3) r by (cases "i = r") simp_all
  then have "ids_below n ?s = ids_below n s" for n by (simp add: ids_below_def)
  moreover have "refs_ok ?s = refs_ok s" using v by (simp add: refs_ok_def)
  ultimately have "server_ok cd ?s" using ok by (simp add: server_ok_def list_all_length)
  moreover have "list_all (\<lambda>om. valid_ref ?s (remote om)) (deqQueue q)"
    using q ok r unfolding v by (auto simp: server_ok_def refs_ok_def list_all_iff valid_ref_def)
  ultimately have "server_ok cd (?s\<lparr>m_qMessagesIn := q\<rparr>)" by (rule server_ok_queue)
  then show ?thesis using live cq(1) by (simp add: connection_event_def)
qed

lemma accept_approved:
  assumes "peer = Some address" "\<not> failed ec"
    and "OnClientConnect cb (Some (length (objects s)))
      (with_new z (say (''[SERVER] New Connection: '' @ address) s)) = Inr (True, s3)"
    and "length (objects s) < length (objects s3)"
  shows "accept_handler cb describe z ec peer s = Inr (WaitForClientConnection
    (say (''['' @ show_nat (unat (GetID (objects (approve (length (objects s)) s3) ! length (objects s)))) @
      ''] Connection Approved'') (approve (length (objects s)) s3)))"
  using assms
  by (simp add: accept_handler_def Let_def with_new_def approve_def invoke_def deref_def)

lemma posts_update: "list_all2 posts os (os[i := Send m (os ! i)])"
proof -
  have "posts (os ! j) (os[i := Send m (os ! i)] ! j)" if "j < length os" for j
    using that by (cases "j = i") simp_all
  then show ?thesis by (simp add: list_all2_conv_all_nth)
qed

lemma objects_post_fold: "list_all2 posts os (fold (send_to m ign) ps os)"
proof (induction ps arbitrary: os)
  case Nil
  then show ?case by (simp add: list_all2_refl)
next
  case (Cons p ps)
  have "list_all2 posts os (send_to m ign p os)"
    by (simp add: send_to_def posts_update list_all2_refl)
  with Cons [of "send_to m ign p os"] show ?case
    using list_all2_trans [of posts posts posts] posts_trans by fastforce
qed

definition server_side :: "'t codec \<Rightarrow> fault + 't server \<Rightarrow> bool" where
  "server_side cd r \<longleftrightarrow> (case r of Inl f \<Rightarrow> f \<in> {Use_after_free, Terminate} | Inr s \<Rightarrow> server_ok cd s)"

lemma server_side_simps [simp]:
  "server_side cd (Inl f) \<longleftrightarrow> f = Use_after_free \<or> f = Terminate"
  "server_side cd (Inr s) \<longleftrightarrow> server_ok cd s"
  by (auto simp: server_side_def)

lemma server_ok_init: "server_ok cd new_server"
  unfolding server_ok_def ids_below_def
  by (auto simp: new_server_def refs_ok_def new_tsqueue_def intro!: exI [of _ 0])

context server_callbacks
begin

lemma connect_served:
  assumes "refs_ok s" "valid_ref s p"
  shows "\<exists>ok s'. OnClientConnect cb p s = Inr (ok, s') \<and> served s s' \<and>
    m_deqConnections s' = m_deqConnections s"
  using connect_posts [OF assms] by (fastforce simp: served_def)

lemma accept_ok:
  assumes ok: "server_ok cd s"
  shows "server_side cd (accept_handler cb describe z ec peer s)"
proof (cases "failed ec \<or> peer = None")
  case True
  then show ?thesis using ok by (auto simp: accept_handler_def WaitForClientConnection_def)
next
  case False
  then obtain address where a: "peer = Some address" "\<not> failed ec" by auto
  let ?s1 = "say (''[SERVER] New Connection: '' @ address) s" and ?r = "length (objects s)"
  let ?s2 = "with_new z ?s1"
  have ok1: "server_ok cd ?s1" using ok by simp
  note ok2 = server_ok_new [OF ok1, of z]
  have len: "length (objects ?s1) = ?r" "length (objects ?s2) = Suc ?r" by (simp_all add: say_def with_new_def)
  have fresh: "Some ?r \<notin> set (m_deqConnections ?s2)"
    using server_ok_valid [OF ok1, of "Some ?r"] by (auto simp: with_new_def valid_ref_def say_def)
  have refs2: "refs_ok ?s2" using ok2(1) by (simp add: server_ok_def)
  obtain b s3 where s3: "OnClientConnect cb (Some ?r) ?s2 = Inr (b, s3)" "served ?s2 s3"
      "m_deqConnections s3 = m_deqConnections ?s2"
    using connect_served [OF refs2, of "Some ?r"] len by (auto simp: valid_ref_def)
  note sv = servedD [OF s3(2)]
  have ok3: "server_ok cd s3" using ok2(1) s3(2) by (rule server_ok_served)
  show ?thesis
  proof (cases b)
    case True
    have "sock_open (objects ?s2 ! ?r)" by (simp add: with_new_def say_def nth_append new_connection_def)
    then have "sock_open (objects s3 ! ?r)" using posts_fields(2) [OF sv(3), of ?r] len by simp
    moreover have "ids_below ?r s3" using ids_below_served [OF ok2(2) refs2 s3(2)] len by simp
    ultimately have "server_ok cd (approve ?r s3)"
      using server_ok_approve [OF ok3, of ?r ?r] sv(1) len fresh s3(3) by simp
    then have "server_ok cd (WaitForClientConnection (say l (approve ?r s3)))" for l
      by (simp add: WaitForClientConnection_def)
    moreover have "accept_handler cb describe z ec peer s = Inr (WaitForClientConnection
        (say (''['' @ show_nat (unat (GetID (objects (approve ?r s3) ! ?r))) @ ''] Connection Approved'')
          (approve ?r s3)))"
    proof (rule accept_approved [OF a])
      show "OnClientConnect cb (Some ?r) ?s2 = Inr (True, s3)" using s3(1) True by simp
      show "?r < length (objects s3)" using sv(1) len by simp
    qed
    ultimately show ?thesis by simp
  next
    case denied: False
    then show ?thesis
      using a s3(1) ok3 len
      by (simp add: accept_handler_def Let_def with_new_def WaitForClientConnection_def)
  qed
qed

lemma process_ok:
  assumes ok: "server_ok cd s" and ne: "deqQueue (m_qMessagesIn s) \<noteq> []"
  shows "\<exists>s'. update_round cb s = Inr s' \<and> server_ok cd s'"
proof -
  obtain om rest where q: "deqQueue (m_qMessagesIn s) = om # rest" using ne by (cases "deqQueue (m_qMessagesIn s)") auto
  let ?s = "s\<lparr>m_qMessagesIn := (m_qMessagesIn s)\<lparr>deqQueue := rest\<rparr>\<rparr>"
  have v: "valid_ref s (remote om)" "list_all (\<lambda>om. valid_ref s (remote om)) rest"
    using ok q by (simp_all add: server_ok_def refs_ok_def)
  have ok1: "server_ok cd ?s" using server_ok_queue [OF ok] v(2) by simp
  then have "refs_ok ?s" by (simp add: server_ok_def)
  moreover have "valid_ref ?s (remote om)" using v(1) valid_ref_cong [of ?s s] by simp
  ultimately obtain s' where s': "OnMessage cb (remote om) (msg om) ?s = Inr s'" "same_rest ?s s'"
      "objects_post ?s s'" "subseq (m_deqConnections s') (m_deqConnections ?s)"
    using message_serves by blast
  then have "server_ok cd s'" using server_ok_served [OF ok1] by (simp add: served_def)
  then show ?thesis using s'(1) by (simp add: update_round_def pop_front_Cons [OF q])
qed

lemma MessageAllClients_served:
  assumes "refs_ok s"
  shows "\<exists>s'. MessageAllClients cb m ign s = Inr s' \<and> served s s'"
  using MessageAllClients_run [of s m ign] assms objects_post_fold
  by (fastforce simp: refs_ok_def served_def objects_post_def)

lemma MessageClient_served:
  assumes "refs_ok s" "valid_ref s p"
  shows "\<exists>s'. MessageClient cb p m s = Inr s' \<and> served s s'"
proof (cases "IsConnected (objects s ! the p)")
  case True
  with MessageClient_alive [OF assms(2) True, of m] show ?thesis
    by (simp add: served_def objects_post_def same_rest_def posts_update)
next
  case False
  with MessageClient_dead [of s p m] assms show ?thesis
    by (fastforce simp: refs_ok_def served_def objects_post_def list_all2_refl)
qed

lemma server_side_step:
  assumes "server_side cd r" "server_step cb describe z cd r r'"
  shows "server_side cd r'"
  using assms(2)
proof cases
  case (start s thread_error)
  with assms(1) show ?thesis
    by (auto simp: Start_def WaitForClientConnection_def Let_def split: option.splits)
next
  case (stop s)
  with assms(1) show ?thesis by (simp add: Stop_def Let_def)
next
  case (accept s ec peer)
  with assms(1) accept_ok [of cd "s\<lparr>accepts := accepts s - 1\<rparr>"] show ?thesis by simp
next
  case (event s q p ec bs)
  with assms(1) server_ok_event [of cd s q p ec bs] show ?thesis
    by (cases "referenced s q") (auto simp: connection_event_def)
next
  case (process s)
  with assms(1) process_ok [of cd s] show ?thesis by auto
next
  case (message_one p s m)
  then have ok: "server_ok cd s" "valid_ref s p" using assms(1) server_ok_valid by auto
  then have "refs_ok s" by (simp add: server_ok_def)
  with message_one MessageClient_served [of s p m] server_ok_served [OF ok(1)] ok(2) show ?thesis by auto
next
  case (message_all s m ign)
  then have ok: "server_ok cd s" using assms(1) by simp
  then have "refs_ok s" by (simp add: server_ok_def)
  with message_all MessageAllClients_served [of s m ign] server_ok_served [OF ok] show ?thesis by auto
qed

end

sublocale server_callbacks \<subseteq> safety: invariant_system "\<lambda>r. r = Inr new_server"
    "server_step cb describe z cd" "server_side cd" for describe z cd
  by unfold_locales (auto intro: server_side_step server_ok_init)

context server_callbacks
begin

lemma reachable_side: "server_reachable cb describe z cd r \<Longrightarrow> server_side cd r"
  using safety.inv_reachable unfolding server_reachable_def by blast

end

lemma server_reachable_step:
  "server_reachable cb describe z cd r \<Longrightarrow> server_step cb describe z cd r r' \<Longrightarrow>
   server_reachable cb describe z cd r'"
  unfolding server_reachable_def by (rule rtranclp.rtrancl_into_rtrancl)

lemma server_reachable_init: "server_reachable cb describe z cd (Inr new_server)"
  by (simp add: server_reachable_def)

text \<open>Fewer than \<open>2 ^ 32\<close> approvals: the identifiers did not wrap around.\<close>

lemma ids_below_distinct:
  assumes "ids_below n s" "n \<le> 2 ^ 32" "distinct (m_deqConnections s)"
  shows "distinct (map (\<lambda>p. conn_id (objects s ! the p)) (m_deqConnections s))"
proof -
  obtain k num where k: "k \<le> n" "inj_on num (set (m_deqConnections s))"
    "\<forall>p \<in> set (m_deqConnections s). num p < k \<and> conn_id (objects s ! the p) = 10000 + of_nat (num p)"
    using assms(1) by (auto simp: ids_below_def)
  have "inj_on (\<lambda>p. conn_id (objects s ! the p)) (set (m_deqConnections s))"
  proof (rule inj_onI)
    fix p q
    assume pq: "p \<in> set (m_deqConnections s)" "q \<in> set (m_deqConnections s)"
      "conn_id (objects s ! the p) = conn_id (objects s ! the q)"
    then have "(of_nat (num p) :: u32) = of_nat (num q)" using k(3) by simp
    moreover have "num p < 2 ^ 32" "num q < 2 ^ 32" using k(1,3) pq assms(2) by fastforce+
    ultimately have "num p = num q" using unat_of_nat_u32 by metis
    with k(2) pq show "p = q" by (auto dest: inj_onD)
  qed
  then show ?thesis using assms(3) by (simp add: distinct_map)
qed

section \<open>Processing\<close>

text \<open>
  The steps of asio's thread: a client was accepted, or an operation of a connection was completed.
  \<open>asio_work\<close>: any number of them, each with any outcome.
\<close>

inductive asio_step :: "'t callbacks \<Rightarrow> (error_code \<Rightarrow> string) \<Rightarrow> 't \<Rightarrow> 't codec \<Rightarrow>
    fault + 't server \<Rightarrow> fault + 't server \<Rightarrow> bool" for cb describe z cd where
  accepted: "running s \<Longrightarrow> 0 < accepts s \<Longrightarrow>
    asio_step cb describe z cd (Inr s) (accept_handler cb describe z ec peer (s\<lparr>accepts := accepts s - 1\<rparr>))"
| completed: "running s \<Longrightarrow> r < length (objects s) \<Longrightarrow> p \<in> set (pending (objects s ! r)) \<Longrightarrow>
    asio_contract cd p ec bs \<Longrightarrow>
    asio_step cb describe z cd (Inr s) (connection_event cd r p ec bs s)"

definition asio_work :: "'t callbacks \<Rightarrow> (error_code \<Rightarrow> string) \<Rightarrow> 't \<Rightarrow> 't codec \<Rightarrow>
    ('t server \<Rightarrow> fault + 't server) \<Rightarrow> bool" where
  "asio_work cb describe z cd f \<longleftrightarrow> (\<forall>s. (asio_step cb describe z cd)\<^sup>*\<^sup>* (Inr s) (f s))"

text \<open>
  What a run of the loop of \<open>Update\<close> hands over: the messages \<open>OnMessage\<close> was called with, each on the
  connection it came from, and the messages asio's thread queued meanwhile. Asio's thread has its turn
  before each look at the queue, as in \<open>update_loop\<close>.
\<close>

abbreviation queued :: "'t server \<Rightarrow> 't owned_message list" where
  "queued s \<equiv> deqQueue (m_qMessagesIn s)"

definition brought :: "'t server \<Rightarrow> 't server \<Rightarrow> 't owned_message list" where
  "brought s t = drop (length (queued s)) (queued t)"

inductive hands_over :: "'t callbacks \<Rightarrow> (nat \<Rightarrow> 't server \<Rightarrow> fault + 't server) \<Rightarrow> nat \<Rightarrow>
    't owned_message list \<Rightarrow> 't owned_message list \<Rightarrow> 't server \<Rightarrow> 't server \<Rightarrow> bool" for cb asio_thread where
  limit: "hands_over cb asio_thread n [] [] s s"
| empty: "asio_thread n s = Inr t \<Longrightarrow> queued t = [] \<Longrightarrow> hands_over cb asio_thread n [] (brought s t) s t"
| handed: "asio_thread n s = Inr s1 \<Longrightarrow> queued s1 = om # rest \<Longrightarrow>
    OnMessage cb (remote om) (msg om) (s1\<lparr>m_qMessagesIn := (m_qMessagesIn s1)\<lparr>deqQueue := rest\<rparr>\<rparr>) = Inr s2 \<Longrightarrow>
    hands_over cb asio_thread (Suc n) handed news s2 t \<Longrightarrow>
    hands_over cb asio_thread n (om # handed) (brought s s1 @ news) s t"

lemma asio_step_server_step: "asio_step cb describe z cd r r' \<Longrightarrow> server_step cb describe z cd r r'"
  by (erule asio_step.cases) (hypsubst, rule server_step.accept server_step.event; assumption)+

lemma connection_event_queue:
  assumes "connection_event cd r p ec bs s = Inr t"
  shows "prefix (queued s) (queued t)"
proof -
  obtain c q where cq: "complete_op cd p ec bs (objects s ! r) (m_qMessagesIn s) = Inr (c, q)"
    "t = s\<lparr>objects := (objects s)[r := c], m_qMessagesIn := q\<rparr>"
    using assms by (auto simp: connection_event_def rbind_Inr_iff split: if_splits)
  from complete_op_frame [OF cq(1)] show ?thesis by (auto simp: cq(2))
qed

lemma same_queue: "same_rest s t \<Longrightarrow> m_qMessagesIn t = m_qMessagesIn s"
  by (simp add: same_rest_def)

context server_callbacks
begin

lemma accept_queue:
  assumes ok: "server_ok cd s" and acc: "accept_handler cb describe z ec peer s = Inr t"
  shows "m_qMessagesIn t = m_qMessagesIn s"
proof (cases "failed ec \<or> peer = None")
  case True
  with acc show ?thesis by (cases "failed ec") (auto simp: accept_handler_def WaitForClientConnection_def say_def)
next
  case False
  then obtain address where a: "peer = Some address" "\<not> failed ec" by auto
  let ?s1 = "say (''[SERVER] New Connection: '' @ address) s" and ?r = "length (objects s)"
  let ?s2 = "with_new z ?s1"
  have ok1: "server_ok cd ?s1" using ok by simp
  have "refs_ok ?s2" using server_ok_new(1) [OF ok1, of z] by (simp add: server_ok_def)
  moreover have "valid_ref ?s2 (Some ?r)" by (simp add: valid_ref_def with_new_def say_def)
  ultimately obtain b s3 where s3: "OnClientConnect cb (Some ?r) ?s2 = Inr (b, s3)" "served ?s2 s3"
    using connect_served by blast
  have q: "m_qMessagesIn s3 = m_qMessagesIn s" using servedD(7) [OF s3(2)] by (simp add: with_new_def say_def)
  have len: "?r < length (objects s3)" using servedD(1) [OF s3(2)] by (simp add: with_new_def say_def)
  show ?thesis
  proof (cases b)
    case True
    then have s3': "OnClientConnect cb (Some ?r) ?s2 = Inr (True, s3)" using s3(1) by simp
    from accept_approved [OF a s3' len, of describe] acc q show ?thesis
      by (auto simp: WaitForClientConnection_def say_def approve_def)
  next
    case False
    with acc a s3(1) q show ?thesis
      by (auto simp: accept_handler_def Let_def with_new_def WaitForClientConnection_def say_def)
  qed
qed

lemma asio_step_queue:
  assumes "asio_step cb describe z cd (Inr s) (Inr t)" "server_ok cd s"
  shows "server_ok cd t \<and> prefix (queued s) (queued t)"
proof -
  have "server_ok cd t" using server_side_step [OF _ asio_step_server_step [OF assms(1)]] assms(2) by simp
  moreover from assms(1) have "prefix (queued s) (queued t)"
  proof cases
    case (accepted ec peer)
    from accept_queue [OF _ accepted(1) [symmetric]] assms(2) show ?thesis by simp
  next
    case (completed r p ec bs)
    from connection_event_queue [OF completed(1) [symmetric]] show ?thesis .
  qed
  ultimately show ?thesis ..
qed

lemma asio_steps_queue:
  assumes "(asio_step cb describe z cd)\<^sup>*\<^sup>* (Inr s) r" "server_ok cd s"
  shows "case r of Inl f \<Rightarrow> f \<in> {Use_after_free, Terminate} | Inr t \<Rightarrow> server_ok cd t \<and> prefix (queued s) (queued t)"
  using assms(1)
proof induction
  case base
  then show ?case using assms(2) by simp
next
  case (step r r')
  obtain u where u: "r = Inr u" using step.hyps(2) by (auto elim: asio_step.cases)
  then have uok: "server_ok cd u" "prefix (queued s) (queued u)" using step.IH by simp_all
  show ?case
  proof (cases r')
    case (Inl f)
    then show ?thesis using server_side_step [OF _ asio_step_server_step [OF step.hyps(2)]] u uok(1) by auto
  next
    case (Inr t)
    with asio_step_queue [of describe z cd u t] step.hyps(2) u uok show ?thesis
      by (auto intro: prefix_order.trans)
  qed
qed

lemma asio_work_Inr:
  assumes "asio_work cb describe z cd f" "server_ok cd s" "f s = Inr t"
  shows "server_ok cd t" "queued t = queued s @ brought s t"
  using asio_steps_queue [OF assms(1) [unfolded asio_work_def, rule_format] assms(2)] assms(3)
  by (auto simp: brought_def elim!: prefixE)

lemma asio_work_Inl:
  assumes "asio_work cb describe z cd f" "server_ok cd s" "f s = Inl e"
  shows "e \<in> {Use_after_free, Terminate}"
  using asio_steps_queue [OF assms(1) [unfolded asio_work_def, rule_format] assms(2)] assms(3) by simp

lemma process_queue:
  assumes "server_ok cd s" "queued s = om # rest"
  shows "\<exists>s'. update_round cb s = Inr s' \<and> server_ok cd s' \<and> queued s' = rest \<and>
    OnMessage cb (remote om) (msg om) (s\<lparr>m_qMessagesIn := (m_qMessagesIn s)\<lparr>deqQueue := rest\<rparr>\<rparr>) = Inr s'"
proof -
  let ?s = "s\<lparr>m_qMessagesIn := (m_qMessagesIn s)\<lparr>deqQueue := rest\<rparr>\<rparr>"
  have "list_all (\<lambda>om. valid_ref s (remote om)) rest" using assms by (simp add: server_ok_def refs_ok_def)
  then have ok1: "server_ok cd ?s" using server_ok_queue [OF assms(1)] by simp
  then have "refs_ok ?s" by (simp add: server_ok_def)
  moreover have "valid_ref ?s (remote om)"
    using assms valid_ref_cong [of ?s s] by (simp add: server_ok_def refs_ok_def)
  ultimately obtain s' where s': "OnMessage cb (remote om) (msg om) ?s = Inr s'" "served ?s s'"
    using message_serves [of ?s "remote om" "msg om"] by (auto simp: served_def)
  then show ?thesis using server_ok_served [OF ok1 s'(2)] servedD(7) [OF s'(2)] assms(2)
    by (simp add: update_round_def pop_front_Cons [OF assms(2)])
qed

text \<open>The loop, by the rounds it has left.\<close>

lemma update_loop_hands_over:
  assumes "server_ok cd s" "\<And>n. asio_work cb describe z cd (asio_thread n)"
  shows "case update_loop cb asio_thread nMax i s of
      Inl f \<Rightarrow> f \<in> {Use_after_free, Terminate} \<and> (\<exists>n u. asio_thread n u = Inl f)
    | Inr t \<Rightarrow> server_ok cd t \<and> (\<exists>handed news. hands_over cb asio_thread (unat i) handed news s t \<and>
        queued s @ news = handed @ queued t \<and> length handed \<le> unat nMax - unat i \<and>
        (length handed = unat nMax - unat i \<or> queued t = []) \<and> (queued s \<noteq> [] \<and> i < nMax \<longrightarrow> handed \<noteq> []))"
  using assms(1)
proof (induction "unat nMax - unat i" arbitrary: i s rule: less_induct)
  case less
  show ?case
  proof (cases "i < nMax")
    case False
    then show ?thesis using less.prems hands_over.limit [of cb asio_thread "unat i" s]
      by (subst update_loop.simps) (auto simp: word_less_nat_alt intro!: exI [of _ "[]"])
  next
    case True
    then have n: "unat nMax - unat i = Suc (unat nMax - unat (i + 1))" and u: "unat (i + 1) = Suc (unat i)"
      using unat_plus_1_less [OF True] by (simp_all add: word_less_nat_alt)
    show ?thesis
    proof (cases "asio_thread (unat i) s")
      case (Inl f)
      then show ?thesis using True asio_work_Inl [OF assms(2) less.prems Inl] by (subst update_loop.simps) auto
    next
      case (Inr s1)
      note s1 = asio_work_Inr [OF assms(2) less.prems Inr]
      show ?thesis
      proof (cases "queued s1")
        case Nil
        then show ?thesis using True Inr s1 hands_over.empty [of asio_thread "unat i" s s1 cb, OF Inr Nil]
          by (subst update_loop.simps) (auto intro!: exI [of _ "[]"])
      next
        case (Cons om rest)
        from process_queue [OF s1(1) Cons] obtain s2 where s2: "update_round cb s1 = Inr s2" "server_ok cd s2"
          "queued s2 = rest"
          "OnMessage cb (remote om) (msg om) (s1\<lparr>m_qMessagesIn := (m_qMessagesIn s1)\<lparr>deqQueue := rest\<rparr>\<rparr>) = Inr s2"
          by blast
        have loop: "update_loop cb asio_thread nMax i s = update_loop cb asio_thread nMax (i + 1) s2"
          using True Inr Cons s2(1) by (subst update_loop.simps) simp
        show ?thesis
        proof (cases "update_loop cb asio_thread nMax (i + 1) s2")
          case (Inl f)
          then show ?thesis using less.hyps [of "i + 1" s2] n s2(2) by (simp add: loop)
        next
          case t: (Inr t)
          then obtain handed news where h: "hands_over cb asio_thread (Suc (unat i)) handed news s2 t"
            "queued s2 @ news = handed @ queued t" "length handed \<le> unat nMax - unat (i + 1)"
            "length handed = unat nMax - unat (i + 1) \<or> queued t = []" "server_ok cd t"
            using less.hyps [of "i + 1" s2] n s2(2) by (auto simp: u)
          from hands_over.handed [OF Inr Cons s2(4) h(1)]
          have "hands_over cb asio_thread (unat i) (om # handed) (brought s s1 @ news) s t" .
          moreover have "queued s @ brought s s1 @ news = (om # handed) @ queued t"
            using s1(2) Cons h(2) s2(3) by (metis append_Cons append_assoc)
          ultimately show ?thesis unfolding loop t sum.case using h(3-5) n
            by (intro conjI exI [of _ "om # handed"] exI [of _ "brought s s1 @ news"]) auto
        qed
      qed
    qed
  qed
qed

end

end
