(* ===== verification/Custom_Server.thy ===== *)
theory Custom_Server
  imports Net_Server
begin

text \<open>
  The server program \<open>src/one_lone_coder/simple_server.cpp\<close>: its message types (shared with the
  client), the three callbacks of \<open>CustomServer\<close>, its main loop, the interpretation of the
  callbacks' contract on them, and the properties of the server as this program instantiates it.
\<close>

section \<open>Message types\<close>

text \<open>An \<open>enum class : uint32_t\<close>; a header read from the network may hold any other value.\<close>

definition ServerAccept :: u32 where "ServerAccept = 0"
definition ServerDeny :: u32 where "ServerDeny = 1"
definition ServerPing :: u32 where "ServerPing = 2"
definition MessageAll :: u32 where "MessageAll = 3"
definition ServerMessage :: u32 where "ServerMessage = 4"

lemmas msg_type_defs =
  ServerAccept_def ServerDeny_def ServerPing_def MessageAll_def ServerMessage_def

section \<open>CustomServer\<close>

definition accept_message :: "u32 message" where
  "accept_message = new_message ServerAccept"

definition custom_OnClientConnect :: "nat option \<Rightarrow> u32 server \<Rightarrow> fault + bool \<times> u32 server" where
  "custom_OnClientConnect client s =
     rbind (invoke client (Send accept_message) s) (\<lambda>s'. Inr (True, s'))"

definition custom_OnClientDisconnect :: "nat option \<Rightarrow> u32 server \<Rightarrow> fault + u32 server" where
  "custom_OnClientDisconnect client s =
     rbind (deref client s) (\<lambda>c.
       Inr (say (''Removing client ['' @ show_nat (unat (GetID c)) @ '']'') s))"

text \<open>The callbacks \<open>MessageAllClients\<close> dispatches to; it calls no \<open>OnMessage\<close>.\<close>

definition custom_dispatch :: "u32 callbacks" where
  "custom_dispatch = base_callbacks\<lparr>OnClientConnect := custom_OnClientConnect,
     OnClientDisconnect := custom_OnClientDisconnect\<rparr>"

definition server_message :: "u32 \<Rightarrow> u32 message" where
  "server_message clientID = push_data (new_message ServerMessage) (u32_bytes clientID)"

definition custom_OnMessage :: "nat option \<Rightarrow> u32 message \<Rightarrow> u32 server \<Rightarrow> fault + u32 server" where
  "custom_OnMessage client m s =
     (if hdr_id (header m) = ServerPing
      then rbind (deref client s) (\<lambda>c.
             invoke client (Send m) (say (''['' @ show_nat (unat (GetID c)) @ '']: Server Ping'') s))
      else if hdr_id (header m) = MessageAll
      then rbind (deref client s) (\<lambda>c.
             let s1 = say (''['' @ show_nat (unat (GetID c)) @ '']: Message All'') s
             in MessageAllClients custom_dispatch (server_message (GetID c)) client s1)
      else Inr s)"

definition custom_callbacks :: "u32 callbacks" where
  "custom_callbacks = custom_dispatch\<lparr>OnMessage := custom_OnMessage\<rparr>"

lemma callbacks_sel [simp]:
  "OnClientConnect custom_dispatch = custom_OnClientConnect"
  "OnClientDisconnect custom_dispatch = custom_OnClientDisconnect"
  "OnMessage custom_dispatch = (\<lambda>client m s. Inr s)"
  "OnClientConnect custom_callbacks = custom_OnClientConnect"
  "OnClientDisconnect custom_callbacks = custom_OnClientDisconnect"
  "OnMessage custom_callbacks = custom_OnMessage"
  by (simp_all add: custom_callbacks_def custom_dispatch_def base_callbacks_def)


section \<open>The contract holds\<close>

lemma custom_connect_posts:
  assumes "valid_ref s p"
  shows "\<exists>ok s'. custom_OnClientConnect p s = Inr (ok, s') \<and> same_rest s s' \<and> objects_post s s' \<and>
    m_deqConnections s' = m_deqConnections s"
  using assms
  by (auto simp: custom_OnClientConnect_def invoke_valid same_rest_def objects_post_def posts_update)

lemma custom_disconnect_logs:
  assumes "valid_ref s p"
  shows "\<exists>s'. custom_OnClientDisconnect p s = Inr s' \<and> same_rest s s' \<and> objects s' = objects s \<and>
    m_deqConnections s' = m_deqConnections s"
  using assms by (simp add: custom_OnClientDisconnect_def deref_valid same_rest_def)

interpretation dispatch: server_callbacks custom_dispatch
  by unfold_locales (simp_all add: custom_connect_posts custom_disconnect_logs)

lemma refs_ok_say [simp]: "refs_ok (say l s) = refs_ok s" "valid_ref (say l s) = valid_ref s"
  by (auto simp: refs_ok_def valid_ref_def fun_eq_iff list_all_iff)

lemma custom_message_served:
  assumes "refs_ok s" "valid_ref s p"
  shows "\<exists>s'. custom_OnMessage p m s = Inr s' \<and> served s s'"
proof -
  have sv: "served (say l s) s' \<Longrightarrow> served s s'" for l s'
    by (simp add: served_def same_rest_def objects_post_def)
  let ?say = "\<lambda>l. say (''['' @ show_nat (unat (GetID (objects s ! the p))) @ l) s"
  consider "hdr_id (header m) = ServerPing" | "hdr_id (header m) = MessageAll"
    | "hdr_id (header m) \<noteq> ServerPing" "hdr_id (header m) \<noteq> MessageAll" by blast
  then show ?thesis
  proof cases
    case 1
    then show ?thesis using assms(2)
      by (simp add: custom_OnMessage_def deref_valid invoke_valid served_def same_rest_def
          objects_post_def posts_update)
  next
    case 2
    from dispatch.MessageAllClients_served [of "?say '']: Message All''" "server_message (GetID (objects s ! the p))" p]
    obtain s' where "MessageAllClients custom_dispatch (server_message (GetID (objects s ! the p))) p
        (?say '']: Message All'') = Inr s'" "served (?say '']: Message All'') s'"
      using assms(1) by auto
    with 2 sv assms(2) show ?thesis
      by (simp add: custom_OnMessage_def deref_valid ServerPing_def MessageAll_def)
  next
    case 3
    then show ?thesis by (simp add: custom_OnMessage_def served_def)
  qed
qed

interpretation custom_server: server_callbacks custom_callbacks
  using custom_message_served
  by unfold_locales (simp_all add: custom_connect_posts custom_disconnect_logs served_def)

section \<open>Concrete executions\<close>

datatype server_event =
    Sv_start
  | Sv_accept error_code "string option"
  | Sv_event nat "u32 op" error_code "byte list"
  | Sv_process

fun server_exec :: "server_event \<Rightarrow> u32 server \<Rightarrow> (fault + u32 server) option" where
  "server_exec Sv_start s = Some (rbind (Start None s) (\<lambda>(ok, s'). Inr s'))"
| "server_exec (Sv_accept ec peer) s =
     (if running s \<and> 0 < accepts s
      then Some (accept_handler custom_callbacks (\<lambda>_. []) 0 ec peer (s\<lparr>accepts := accepts s - 1\<rparr>))
      else None)"
| "server_exec (Sv_event r p ec bs) s =
     (if running s \<and> r < length (objects s) \<and> p \<in> set (pending (objects s ! r)) \<and>
         asio_contract custom_codec p ec bs
      then Some (connection_event custom_codec r p ec bs s) else None)"
| "server_exec Sv_process s =
     (if deqQueue (m_qMessagesIn s) \<noteq> [] then Some (update_round custom_callbacks s) else None)"

fun server_run :: "server_event list \<Rightarrow> fault + u32 server \<Rightarrow> (fault + u32 server) option" where
  "server_run [] r = Some r"
| "server_run (e # es) (Inl f) = None"
| "server_run (e # es) (Inr s) = (case server_exec e s of None \<Rightarrow> None | Some r \<Rightarrow> server_run es r)"

abbreviation custom_reachable :: "fault + u32 server \<Rightarrow> bool" where
  "custom_reachable \<equiv> server_reachable custom_callbacks (\<lambda>_. []) 0 custom_codec"

lemma server_exec_step:
  "server_exec e s = Some r \<Longrightarrow> server_step custom_callbacks (\<lambda>_. []) 0 custom_codec (Inr s) r"
  by (cases e) (auto split: if_splits intro: server_step.intros simp del: One_nat_def)

lemma server_run_reachable:
  "server_run es r = Some r' \<Longrightarrow> custom_reachable r \<Longrightarrow> custom_reachable r'"
proof (induction es r rule: server_run.induct)
  case (3 e es s)
  from "3.prems"(1) obtain v where v: "server_exec e s = Some v" "server_run es v = Some r'"
    by (auto split: option.splits)
  with "3.IH" [OF v] server_reachable_step [OF "3.prems"(2) server_exec_step [OF v(1)]] show ?case by blast
qed simp_all

text \<open>Two clients connect; the first one is sent its greeting.\<close>

definition two_clients :: "server_event list" where
  "two_clients =
     [Sv_start, Sv_accept no_error (Some ''a''), Sv_accept no_error (Some ''b''),
      Sv_event 0 (Send_task accept_message) no_error []]"

text \<open>
  The greeting of the first client fails and closes its socket. The second client asks for a message
  to all; the server finds the first one closed and drops it; its pending read is then aborted.
\<close>

definition dead_client :: "server_event list" where
  "dead_client =
     [Sv_event 0 (Write_header_op (header accept_message)) refused [],
      Sv_event 1 Read_header_op no_error [3, 0, 0, 0, 0, 0, 0, 0],
      Sv_process,
      Sv_event 0 Read_header_op refused []]"

definition after_run :: "server_event list \<Rightarrow> u32 server" where
  "after_run es = (case server_run es (Inr new_server) of Some (Inr s) \<Rightarrow> s | _ \<Rightarrow> new_server)"

lemma after_run_reachable: "custom_reachable (Inr (after_run es))"
  using server_run_reachable [OF _ server_reachable_init, of es]
  by (auto simp: after_run_def server_reachable_init split: option.split sum.split)

lemma accept_message_eq: "accept_message = \<lparr>header = \<lparr>hdr_id = 0, hdr_size = 0\<rparr>, body = []\<rparr>"
  by (simp add: accept_message_def new_message_def ServerAccept_def)

lemmas server_run_simps =
  new_server_def Start_def WaitForClientConnection_def say_def running_def
  accept_handler_def custom_OnClientConnect_def invoke_def deref_def new_connection_def connection_defs
  connection_event_def referenced_def complete_op_def handler_defs tsqueue_defs new_message_def
  accept_message_eq no_error_def failed_def

definition two_clients_end :: "u32 server" where
  "two_clients_end = after_run two_clients"

lemma two_clients_end_eq:
  "m_deqConnections two_clients_end = [Some 0, Some 1]"
  "map conn_id (objects two_clients_end) = [10000, 10001]"
  "map sock_open (objects two_clients_end) = [True, True]"
  "accepts two_clients_end = 1"
  by (simp_all add: two_clients_end_def after_run_def two_clients_def server_run_simps Let_def)

lemma dead_client_run: "server_run (two_clients @ dead_client) (Inr new_server) = Some (Inl Use_after_free)"
  by (simp add: two_clients_def dead_client_def server_run_simps Let_def refused_def hdr_bytes hdr_of_bytes
      update_round_def custom_OnMessage_def msg_type_defs MessageAllClients_def reachable_client_def
      custom_OnClientDisconnect_def erase_all_def server_message_def upt_rec)

lemma custom_reachable_ok: "custom_reachable (Inr s) \<Longrightarrow> server_ok custom_codec s"
  using custom_server.reachable_side [of "\<lambda>_. []" 0 custom_codec "Inr s"] by simp

lemma two_clients_reachable: "custom_reachable (Inr two_clients_end)"
  unfolding two_clients_end_def by (rule after_run_reachable)

lemma two_clients_refs: "refs_ok two_clients_end"
  using custom_reachable_ok [OF two_clients_reachable] by (simp add: server_ok_def)

lemma two_clients_objects: "length (objects two_clients_end) = 2"
  "IsConnected (objects two_clients_end ! 0)" "IsConnected (objects two_clients_end ! 1)"
  "conn_id (objects two_clients_end ! 0) = 10000" "conn_id (objects two_clients_end ! 1) = 10001"
proof -
  show l: "length (objects two_clients_end) = 2"
    using arg_cong [OF two_clients_end_eq(2), of length] by simp
  then obtain a b where ab: "objects two_clients_end = [a, b]"
    by (auto simp: numeral_2_eq_2 length_Suc_conv)
  with two_clients_end_eq(2,3) show "IsConnected (objects two_clients_end ! 0)"
    "IsConnected (objects two_clients_end ! 1)"
    "conn_id (objects two_clients_end ! 0) = 10000" "conn_id (objects two_clients_end ! 1) = 10001"
    by (simp_all add: IsConnected_def)
qed

section \<open>Properties\<close>



text \<open>
  The first of the two faults is real: when a client's write fails, its socket is closed and the
  next \<open>MessageAllClients\<close> drops the last pointer to the connection; the completion of its pending
  read then runs on the destroyed object.
\<close>

theorem server_use_after_free: "custom_reachable (Inl Use_after_free)"
  by (rule server_run_reachable [OF dead_client_run server_reachable_init])

text \<open>
  The second is real as well: a client that is gone before its accept handler runs makes
  \<open>remote_endpoint\<close> throw in asio's thread, where nothing catches the exception.
\<close>

theorem server_accept_terminates: "custom_reachable (Inl Terminate)"
proof -
  have "server_run [Sv_start, Sv_accept no_error None] (Inr new_server) = Some (Inl Terminate)"
    by (simp add: server_run_simps Let_def)
  from server_run_reachable [OF this server_reachable_init] show ?thesis .
qed

text \<open>
  C21: Every state the server reaches is well formed: each pointer in the deque and in the queued
  messages refers to a connection that exists, every connection knows itself and is owned by the
  server, and none has more than one write in flight, whatever the callbacks do within their contract.
\<close>

theorem server_well_formed:
  assumes "server_callbacks cb" "server_reachable cb describe z cd (Inr s)"
  shows "list_all (valid_ref s) (m_deqConnections s) \<and>
    list_all (\<lambda>om. valid_ref s (remote om)) (deqQueue (m_qMessagesIn s)) \<and>
    (\<forall>r < length (objects s). self (objects s ! r) = r \<and> m_nOwnerType (objects s ! r) = Owner_server \<and>
      length (filter is_write (pending (objects s ! r))) \<le> 1)"
proof -
  have ok: "server_ok cd s" using server_callbacks.reachable_side [OF assms] by simp
  have "length (filter is_write (pending c)) \<le> 1" if c: "conn_ok cd c" for c
  proof -
    from c obtain w where w: "lk w = c" "write_inv cd w" by (auto simp: conn_ok_def)
    then obtain sent where
      "write_ok cd (filter is_write (pending (lk w))) (deqQueue (m_qMessagesOut (lk w))) sent (wire_out w)"
      by (auto simp: write_inv_def)
    from write_ok_length [OF this] w(1) show ?thesis by simp
  qed
  with ok show ?thesis by (auto simp: server_ok_def refs_ok_def list_all_length)
qed

theorem server_well_formed_witness:
  "list_all (valid_ref two_clients_end) (m_deqConnections two_clients_end) \<and>
   self (objects two_clients_end ! 1) = 1 \<and> m_nOwnerType (objects two_clients_end ! 1) = Owner_server"
  using server_well_formed [OF custom_server.server_callbacks_axioms two_clients_reachable] two_clients_objects(1)
  by auto

text \<open>
  C22: As long as at most \<open>2^32\<close> connections were made, the connections in the deque have distinct
  identifiers, are distinct objects, and none is null.
\<close>

theorem server_unique_ids:
  assumes "server_callbacks cb" "server_reachable cb describe z cd (Inr s)"
    and "length (objects s) \<le> 2 ^ 32"
  shows "distinct (map (\<lambda>p. conn_id (objects s ! the p)) (m_deqConnections s)) \<and>
    distinct (m_deqConnections s) \<and> None \<notin> set (m_deqConnections s)"
proof -
  have "server_ok cd s" using server_callbacks.reachable_side [OF assms(1,2)] by simp
  then show ?thesis using ids_below_distinct [of "length (objects s)" s] assms(3)
    by (auto simp: server_ok_def refs_ok_def list_all_iff valid_ref_def)
qed

theorem server_unique_ids_witness:
  "distinct (map (\<lambda>p. conn_id (objects two_clients_end ! the p)) (m_deqConnections two_clients_end)) \<and>
    distinct (m_deqConnections two_clients_end) \<and> None \<notin> set (m_deqConnections two_clients_end)"
  by (rule server_unique_ids [OF custom_server.server_callbacks_axioms two_clients_reachable])
    (simp add: two_clients_objects)

text \<open>
  C24: \<open>MessageAllClients\<close> posts the message once to every connected client in the deque except the
  ignored one, changes no other connection, and leaves exactly the connected clients in the deque,
  in their order.
\<close>

theorem message_all_clients:
  assumes "server_callbacks cb" "refs_ok s"
  shows "\<exists>s'. MessageAllClients cb m ign s = Inr s' \<and>
    m_deqConnections s' = filter (\<lambda>p. IsConnected (objects s ! the p)) (m_deqConnections s) \<and>
    length (objects s') = length (objects s) \<and> m_qMessagesIn s' = m_qMessagesIn s \<and>
    (\<forall>r < length (objects s). objects s' ! r =
      (if Some r \<in> set (m_deqConnections s) \<and> Some r \<noteq> ign \<and> IsConnected (objects s ! r)
       then Send m (objects s ! r) else objects s ! r))"
proof -
  have v: "list_all (valid_ref s) (m_deqConnections s)" "distinct (m_deqConnections s)"
    using assms(2) by (simp_all add: refs_ok_def)
  have r: "list_all (\<lambda>p. \<exists>r < length (objects s). p = Some r) (m_deqConnections s)"
    using v(1) by (simp add: valid_ref_def [abs_def])
  from server_callbacks.MessageAllClients_run [OF assms(1) v(1), of m ign] obtain s' where
    "MessageAllClients cb m ign s = Inr s'" "same_rest s s'"
    "objects s' = fold (send_to m ign) (m_deqConnections s) (objects s)"
    "m_deqConnections s' = filter (\<lambda>p. IsConnected (objects s ! the p)) (m_deqConnections s)" by blast
  then show ?thesis using fold_send_to [OF v(2) r] by (auto simp: same_rest_def)
qed

theorem message_all_clients_witness:
  "\<exists>s'. MessageAllClients custom_callbacks accept_message (Some 0) two_clients_end = Inr s' \<and>
    m_deqConnections s' = [Some 0, Some 1] \<and>
    objects s' ! 1 = Send accept_message (objects two_clients_end ! 1)"
proof -
  obtain s' where s': "MessageAllClients custom_callbacks accept_message (Some 0) two_clients_end = Inr s'"
    "m_deqConnections s' = filter (\<lambda>p. IsConnected (objects two_clients_end ! the p)) (m_deqConnections two_clients_end)"
    "\<forall>r < length (objects two_clients_end). objects s' ! r =
      (if Some r \<in> set (m_deqConnections two_clients_end) \<and> Some r \<noteq> Some 0 \<and> IsConnected (objects two_clients_end ! r)
       then Send accept_message (objects two_clients_end ! r) else objects two_clients_end ! r)"
    using message_all_clients [OF custom_server.server_callbacks_axioms two_clients_refs, of accept_message "Some 0"]
    by blast
  from s'(3) have "objects s' ! 1 = Send accept_message (objects two_clients_end ! 1)"
    using two_clients_objects two_clients_end_eq(1) by simp
  moreover have "m_deqConnections s' = [Some 0, Some 1]"
    using s'(2) two_clients_objects two_clients_end_eq(1) by simp
  ultimately show ?thesis using s'(1) by blast
qed

text \<open>
  \<open>MessageClient\<close> on a client whose socket is closed reports the client to
  \<open>OnClientDisconnect\<close> and leaves the deque as it was: the client is not removed, because the
  parameter is reset to null before it is searched for.
\<close>

theorem message_client_keeps_dead:
  assumes "server_callbacks cb" "refs_ok s" "p \<in> set (m_deqConnections s)"
    and "\<not> IsConnected (objects s ! the p)"
  shows "\<exists>s'. MessageClient cb p m s = Inr s' \<and> m_deqConnections s' = m_deqConnections s \<and>
    p \<in> set (m_deqConnections s') \<and> objects s' = objects s"
proof -
  have v: "list_all (valid_ref s) (m_deqConnections s)" "valid_ref s p"
    using assms(2,3) by (simp_all add: refs_ok_def list_all_iff)
  from server_callbacks.MessageClient_dead [OF assms(1) v assms(4), of m] assms(3) show ?thesis
    by auto
qed

definition dead_client_state :: "u32 server" where
  "dead_client_state = two_clients_end\<lparr>objects := map close_socket (objects two_clients_end)\<rparr>"

theorem message_client_keeps_dead_witness:
  "\<exists>s'. MessageClient custom_callbacks (Some 1) accept_message dead_client_state = Inr s' \<and>
    m_deqConnections s' = m_deqConnections dead_client_state \<and> Some 1 \<in> set (m_deqConnections s') \<and>
    objects s' = objects dead_client_state"
proof (rule message_client_keeps_dead [OF custom_server.server_callbacks_axioms])
  show "refs_ok dead_client_state"
    using two_clients_refs by (simp add: refs_ok_def dead_client_state_def valid_ref_def [abs_def])
  show "Some 1 \<in> set (m_deqConnections dead_client_state)"
    using two_clients_end_eq(1) by (simp add: dead_client_state_def)
  show "\<not> IsConnected (objects dead_client_state ! the (Some 1))"
    using two_clients_objects(1) by (simp add: dead_client_state_def IsConnected_def)
qed










text \<open>
  A ping is bounced: the connection it came from gets one \<open>Send\<close> of the very message, and
  nothing else of the server changes but its log.
\<close>

theorem custom_ping_bounced:
  assumes "valid_ref s (Some r)" "hdr_id (header m) = ServerPing"
  shows "\<exists>l. custom_OnMessage (Some r) m s = Inr ((say l s)\<lparr>objects := (objects s)[r := Send m (objects s ! r)]\<rparr>)"
  using assms by (auto simp: custom_OnMessage_def deref_valid invoke_valid)

theorem custom_ping_bounced_witness:
  "\<exists>l. custom_OnMessage (Some 0) ping_msg two_clients_end =
    Inr ((say l two_clients_end)\<lparr>objects := (objects two_clients_end)[0 := Send ping_msg (objects two_clients_end ! 0)]\<rparr>)"
  by (rule custom_ping_bounced) (simp_all add: valid_ref_def two_clients_objects msg_type_defs)

text \<open>
  A message to all makes the server send every other connected client a message from which that
  client pulls the sender's identifier; the sender gets nothing.
\<close>

theorem custom_message_all_delivers:
  assumes "refs_ok s" "valid_ref s (Some r)" "hdr_id (header m) = MessageAll"
  shows "\<exists>s' sm. custom_OnMessage (Some r) m s = Inr s' \<and> hdr_id (header sm) = ServerMessage \<and>
    pop_data 4 sm = Inr (u32_bytes (conn_id (objects s ! r)), new_message ServerMessage) \<and>
    (\<forall>q < length (objects s). objects s' ! q =
      (if Some q \<in> set (m_deqConnections s) \<and> q \<noteq> r \<and> IsConnected (objects s ! q)
       then Send sm (objects s ! q) else objects s ! q))"
proof -
  let ?s = "say (''['' @ show_nat (unat (GetID (objects s ! r))) @ '']: Message All'') s"
    and ?sm = "server_message (conn_id (objects s ! r))"
  have v: "list_all (valid_ref ?s) (m_deqConnections ?s)" "distinct (m_deqConnections s)"
    using assms(1) by (simp_all add: refs_ok_def)
  have f: "list_all (\<lambda>p. \<exists>r < length (objects s). p = Some r) (m_deqConnections s)"
    using v(1) by (simp add: valid_ref_def [abs_def])
  obtain s' where s': "MessageAllClients custom_dispatch ?sm (Some r) ?s = Inr s'"
    "objects s' = fold (send_to ?sm (Some r)) (m_deqConnections s) (objects s)"
    using dispatch.MessageAllClients_run [OF v(1), of ?sm "Some r"] by auto
  have "pop_data (length (u32_bytes (conn_id (objects s ! r)))) ?sm =
      Inr (u32_bytes (conn_id (objects s ! r)), new_message ServerMessage)"
    unfolding server_message_def by (rule pop_push_sized) simp_all
  then have "pop_data 4 ?sm = Inr (u32_bytes (conn_id (objects s ! r)), new_message ServerMessage)" by simp
  moreover have "custom_OnMessage (Some r) m s = Inr s'"
    using s'(1) assms(2,3) by (simp add: custom_OnMessage_def deref_valid ServerPing_def MessageAll_def GetID_def)
  moreover have "hdr_id (header ?sm) = ServerMessage" by (simp add: server_message_def)
  ultimately show ?thesis using s'(2) fold_send_to [OF v(2) f, of _ ?sm "Some r"] by auto
qed

theorem custom_message_all_delivers_witness:
  "\<exists>s' sm. custom_OnMessage (Some 0) (new_message MessageAll) two_clients_end = Inr s' \<and>
    pop_data 4 sm = Inr (u32_bytes (conn_id (objects two_clients_end ! 0)), new_message ServerMessage) \<and>
    objects s' ! 0 = objects two_clients_end ! 0 \<and>
    objects s' ! 1 = Send sm (objects two_clients_end ! 1)"
proof -
  have "valid_ref two_clients_end (Some 0)" "hdr_id (header (new_message MessageAll)) = MessageAll"
    by (simp_all add: valid_ref_def two_clients_objects)
  from custom_message_all_delivers [OF two_clients_refs this] show ?thesis
    using two_clients_objects two_clients_end_eq(1) by fastforce
qed

section \<open>A ping with the body of another message\<close>

definition owned_by :: "nat \<Rightarrow> 't message \<Rightarrow> 't owned_message" where
  "owned_by r m = \<lparr>remote = Some r, msg = m\<rparr>"

definition bare_ping :: "u32 message" where
  "bare_ping = new_message ServerPing"

lemma bare_ping_simps [simp]:
  "hdr_id (header bare_ping) = ServerPing" "hdr_size (header bare_ping) = 0" "body bare_ping = []"
  by (simp_all add: bare_ping_def new_message_def)

lemma bare_ping_eq: "\<lparr>header = header bare_ping, body = []\<rparr> = bare_ping"
  using message_eta [of bare_ping] by simp

lemma bare_ping_body: "bare_ping\<lparr>body := b # bs\<rparr> \<noteq> bare_ping"
proof
  assume "bare_ping\<lparr>body := b # bs\<rparr> = bare_ping"
  then have "body (bare_ping\<lparr>body := b # bs\<rparr>) = body bare_ping" by (rule arg_cong)
  then show False by simp
qed

lemma bare_ping_bounced:
  assumes "custom_reachable (Inr s)" "r < length (objects s)" "referenced s r" "queued s = []"
    and "body (m_msgTemporaryIn (objects s ! r)) = b"
  shows "\<exists>s1 s2. connection_event custom_codec r Read_header_op no_error (enc_hdr custom_codec (header bare_ping)) s = Inr s1 \<and>
      queued s1 = [owned_by r (bare_ping\<lparr>body := b\<rparr>)] \<and>
      update_round custom_callbacks s1 = Inr s2 \<and> objects s2 ! r = Send (bare_ping\<lparr>body := b\<rparr>) (objects s1 ! r)"
proof -
  let ?c = "objects s ! r"
  have ok: "server_ok custom_codec s" by (rule custom_reachable_ok [OF assms(1)])
  note ob = server_ok_obj [OF ok assms(2)]
  let ?tmp = "bare_ping\<lparr>body := b\<rparr>"
  let ?c1 = "ReadHeader (?c\<lparr>pending := remove1 Read_header_op (pending ?c), m_msgTemporaryIn := ?tmp\<rparr>)"
  let ?s1 = "s\<lparr>objects := (objects s)[r := ?c1], m_qMessagesIn := \<lparr>deqQueue = [owned_by r ?tmp]\<rparr>\<rparr>"
  have tmp: "(m_msgTemporaryIn ?c)\<lparr>header := header bare_ping\<rparr> = ?tmp"
    using assms(5) by (cases "m_msgTemporaryIn ?c", cases bare_ping) simp
  have q: "m_qMessagesIn s = \<lparr>deqQueue = []\<rparr>" using assms(4) by (cases "m_qMessagesIn s") simp
  have "connection_event custom_codec r Read_header_op no_error (enc_hdr custom_codec (header bare_ping)) s = Inr ?s1"
    using assms(2,3) ob(2,3) tmp
    by (simp add: connection_event_def complete_op_def read_header_done_def AddToIncomingMessageQueue_def
        custom.dec_enc push_back_def q Let_def owned_by_def)
  moreover obtain s2 where "update_round custom_callbacks ?s1 = Inr s2" "objects s2 ! r = Send ?tmp (objects ?s1 ! r)"
    using assms(2)
    by (simp add: update_round_def pop_front_Cons custom_OnMessage_def deref_valid invoke_valid valid_ref_def owned_by_def)
  ultimately show ?thesis by (intro exI [of _ ?s1] exI [of _ s2]) simp
qed

text \<open>The first client has sent a ping with a body, which was bounced.\<close>

definition after_ping :: "u32 server" where
  "after_ping = after_run (two_clients @
     [Sv_event 0 Read_header_op no_error [2, 0, 0, 0, 4, 0, 0, 0],
      Sv_event 0 (Read_body_op 4) no_error [1, 2, 3, 4], Sv_process])"

lemma after_ping_facts:
  "custom_reachable (Inr after_ping)" "0 < length (objects after_ping)" "referenced after_ping 0" "queued after_ping = []"
  "body (m_msgTemporaryIn (objects after_ping ! 0)) = [1, 2, 3, 4]"
proof -
  show "custom_reachable (Inr after_ping)" unfolding after_ping_def by (rule after_run_reachable)
qed (simp_all add: after_ping_def after_run_def two_clients_def server_run_simps Let_def hdr_of_bytes
        update_round_def custom_OnMessage_def msg_type_defs vector_resize_def)

end
