(* ===== verification/Simple_Client.thy ===== *)
theory Simple_Client
  imports Net_Client Custom_Server
begin

text \<open>
  The client program \<open>src/one_lone_coder/simple_client.cpp\<close>: \<open>CustomClient\<close>'s two requests and
  one round of the loop of \<open>main\<close>. A time point is its object representation, eight bytes; how the
  difference of two is printed is the parameter \<open>span\<close>. The properties of the client library are
  stated here, where they have a program to be applied to.
\<close>

section \<open>CustomClient\<close>

definition ping_message :: "byte list \<Rightarrow> u32 message" where
  "ping_message timeNow = push_data (new_message ServerPing) timeNow"

definition PingServer :: "byte list \<Rightarrow> u32 client \<Rightarrow> u32 client" where
  "PingServer timeNow c = cl_Send (ping_message timeNow) c"

definition cl_MessageAll :: "u32 client \<Rightarrow> u32 client" where
  "cl_MessageAll c = cl_Send (new_message MessageAll) c"

text \<open>The \<open>switch\<close> on a received message.\<close>

definition handle_message :: "(byte list \<Rightarrow> byte list \<Rightarrow> string) \<Rightarrow> byte list \<Rightarrow> u32 message \<Rightarrow>
    u32 client \<Rightarrow> fault + u32 client" where
  "handle_message span timeNow m c =
     (if hdr_id (header m) = ServerAccept then Inr (cl_say ''Server Accepted Connection'' c)
      else if hdr_id (header m) = ServerPing
      then rbind (pop_data 8 m) (\<lambda>(timeThen, m').
             Inr (cl_say (''Ping: '' @ span timeNow timeThen) c))
      else if hdr_id (header m) = ServerMessage
      then rbind (pop_data 4 m) (\<lambda>(clientID, m').
             Inr (cl_say (''Hello from ['' @ show_nat (unat (bytes_u32 clientID)) @ '']'') c))
      else Inr c)"

text \<open>One round of the loop: the number read, the request, at most one message; \<open>True\<close> to quit.\<close>

definition client_round :: "(byte list \<Rightarrow> byte list \<Rightarrow> string) \<Rightarrow> byte list \<Rightarrow> int \<Rightarrow> u32 client \<Rightarrow>
    fault + bool \<times> u32 client" where
  "client_round span timeNow number c =
     (let c1 = (if number = 1 then PingServer timeNow c else c);
          c2 = (if number = 2 then cl_MessageAll c1 else c1);
          bQuit = (number = 3)
      in if cl_IsConnected c2
         then if \<not> tsq_empty (Incoming c2)
              then rbind (pop_front (Incoming c2)) (\<lambda>(om, q).
                   rbind (handle_message span timeNow (msg om) (c2\<lparr>cl_qMessagesIn := q\<rparr>)) (\<lambda>c3.
                     Inr (bQuit, c3)))
              else Inr (bQuit, c2)
         else Inr (True, cl_say ''Server Down'' c2))"

section \<open>Concrete states\<close>

definition connected_client :: "u32 client" where
  "connected_client = \<lparr>m_connection = Some \<lparr>self = 0, m_nOwnerType = Owner_client, sock_open = True,
       conn_id = 0, m_qMessagesOut = new_tsqueue, m_msgTemporaryIn = new_message 0,
       pending = [Connect_op], console = []\<rparr>,
     released = [], cl_qMessagesIn = new_tsqueue, context_stopped = False, thrContext = True, cl_log = []\<rparr>"

lemma connected_client_reachable:
  "(client_step custom_codec 0)\<^sup>*\<^sup>* (Inr new_client) (Inr connected_client)"
proof -
  let ?c = "connected_client\<lparr>m_connection := map_option (sock_open_update (\<lambda>_. False)) (m_connection connected_client)\<rparr>"
  have "rbind (Connect 0 None None new_client) (\<lambda>(ok, c'). Inr c') = Inr ?c"
    by (simp add: Connect_def new_client_def connected_client_def new_connection_def ConnectToServer_def start_op_def)
  then have "client_step custom_codec 0 (Inr new_client) (Inr ?c)"
    using client_step.connect [of custom_codec 0 new_client None None] by simp
  moreover have "client_step custom_codec 0 (Inr ?c) (Inr connected_client)"
    using client_step.opened [of ?c "the (m_connection ?c)" custom_codec 0]
    by (simp add: connected_client_def cl_running_def)
  ultimately show ?thesis by auto
qed

lemma pull_fault_iff:
  assumes "length (body m) < 2 ^ 64" "n < 2 ^ 64"
  shows "rbind (pop_data n m) (\<lambda>(d, m'). Inr (f d)) = Inl Out_of_bounds \<longleftrightarrow> length (body m) < n"
  using assms pop_data_enough [of n m] pop_data_short [of m n] by (cases "length (body m) < n") simp_all

section \<open>Properties\<close>

text \<open>
  On every execution the client library faults in one way only: a \<open>Connect\<close> while the thread of
  an earlier one is still joinable ends the process.
\<close>

theorem client_faults:
  assumes "(client_step cd z)\<^sup>*\<^sup>* (Inr new_client) (Inl f)"
  shows "f = Terminate"
  using client_side.inv_reachable [OF refl assms] by simp

theorem client_faults_witness:
  "\<exists>f. (client_step custom_codec 0)\<^sup>*\<^sup>* (Inr new_client) (Inl f) \<and> f = Terminate"
proof -
  have "rbind (Connect 0 None None connected_client) (\<lambda>(ok, c'). Inr c') = Inl Terminate"
    by (simp add: Connect_def connected_client_def)
  then have "client_step custom_codec 0 (Inr connected_client) (Inl Terminate)"
    using client_step.connect [of custom_codec 0 connected_client None None] by simp
  with connected_client_reachable have r: "(client_step custom_codec 0)\<^sup>*\<^sup>* (Inr new_client) (Inl Terminate)"
    by (rule rtranclp.rtrancl_into_rtrancl)
  from client_faults [OF r] r show ?thesis by blast
qed

text \<open>
  \<open>Disconnect\<close> does not delete the connection: it is given up, and when the context's thread
  does not get to it before the stop, with its socket open and the close still posted.
\<close>

theorem client_disconnect_leaks:
  assumes "m_connection c = Some k" "sock_open k"
  shows "m_connection (cl_Disconnect id c) = None \<and>
    released (cl_Disconnect id c) = released c @ [start_op Close_task k] \<and>
    sock_open (last (released (cl_Disconnect id c)))"
  using assms by (simp add: cl_Disconnect_def cl_IsConnected_def Disconnect_def IsConnected_def Let_def)

theorem client_disconnect_leaks_witness:
  "m_connection (cl_Disconnect id connected_client) = None \<and>
    released (cl_Disconnect id connected_client) = released connected_client @
      [start_op Close_task (the (m_connection connected_client))] \<and>
    sock_open (last (released (cl_Disconnect id connected_client)))"
  by (rule client_disconnect_leaks) (simp_all add: connected_client_def)

text \<open>
  After \<open>Disconnect\<close> the client is dead for good: whatever is called, \<open>Connect\<close> included, no
  connection is ever connected and no message arrives that was not queued already, because nothing
  restarts the stopped context.
\<close>

theorem client_disconnect_final:
  assumes "(client_step cd z)\<^sup>*\<^sup>* (Inr (cl_Disconnect asio_thread c)) (Inr c')"
  shows "context_stopped c' \<and> \<not> cl_IsConnected c' \<and>
    suffix (deqQueue (Incoming c')) (deqQueue (Incoming (cl_Disconnect asio_thread c)))"
proof -
  have "stopped_client (deqQueue (Incoming (cl_Disconnect asio_thread c))) (Inr (cl_Disconnect asio_thread c))"
    by (simp add: cl_Disconnect_def Incoming_def Let_def)
  from dead.inv_reachable [OF this assms] show ?thesis
    by (simp add: idle_not_connected Incoming_def)
qed

theorem client_disconnect_final_witness:
  "\<exists>c'. Connect 0 None None (cl_Disconnect id connected_client) = Inr (True, c') \<and>
     context_stopped c' \<and> \<not> cl_IsConnected c'"
proof -
  obtain c' where c': "Connect 0 None None (cl_Disconnect id connected_client) = Inr (True, c')"
    by (simp add: Connect_def cl_Disconnect_def connected_client_def Let_def)
  then have "client_step custom_codec 0 (Inr (cl_Disconnect id connected_client)) (Inr c')"
    using client_step.connect [of custom_codec 0 "cl_Disconnect id connected_client" None None] by simp
  from client_disconnect_final [OF r_into_rtranclp [of "client_step custom_codec 0", OF this]] c'
  show ?thesis by blast
qed

text \<open>
  The client's \<open>switch\<close> is safe exactly when the received message has the body its identifier
  stands for: a ping of fewer than 8 bytes or a server message of fewer than 4 makes it read outside
  the body.
\<close>

theorem client_message_fault:
  assumes "length (body m) < 2 ^ 64"
  shows "handle_message span timeNow m c = Inl Out_of_bounds \<longleftrightarrow>
    hdr_id (header m) = ServerPing \<and> length (body m) < 8 \<or>
    hdr_id (header m) = ServerMessage \<and> length (body m) < 4"
  using assms by (auto simp: handle_message_def msg_type_defs pull_fault_iff)

theorem client_message_fault_witness:
  "handle_message (\<lambda>_ _. []) [] (new_message ServerMessage) connected_client = Inl Out_of_bounds"
  using client_message_fault [of "new_message ServerMessage" "\<lambda>_ _. []" "[]" connected_client]
  by (simp add: msg_type_defs)

text \<open>
  The ping comes back: the message \<open>PingServer\<close> sends, bounced by the server as it is, makes the
  client print the time that went by since the time it put into it.
\<close>

theorem ping_round_trip:
  assumes "length timeThen = 8" "valid_ref s (Some r)"
  shows "\<exists>l s'. custom_OnMessage (Some r) (ping_message timeThen) s = Inr s' \<and>
    objects s' ! r = Send (ping_message timeThen) (objects s ! r) \<and> l = ''Ping: '' @ span timeNow timeThen \<and>
    handle_message span timeNow (ping_message timeThen) c = Inr (cl_say l c)"
proof -
  have "pop_data (length timeThen) (ping_message timeThen) = Inr (timeThen, new_message ServerPing)"
    unfolding ping_message_def by (rule pop_push_sized) (simp_all add: assms(1))
  moreover have "hdr_id (header (ping_message timeThen)) = ServerPing" by (simp add: ping_message_def)
  moreover have "r < length (objects s)" using assms(2) by (simp add: valid_ref_def)
  ultimately show ?thesis using assms
    by (simp add: handle_message_def custom_OnMessage_def deref_valid invoke_valid msg_type_defs)
qed

theorem ping_round_trip_witness:
  "\<exists>l s'. custom_OnMessage (Some 0) (ping_message [1, 2, 3, 4, 5, 6, 7, 8]) two_clients_end = Inr s' \<and>
    objects s' ! 0 = Send (ping_message [1, 2, 3, 4, 5, 6, 7, 8]) (objects two_clients_end ! 0) \<and>
    l = ''Ping: '' @ (\<lambda>_ _. ''0'') ([] :: byte list) [1, 2, 3, 4, 5, 6, 7, 8 :: byte] \<and>
    handle_message (\<lambda>_ _. ''0'') [] (ping_message [1, 2, 3, 4, 5, 6, 7, 8]) connected_client = Inr (cl_say l connected_client)"
  by (rule ping_round_trip) (simp_all add: valid_ref_def two_clients_objects)

end
