(* ===== verification/Cancel_Locks.thy ===== *)
theory Cancel_Locks
  imports Asio_Prelude
begin

text \<open>
  The two mutexes of \<open>async_tcp_client.cpp\<close>, lock by lock, for one session: its handler runs in the
  thread of the \<open>io_context\<close>, the calls of \<open>CancelRequest\<close> in the user's. The handler holds
  \<open>m_cancel_guard\<close> while it calls \<open>OnRequestComplete\<close>, which locks \<open>m_active_sessions_guard\<close>;
  \<open>CancelRequest\<close> locks the two in the other order.
\<close>

section \<open>Program points\<close>

datatype io_pc =
    Io_waiting        \<comment> \<open>an operation is in flight\<close>
  | Io_check          \<comment> \<open>the handler holds \<open>m_cancel_guard\<close>, about to read the flag\<close>
  | Io_complete       \<comment> \<open>in \<open>OnRequestComplete\<close> with \<open>m_cancel_guard\<close> held, about to lock the other\<close>
  | Io_erase          \<comment> \<open>holds both, about to erase the session from the map\<close>
  | Io_callback       \<comment> \<open>erased, calling the user's callback with \<open>m_cancel_guard\<close> still held\<close>
  | Io_failed         \<comment> \<open>in \<open>OnRequestComplete\<close> after an error or the last read, no mutex held\<close>
  | Io_failed_erase   \<comment> \<open>holds \<open>m_active_sessions_guard\<close> only\<close>
  | Io_done

datatype ui_pc =
    Ui_idle
  | Ui_find           \<comment> \<open>holds \<open>m_active_sessions_guard\<close>, about to look the session up\<close>
  | Ui_found          \<comment> \<open>about to lock \<open>m_cancel_guard\<close>\<close>
  | Ui_mark           \<comment> \<open>holds both, about to set the flag and cancel\<close>

datatype holder = Io | Ui

record locks =
  active_guard :: "holder option"
  cancel_guard :: "holder option"
  io_at :: io_pc
  ui_at :: ui_pc
  canceled :: bool
  listed :: bool        \<comment> \<open>the session is in \<open>m_active_sessions\<close>\<close>
  cancels :: nat        \<comment> \<open>calls of \<open>CancelRequest\<close> so far\<close>

definition locks_init :: locks where
  "locks_init = \<lparr>active_guard = None, cancel_guard = None, io_at = Io_waiting, ui_at = Ui_idle,
     canceled = False, listed = True, cancels = 0\<rparr>"

inductive lock_step :: "locks \<Rightarrow> locks \<Rightarrow> bool" where
  io_lock_cancel: "io_at s = Io_waiting \<Longrightarrow> cancel_guard s = None \<Longrightarrow>
    lock_step s (s\<lparr>cancel_guard := Some Io, io_at := Io_check\<rparr>)"
| io_next: "io_at s = Io_check \<Longrightarrow> \<not> canceled s \<Longrightarrow>
    lock_step s (s\<lparr>cancel_guard := None, io_at := Io_waiting\<rparr>)"
| io_was_canceled: "io_at s = Io_check \<Longrightarrow> canceled s \<Longrightarrow> lock_step s (s\<lparr>io_at := Io_complete\<rparr>)"
| io_lock_active: "io_at s = Io_complete \<Longrightarrow> active_guard s = None \<Longrightarrow>
    lock_step s (s\<lparr>active_guard := Some Io, io_at := Io_erase\<rparr>)"
| io_erase: "io_at s = Io_erase \<Longrightarrow>
    lock_step s (s\<lparr>listed := False, active_guard := None, io_at := Io_callback\<rparr>)"
| io_callback: "io_at s = Io_callback \<Longrightarrow>
    lock_step s (s\<lparr>cancel_guard := None, io_at := Io_done\<rparr>)"
| io_error: "io_at s = Io_waiting \<Longrightarrow> lock_step s (s\<lparr>io_at := Io_failed\<rparr>)"
| io_failed_lock: "io_at s = Io_failed \<Longrightarrow> active_guard s = None \<Longrightarrow>
    lock_step s (s\<lparr>active_guard := Some Io, io_at := Io_failed_erase\<rparr>)"
| io_failed_erase: "io_at s = Io_failed_erase \<Longrightarrow>
    lock_step s (s\<lparr>listed := False, active_guard := None, io_at := Io_done\<rparr>)"
| ui_lock_active: "ui_at s = Ui_idle \<Longrightarrow> active_guard s = None \<Longrightarrow>
    lock_step s (s\<lparr>active_guard := Some Ui, ui_at := Ui_find, cancels := cancels s + 1\<rparr>)"
| ui_not_found: "ui_at s = Ui_find \<Longrightarrow> \<not> listed s \<Longrightarrow>
    lock_step s (s\<lparr>active_guard := None, ui_at := Ui_idle\<rparr>)"
| ui_found: "ui_at s = Ui_find \<Longrightarrow> listed s \<Longrightarrow> lock_step s (s\<lparr>ui_at := Ui_found\<rparr>)"
| ui_lock_cancel: "ui_at s = Ui_found \<Longrightarrow> cancel_guard s = None \<Longrightarrow>
    lock_step s (s\<lparr>cancel_guard := Some Ui, ui_at := Ui_mark\<rparr>)"
| ui_mark: "ui_at s = Ui_mark \<Longrightarrow>
    lock_step s (s\<lparr>canceled := True, cancel_guard := None, active_guard := None, ui_at := Ui_idle\<rparr>)"

definition locks_reachable :: "locks \<Rightarrow> bool" where
  "locks_reachable s \<longleftrightarrow> lock_step\<^sup>*\<^sup>* locks_init s"

definition stuck :: "locks \<Rightarrow> bool" where
  "stuck s \<longleftrightarrow> (\<forall>t. \<not> lock_step s t)"

section \<open>Invariant\<close>

text \<open>Who holds what, and that the flag is only set by a call that has finished.\<close>

definition locks_ok :: "locks \<Rightarrow> bool" where
  "locks_ok s \<longleftrightarrow>
     (active_guard s = Some Io \<longleftrightarrow> io_at s = Io_erase \<or> io_at s = Io_failed_erase) \<and>
     (active_guard s = Some Ui \<longleftrightarrow> ui_at s \<noteq> Ui_idle) \<and>
     (cancel_guard s = Some Io \<longleftrightarrow> io_at s = Io_check \<or> io_at s = Io_complete \<or> io_at s = Io_erase \<or>
       io_at s = Io_callback) \<and>
     (cancel_guard s = Some Ui \<longleftrightarrow> ui_at s = Ui_mark) \<and>
     (io_at s = Io_complete \<longrightarrow> canceled s) \<and>
     (canceled s \<longrightarrow> 1 \<le> cancels s) \<and>
     (ui_at s \<noteq> Ui_idle \<longrightarrow> 1 \<le> cancels s) \<and>
     (canceled s \<and> ui_at s \<noteq> Ui_idle \<longrightarrow> 2 \<le> cancels s)"

lemma holder_cases: "g = None \<or> g = Some Io \<or> g = Some Ui"
  by (cases g) (auto intro: holder.exhaust)

lemma locks_ok_step: "locks_ok s \<Longrightarrow> lock_step s t \<Longrightarrow> locks_ok t"
  by (erule lock_step.cases) (auto simp: locks_ok_def)

interpretation cancel_locks: invariant_system "\<lambda>s. s = locks_init" lock_step locks_ok
  by unfold_locales (simp add: locks_ok_def locks_init_def, rule locks_ok_step)

lemma stuck_deadlock:
  assumes "locks_ok s" "stuck s"
  shows "io_at s = Io_complete \<and> ui_at s = Ui_found"
proof -
  have a: "\<And>t. \<not> lock_step s t" using assms(2) by (simp add: stuck_def)
  have ui: "ui_at s \<noteq> Ui_mark" "ui_at s \<noteq> Ui_find" using a lock_step.intros(11,12,14) by blast+
  have io: "io_at s \<noteq> Io_waiting" "io_at s \<noteq> Io_check" "io_at s \<noteq> Io_erase" "io_at s \<noteq> Io_failed_erase"
    "io_at s \<noteq> Io_callback"
    using a lock_step.intros(2,3,5,6,7,9) by blast+
  show ?thesis
  proof (cases "ui_at s")
    case Ui_idle
    then have "active_guard s \<noteq> None" using a lock_step.intros(10) by blast
    then show ?thesis using assms(1) io Ui_idle holder_cases [of "active_guard s"] by (auto simp: locks_ok_def)
  next
    case Ui_found
    then have "cancel_guard s \<noteq> None" using a lock_step.intros(13) by blast
    then show ?thesis using assms(1) io Ui_found holder_cases [of "cancel_guard s"] by (auto simp: locks_ok_def)
  qed (use ui in simp_all)
qed

section \<open>Properties\<close>

text \<open>
  With at most one call of \<open>CancelRequest\<close> for a request the two mutexes cannot deadlock, in spite
  of the order in which they nest.
\<close>

theorem one_cancel_no_deadlock:
  assumes "locks_reachable s" "cancels s \<le> 1"
  shows "\<exists>t. lock_step s t"
proof (rule ccontr)
  assume "\<not> (\<exists>t. lock_step s t)"
  then have st: "stuck s" by (simp add: stuck_def)
  have ok: "locks_ok s" using assms(1) cancel_locks.inv_reachable [OF refl] by (simp add: locks_reachable_def)
  from stuck_deadlock [OF ok st] ok assms(2) show False by (auto simp: locks_ok_def)
qed

theorem one_cancel_no_deadlock_witness: "\<exists>t. lock_step locks_init t"
  by (rule one_cancel_no_deadlock) (simp_all add: locks_reachable_def locks_init_def)

definition deadlock :: locks where
  "deadlock = \<lparr>active_guard = Some Ui, cancel_guard = Some Io, io_at = Io_complete, ui_at = Ui_found,
     canceled = True, listed = True, cancels = 2\<rparr>"

text \<open>
  With two calls it can: the handler of a cancelled request holds \<open>m_cancel_guard\<close> and waits for
  \<open>m_active_sessions_guard\<close>, the second call holds that and waits for the first, and neither ever
  goes on.
\<close>

theorem two_cancels_deadlock: "locks_reachable deadlock \<and> stuck deadlock"
proof
  let ?s1 = "locks_init\<lparr>active_guard := Some Ui, ui_at := Ui_find, cancels := 1\<rparr>"
  let ?s2 = "?s1\<lparr>ui_at := Ui_found\<rparr>"
  let ?s3 = "?s2\<lparr>cancel_guard := Some Ui, ui_at := Ui_mark\<rparr>"
  let ?s4 = "?s3\<lparr>canceled := True, cancel_guard := None, active_guard := None, ui_at := Ui_idle\<rparr>"
  let ?s5 = "?s4\<lparr>cancel_guard := Some Io, io_at := Io_check\<rparr>"
  let ?s6 = "?s5\<lparr>io_at := Io_complete\<rparr>"
  let ?s7 = "?s6\<lparr>active_guard := Some Ui, ui_at := Ui_find, cancels := 2\<rparr>"
  have "lock_step locks_init ?s1" using ui_lock_active [of locks_init] by (simp add: locks_init_def)
  moreover have "lock_step ?s1 ?s2" by (rule ui_found) (simp_all add: locks_init_def)
  moreover have "lock_step ?s2 ?s3" by (rule ui_lock_cancel) (simp_all add: locks_init_def)
  moreover have "lock_step ?s3 ?s4" by (rule ui_mark) (simp add: locks_init_def)
  moreover have "lock_step ?s4 ?s5" by (rule io_lock_cancel) (simp_all add: locks_init_def)
  moreover have "lock_step ?s5 ?s6" by (rule io_was_canceled) (simp_all add: locks_init_def)
  moreover have "lock_step ?s6 ?s7" using ui_lock_active [of ?s6] by (simp add: locks_init_def numeral_2_eq_2)
  moreover have "lock_step ?s7 deadlock" using ui_found [of ?s7] by (simp add: locks_init_def deadlock_def numeral_2_eq_2)
  ultimately show "locks_reachable deadlock"
    unfolding locks_reachable_def by (meson converse_rtranclp_into_rtranclp rtranclp.rtrancl_refl)
  show "stuck deadlock"
    by (auto simp: stuck_def deadlock_def elim: lock_step.cases)
qed

end
