(* ===== verification/Chat_Server.thy ===== *)
theory Chat_Server
  imports Asio_Prelude
begin

text \<open>
  The chat server of \<open>src/etc/dens_simple_chat_server.cpp\<close>: its sessions, its set of clients and the
  handlers. A session is the index of its object in \<open>chat_sessions\<close>; the handlers hold a
  \<open>shared_ptr\<close> to it, so no handler runs on a destroyed one. One thread runs the \<open>io_context\<close>:
  each handler is one step. Shown: no queue is popped or read when it is empty, the write in flight
  is always the front message, a broadcast reaches every client once, a client leaves once.
\<close>

section \<open>State\<close>

datatype chat_op = Read_op | Write_op string

record chat_session =
  socket_open :: bool
  streambuf :: string
  outgoing :: "string list"
  started_ops :: "chat_op list"

record chat_server =
  chat_sessions :: "chat_session list"
  clients :: "nat list"      \<comment> \<open>the elements of the \<open>unordered_set\<close>\<close>
  accepting :: bool

definition new_chat_session :: "bool \<Rightarrow> chat_session" where
  "new_chat_session is_open = \<lparr>socket_open = is_open, streambuf = [], outgoing = [], started_ops = []\<rparr>"

definition chat_start :: chat_server where
  "chat_start = \<lparr>chat_sessions = [], clients = [], accepting = True\<rparr>"

section \<open>The session\<close>

definition async_read :: "chat_session \<Rightarrow> chat_session" where
  "async_read c = c\<lparr>started_ops := started_ops c @ [Read_op]\<rparr>"

definition async_write :: "chat_session \<Rightarrow> fault + chat_session" where
  "async_write c =
     (case outgoing c of
        [] \<Rightarrow> Inl Empty_container
      | m # _ \<Rightarrow> Inr (c\<lparr>started_ops := started_ops c @ [Write_op m]\<rparr>))"

definition session_post :: "string \<Rightarrow> chat_session \<Rightarrow> fault + chat_session" where
  "session_post message c =
     (let idle = (outgoing c = []);
          c1 = c\<lparr>outgoing := outgoing c @ [message]\<rparr>
      in if idle then async_write c1 else Inr c1)"

text \<open>\<open>start\<close>; the two handlers it is given are always \<open>server_post\<close> and \<open>on_error\<close> below.\<close>

definition session_start :: "chat_session \<Rightarrow> chat_session" where
  "session_start c = async_read c"

declare session_start_def [simp]

section \<open>The server\<close>

definition with_session :: "nat \<Rightarrow> (chat_session \<Rightarrow> fault + chat_session) \<Rightarrow> chat_server \<Rightarrow> fault + chat_server" where
  "with_session i f s = rbind (f (chat_sessions s ! i)) (\<lambda>c. Inr (s\<lparr>chat_sessions := (chat_sessions s)[i := c]\<rparr>))"

fun post_each :: "string \<Rightarrow> nat list \<Rightarrow> chat_server \<Rightarrow> fault + chat_server" where
  "post_each message [] s = Inr s"
| "post_each message (i # is) s = rbind (with_session i (session_post message) s) (post_each message is)"

definition server_post :: "string \<Rightarrow> chat_server \<Rightarrow> fault + chat_server" where
  "server_post message s = post_each message (clients s) s"

definition crlf :: string where "crlf = [CHR 0x0A, CHR 0x0D]"

text \<open>The error handler \<open>async_accept\<close> gives a session.\<close>

definition on_error :: "nat \<Rightarrow> chat_server \<Rightarrow> fault + chat_server" where
  "on_error i s =
     (if i \<in> set (clients s)
      then server_post (''We are one less'' @ crlf) (s\<lparr>clients := remove1 i (clients s)\<rparr>)
      else Inr s)"

text \<open>
  \<open>on_read\<close>; \<open>peer\<close> is the text of \<open>remote_endpoint\<close>, \<open>bs\<close> what \<open>async_read_until\<close> added to the
  buffer. Streaming the buffer out takes all of it, so \<open>consume\<close> finds nothing to remove.
\<close>

definition on_read :: "nat \<Rightarrow> error_code \<Rightarrow> string \<Rightarrow> string \<Rightarrow> chat_server \<Rightarrow> fault + chat_server" where
  "on_read i ec peer bs s =
     (let c = chat_sessions s ! i;
          got = c\<lparr>streambuf := streambuf c @ bs\<rparr>
      in if \<not> failed ec
         then let message = peer @ '': '' @ streambuf got;
                  s1 = s\<lparr>chat_sessions := (chat_sessions s)[i := got\<lparr>streambuf := []\<rparr>]\<rparr>
              in rbind (server_post message s1) (\<lambda>s2. with_session i (\<lambda>c. Inr (async_read c)) s2)
         else on_error i (s\<lparr>chat_sessions := (chat_sessions s)[i := got\<lparr>socket_open := False\<rparr>]\<rparr>))"

definition on_write :: "nat \<Rightarrow> error_code \<Rightarrow> chat_server \<Rightarrow> fault + chat_server" where
  "on_write i ec s =
     (let c = chat_sessions s ! i
      in if \<not> failed ec
         then (case outgoing c of
             [] \<Rightarrow> Inl Empty_container
           | _ # rest \<Rightarrow>
               let c1 = c\<lparr>outgoing := rest\<rparr>
               in if rest \<noteq> [] then with_session i (\<lambda>_. async_write c1) s
                  else with_session i (\<lambda>_. Inr c1) s)
         else on_error i (s\<lparr>chat_sessions := (chat_sessions s)[i := c\<lparr>socket_open := False\<rparr>]\<rparr>))"

text \<open>The handler of \<open>async_accept\<close>, which does not look at its error.\<close>

definition on_accept :: "error_code \<Rightarrow> chat_server \<Rightarrow> fault + chat_server" where
  "on_accept ec s =
     (let i = length (chat_sessions s);
          s1 = s\<lparr>chat_sessions := chat_sessions s @ [new_chat_session (\<not> failed ec)], accepting := False\<rparr>
      in rbind (with_session i (session_post (''Welcome to chat'' @ crlf)) s1) (\<lambda>s2.
         rbind (server_post (''We have a newcomer'' @ crlf) s2) (\<lambda>s3.
         let s4 = s3\<lparr>clients := clients s3 @ [i]\<rparr>
         in rbind (with_session i (\<lambda>c. Inr (session_start c)) s4) (\<lambda>s5. Inr (s5\<lparr>accepting := True\<rparr>)))))"

section \<open>Executions\<close>

definition finish_op :: "nat \<Rightarrow> chat_op \<Rightarrow> chat_server \<Rightarrow> chat_server" where
  "finish_op i p s = s\<lparr>chat_sessions := (chat_sessions s)[i := (chat_sessions s ! i)
     \<lparr>started_ops := remove1 p (started_ops (chat_sessions s ! i))\<rparr>]\<rparr>"

definition op_pending :: "nat \<Rightarrow> chat_op \<Rightarrow> chat_server \<Rightarrow> bool" where
  "op_pending i p s \<longleftrightarrow> i < length (chat_sessions s) \<and> p \<in> set (started_ops (chat_sessions s ! i))"

inductive chat_step :: "fault + chat_server \<Rightarrow> fault + chat_server \<Rightarrow> bool" where
  accept: "accepting s \<Longrightarrow> chat_step (Inr s) (on_accept ec s)"
| read: "op_pending i Read_op s \<Longrightarrow> chat_step (Inr s) (on_read i ec peer bs (finish_op i Read_op s))"
| wrote: "op_pending i (Write_op m) s \<Longrightarrow> chat_step (Inr s) (on_write i ec (finish_op i (Write_op m) s))"

definition chat_reachable :: "fault + chat_server \<Rightarrow> bool" where
  "chat_reachable r \<longleftrightarrow> chat_step\<^sup>*\<^sup>* (Inr chat_start) r"

section \<open>Posting\<close>

fun is_write_op :: "chat_op \<Rightarrow> bool" where
  "is_write_op (Write_op _) = True"
| "is_write_op Read_op = False"

text \<open>
  The write in flight is the front message. A session whose write failed is no client any more and
  writes nothing: it may keep messages that are never sent.
\<close>

definition session_ok :: "bool \<Rightarrow> chat_session \<Rightarrow> bool" where
  "session_ok is_client c \<longleftrightarrow>
     (case outgoing c of
        [] \<Rightarrow> filter is_write_op (started_ops c) = []
      | m # _ \<Rightarrow> filter is_write_op (started_ops c) = [Write_op m] \<or>
          \<not> is_client \<and> filter is_write_op (started_ops c) = [])"

definition posted_to :: "string \<Rightarrow> chat_session \<Rightarrow> chat_session" where
  "posted_to message c =
     (if outgoing c = []
      then c\<lparr>outgoing := [message], started_ops := started_ops c @ [Write_op message]\<rparr>
      else c\<lparr>outgoing := outgoing c @ [message]\<rparr>)"

lemma session_post_eq: "session_post m c = Inr (posted_to m c)"
  by (cases "outgoing c") (simp_all add: session_post_def posted_to_def async_write_def Let_def)

lemma posted_to_fields [simp]:
  "outgoing (posted_to m c) = outgoing c @ [m]" "streambuf (posted_to m c) = streambuf c"
  "socket_open (posted_to m c) = socket_open c"
  by (simp_all add: posted_to_def)

lemma session_ok_posted: "session_ok b c \<Longrightarrow> session_ok b (posted_to m c)"
  by (cases "outgoing c") (auto simp: session_ok_def posted_to_def)

lemma session_ok_weaken: "session_ok b c \<Longrightarrow> session_ok False c"
  by (auto simp: session_ok_def split: list.splits)

lemma post_each_eq:
  "distinct is \<Longrightarrow> list_all (\<lambda>i. i < length (chat_sessions s)) is \<Longrightarrow>
   \<exists>s'. post_each m is s = Inr s' \<and> clients s' = clients s \<and> accepting s' = accepting s \<and>
     length (chat_sessions s') = length (chat_sessions s) \<and>
     (\<forall>i < length (chat_sessions s). chat_sessions s' ! i =
       (if i \<in> set is then posted_to m (chat_sessions s ! i) else chat_sessions s ! i))"
proof (induction "is" arbitrary: s)
  case (Cons i js)
  let ?s = "s\<lparr>chat_sessions := (chat_sessions s)[i := posted_to m (chat_sessions s ! i)]\<rparr>"
  from Cons.IH [of ?s] Cons.prems obtain s' where "post_each m js ?s = Inr s'" "clients s' = clients s"
    "accepting s' = accepting s" "length (chat_sessions s') = length (chat_sessions s)"
    "\<forall>j < length (chat_sessions s). chat_sessions s' ! j =
       (if j \<in> set js then posted_to m (chat_sessions ?s ! j) else chat_sessions ?s ! j)"
    by auto
  with Cons.prems show ?case
    by (auto simp: with_session_def session_post_eq nth_update_if)
qed simp

definition chat_ok :: "chat_server \<Rightarrow> bool" where
  "chat_ok s \<longleftrightarrow> distinct (clients s) \<and> list_all (\<lambda>i. i < length (chat_sessions s)) (clients s) \<and>
     (\<forall>i < length (chat_sessions s). session_ok (i \<in> set (clients s)) (chat_sessions s ! i))"

lemma server_post_eq:
  assumes "chat_ok s"
  shows "\<exists>s'. server_post m s = Inr s' \<and> clients s' = clients s \<and> accepting s' = accepting s \<and>
    length (chat_sessions s') = length (chat_sessions s) \<and>
    (\<forall>i < length (chat_sessions s). chat_sessions s' ! i =
      (if i \<in> set (clients s) then posted_to m (chat_sessions s ! i) else chat_sessions s ! i))"
  using post_each_eq [of "clients s" s m] assms by (simp add: server_post_def chat_ok_def)

lemma server_post_ok:
  assumes "chat_ok s"
  shows "\<exists>s'. server_post m s = Inr s' \<and> chat_ok s' \<and> clients s' = clients s \<and>
    length (chat_sessions s') = length (chat_sessions s)"
proof -
  from server_post_eq [OF assms, of m] obtain s' where s': "server_post m s = Inr s'" "clients s' = clients s"
    "length (chat_sessions s') = length (chat_sessions s)"
    "\<forall>i < length (chat_sessions s). chat_sessions s' ! i =
      (if i \<in> set (clients s) then posted_to m (chat_sessions s ! i) else chat_sessions s ! i)" by blast
  moreover have "session_ok (i \<in> set (clients s)) (chat_sessions s' ! i)" if "i < length (chat_sessions s)" for i
    using that s'(4) assms session_ok_posted [of _ "chat_sessions s ! i" m]
    by (cases "i \<in> set (clients s)") (auto simp: chat_ok_def)
  then have "chat_ok s'" using assms s'(2,3) by (simp add: chat_ok_def)
  ultimately show ?thesis by blast
qed

lemma on_error_ok:
  assumes "distinct (clients s)" "list_all (\<lambda>i. i < length (chat_sessions s)) (clients s)"
    "\<And>j. j < length (chat_sessions s) \<Longrightarrow>
      session_ok (j \<in> set (clients s) \<and> j \<noteq> i) (chat_sessions s ! j)"
  shows "\<exists>s'. on_error i s = Inr s' \<and> chat_ok s' \<and> clients s' = remove1 i (clients s) \<and>
    length (chat_sessions s') = length (chat_sessions s)"
proof (cases "i \<in> set (clients s)")
  case True
  have "chat_ok (s\<lparr>clients := remove1 i (clients s)\<rparr>)"
    using assms by (auto simp: chat_ok_def list_all_iff dest: notin_set_remove1)
  from server_post_ok [OF this] True show ?thesis by (auto simp: on_error_def)
next
  case False
  have "session_ok (j \<in> set (clients s)) (chat_sessions s ! j)" if "j < length (chat_sessions s)" for j
    using assms(3) [OF that] False by (cases "j = i") auto
  with False assms(1,2) show ?thesis by (simp add: on_error_def chat_ok_def remove1_idem)
qed

section \<open>The handlers keep the invariant\<close>

lemma filter_remove1_op: "filter P (remove1 p xs) = (if P p then remove1 p (filter P xs) else filter P xs)"
  by (induction xs) auto

text \<open>Changing one session.\<close>

lemma chat_ok_update:
  assumes "chat_ok s" "session_ok (i \<in> set (clients s)) c"
  shows "chat_ok (s\<lparr>chat_sessions := (chat_sessions s)[i := c]\<rparr>)"
  using assms by (auto simp: chat_ok_def nth_update_if)

lemma chat_ok_session: "chat_ok s \<Longrightarrow> i < length (chat_sessions s) \<Longrightarrow> session_ok (i \<in> set (clients s)) (chat_sessions s ! i)"
  by (simp add: chat_ok_def)

lemma with_session_id [simp]: "with_session i (\<lambda>c. Inr (f c)) s = Inr (s\<lparr>chat_sessions := (chat_sessions s)[i := f (chat_sessions s ! i)]\<rparr>)"
  by (simp add: with_session_def)

lemma session_ok_reads [simp]:
  "session_ok b (c\<lparr>streambuf := x\<rparr>) = session_ok b c" "session_ok b (c\<lparr>socket_open := y\<rparr>) = session_ok b c"
  "session_ok b (async_read c) = session_ok b c"
  by (simp_all add: session_ok_def async_read_def split: list.split)

lemma finish_read_ok: "chat_ok s \<Longrightarrow> i < length (chat_sessions s) \<Longrightarrow> chat_ok (finish_op i Read_op s)"
  unfolding finish_op_def
  by (rule chat_ok_update) (auto dest: chat_ok_session simp: session_ok_def filter_remove1_op split: list.splits)

lemma leave_ok:
  assumes "chat_ok s" "i < length (chat_sessions s)" "session_ok False c"
  shows "\<exists>s'. on_error i (s\<lparr>chat_sessions := (chat_sessions s)[i := c]\<rparr>) = Inr s' \<and> chat_ok s' \<and>
    clients s' = remove1 i (clients s) \<and>
    length (chat_sessions s') = length (chat_sessions s)"
  using on_error_ok [of "s\<lparr>chat_sessions := (chat_sessions s)[i := c]\<rparr>" i] assms
  by (auto simp: chat_ok_def nth_update_if)

lemma on_read_ok:
  assumes ok: "chat_ok s" and i: "i < length (chat_sessions s)"
  shows "\<exists>s'. on_read i ec peer bs s = Inr s' \<and> chat_ok s' \<and>
    clients s' = (if failed ec then remove1 i (clients s) else clients s) \<and>
    length (chat_sessions s') = length (chat_sessions s)"
proof (cases "failed ec")
  case True
  with leave_ok [OF ok i] session_ok_weaken [OF chat_ok_session [OF ok i]] show ?thesis
    by (simp add: on_read_def Let_def)
next
  case False
  let ?s = "s\<lparr>chat_sessions := (chat_sessions s)[i := (chat_sessions s ! i)\<lparr>streambuf := []\<rparr>]\<rparr>"
  have "chat_ok ?s" using chat_ok_session [OF ok i] by (intro chat_ok_update [OF ok]) simp
  from server_post_ok [OF this, of "peer @ '': '' @ streambuf (chat_sessions s ! i) @ bs"] obtain s' where
    s': "server_post (peer @ '': '' @ streambuf (chat_sessions s ! i) @ bs) ?s = Inr s'" "chat_ok s'"
      "clients s' = clients s" "length (chat_sessions s') = length (chat_sessions s)" by auto
  have "chat_ok (s'\<lparr>chat_sessions := (chat_sessions s')[i := async_read (chat_sessions s' ! i)]\<rparr>)"
    using chat_ok_session [OF s'(2), of i] i s'(4) by (intro chat_ok_update [OF s'(2)]) simp
  with s' False show ?thesis by (simp add: on_read_def Let_def)
qed

lemma session_ok_in_flight:
  assumes "session_ok b c" "Write_op m \<in> set (started_ops c)"
  shows "\<exists>rest. outgoing c = m # rest \<and> filter is_write_op (started_ops c) = [Write_op m]"
proof -
  have mem: "Write_op m \<in> set (filter is_write_op (started_ops c))" using assms(2) by simp
  then have ne: "filter is_write_op (started_ops c) \<noteq> []" by force
  obtain n rest where out: "outgoing c = n # rest"
    using assms(1) ne by (cases "outgoing c") (simp_all add: session_ok_def)
  then have ws: "filter is_write_op (started_ops c) = [Write_op n]"
    using assms(1) ne by (auto simp: session_ok_def)
  have "Write_op m \<in> set [Write_op n]" using mem unfolding ws .
  then show ?thesis using out ws by simp
qed

lemma on_write_ok:
  assumes ok: "chat_ok s" and p: "op_pending i (Write_op m) s"
  shows "\<exists>s'. on_write i ec (finish_op i (Write_op m) s) = Inr s' \<and> chat_ok s' \<and>
    clients s' = (if failed ec then remove1 i (clients s) else clients s) \<and>
    length (chat_sessions s') = length (chat_sessions s)"
proof -
  have i: "i < length (chat_sessions s)" using p by (simp add: op_pending_def)
  let ?c = "chat_sessions s ! i"
  let ?d = "?c\<lparr>started_ops := remove1 (Write_op m) (started_ops ?c)\<rparr>"
  obtain rest where out: "outgoing ?c = m # rest" and ws: "filter is_write_op (started_ops ?c) = [Write_op m]"
    using session_ok_in_flight [OF chat_ok_session [OF ok i], of m] p by (auto simp: op_pending_def)
  have none: "filter is_write_op (started_ops ?d) = []" using ws by (simp add: filter_remove1_op)
  have f: "finish_op i (Write_op m) s = s\<lparr>chat_sessions := (chat_sessions s)[i := ?d]\<rparr>"
    by (simp add: finish_op_def)
  show ?thesis
  proof (cases "failed ec")
    case True
    have "session_ok False (?d\<lparr>socket_open := False\<rparr>)" using none out by (simp add: session_ok_def)
    from leave_ok [OF ok i this] True i show ?thesis by (simp add: on_write_def f Let_def)
  next
    case False
    show ?thesis
    proof (cases rest)
      case Nil
      have "session_ok b (?d\<lparr>outgoing := []\<rparr>)" for b using none by (simp add: session_ok_def)
      from chat_ok_update [OF ok this] Nil out False i show ?thesis by (simp add: on_write_def f Let_def)
    next
      case (Cons n rest')
      let ?e = "?d\<lparr>outgoing := rest, started_ops := started_ops ?d @ [Write_op n]\<rparr>"
      have "session_ok b ?e" for b using none Cons by (simp add: session_ok_def)
      from chat_ok_update [OF ok this] Cons out False i show ?thesis
        by (simp add: on_write_def f async_write_def with_session_def Let_def)
    qed
  qed
qed

lemma on_accept_ok:
  assumes ok: "chat_ok s"
  shows "\<exists>s'. on_accept ec s = Inr s' \<and> chat_ok s' \<and> clients s' = clients s @ [length (chat_sessions s)] \<and>
    length (chat_sessions s') = Suc (length (chat_sessions s))"
proof -
  let ?i = "length (chat_sessions s)" and ?new = "new_chat_session (\<not> failed ec)"
  let ?c = "posted_to (''Welcome to chat'' @ crlf) ?new"
  let ?s2 = "s\<lparr>chat_sessions := chat_sessions s @ [?c], accepting := False\<rparr>"
  have fresh: "?i \<notin> set (clients s)" using ok by (auto simp: chat_ok_def list_all_iff)
  have new: "session_ok b ?c" for b by (simp add: session_ok_def posted_to_def new_chat_session_def)
  have "chat_ok ?s2"
    using ok new fresh by (auto simp: chat_ok_def list_all_iff nth_append less_Suc_eq)
  from server_post_ok [OF this] obtain s3 where s3: "server_post (''We have a newcomer'' @ crlf) ?s2 = Inr s3"
    "chat_ok s3" "clients s3 = clients s" "length (chat_sessions s3) = Suc ?i" by auto
  have "chat_sessions s3 ! ?i = ?c"
    using server_post_eq [OF \<open>chat_ok ?s2\<close>, of "''We have a newcomer'' @ crlf"] s3(1) fresh by auto
  then have "session_ok True (async_read (chat_sessions s3 ! ?i))" using new by simp
  moreover have "session_ok (j \<in> set (clients s)) (chat_sessions s3 ! j)" if "j < Suc ?i" for j
    using chat_ok_session [OF s3(2), of j] that s3(3,4) by simp
  ultimately have "chat_ok (s3\<lparr>clients := clients s @ [?i],
      chat_sessions := (chat_sessions s3)[?i := async_read (chat_sessions s3 ! ?i)], accepting := True\<rparr>)"
    using s3(2-4) fresh by (auto simp: chat_ok_def list_all_iff nth_update_if less_Suc_eq)
  moreover have "with_session ?i (session_post (''Welcome to chat'' @ crlf))
      (s\<lparr>chat_sessions := chat_sessions s @ [?new], accepting := False\<rparr>) = Inr ?s2"
    by (simp add: with_session_def session_post_eq)
  ultimately show ?thesis using s3 by (simp add: on_accept_def Let_def)
qed

definition chat_side :: "fault + chat_server \<Rightarrow> bool" where
  "chat_side r \<longleftrightarrow> (\<exists>s. r = Inr s \<and> chat_ok s)"

lemma chat_side_step: "chat_side r \<Longrightarrow> chat_step r r' \<Longrightarrow> chat_side r'"
proof (erule chat_step.cases)
  fix s ec
  assume "chat_side r" "r = Inr s" "r' = on_accept ec s"
  then show "chat_side r'" using on_accept_ok [of s ec] by (auto simp: chat_side_def)
next
  fix i s ec peer bs
  assume a: "chat_side r" "r = Inr s" "r' = on_read i ec peer bs (finish_op i Read_op s)" "op_pending i Read_op s"
  then have i: "i < length (chat_sessions s)" and "chat_ok s" by (auto simp: op_pending_def chat_side_def)
  then have "chat_ok (finish_op i Read_op s)" by (intro finish_read_ok)
  moreover have "i < length (chat_sessions (finish_op i Read_op s))" using i by (simp add: finish_op_def)
  ultimately show "chat_side r'" using on_read_ok [of _ i ec peer bs] a(3) by (auto simp: chat_side_def)
next
  fix i m s ec
  assume "chat_side r" "r = Inr s" "r' = on_write i ec (finish_op i (Write_op m) s)" "op_pending i (Write_op m) s"
  then show "chat_side r'" using on_write_ok [of s i m ec] by (auto simp: chat_side_def)
qed

interpretation chat: invariant_system "\<lambda>r. r = Inr chat_start" chat_step chat_side
proof unfold_locales
  show "r = Inr chat_start \<Longrightarrow> chat_side r" for r by (simp add: chat_side_def chat_ok_def chat_start_def)
qed (rule chat_side_step)

lemma chat_reachable_ok: "chat_reachable r \<Longrightarrow> \<exists>s. r = Inr s \<and> chat_ok s"
  using chat.inv_reachable [OF refl] unfolding chat_reachable_def chat_side_def by blast

section \<open>Leaving\<close>

text \<open>A session that is in \<open>chat_sessions\<close> and no client never becomes one again.\<close>

definition has_left :: "nat \<Rightarrow> fault + chat_server \<Rightarrow> bool" where
  "has_left i r \<longleftrightarrow> (\<exists>s. r = Inr s \<and> chat_ok s \<and> i < length (chat_sessions s) \<and> i \<notin> set (clients s))"

lemma step_clients:
  assumes "chat_ok s" "chat_step (Inr s) r"
  shows "\<exists>s'. r = Inr s' \<and> chat_ok s' \<and> set (clients s') \<subseteq> insert (length (chat_sessions s)) (set (clients s)) \<and>
    length (chat_sessions s) \<le> length (chat_sessions s')"
  using assms(2)
proof cases
  case (accept ec)
  with on_accept_ok [OF assms(1), of ec] show ?thesis by auto
next
  case (read i ec peer bs)
  then have i: "i < length (chat_sessions s)" by (simp add: op_pending_def)
  have "i < length (chat_sessions (finish_op i Read_op s))" "clients (finish_op i Read_op s) = clients s"
    "length (chat_sessions (finish_op i Read_op s)) = length (chat_sessions s)"
    using i by (simp_all add: finish_op_def)
  with on_read_ok [OF finish_read_ok [OF assms(1) i], of i ec peer bs] read(1) show ?thesis
    by (auto dest: notin_set_remove1 in_set_remove1 split: if_splits)
next
  case (wrote i m ec)
  with on_write_ok [OF assms(1), of i m ec] show ?thesis by (auto dest: in_set_remove1 split: if_splits)
qed

lemma has_left_step:
  assumes "has_left i r" "chat_step r r'"
  shows "has_left i r'"
proof -
  obtain s where s: "r = Inr s" "chat_ok s" "i < length (chat_sessions s)" "i \<notin> set (clients s)"
    using assms(1) by (auto simp: has_left_def)
  with step_clients [OF s(2), of r'] assms(2) show ?thesis by (fastforce simp: has_left_def)
qed

interpretation left: invariant_system "has_left i" chat_step "has_left i" for i
  by unfold_locales (auto intro: has_left_step)

section \<open>Properties\<close>

definition two_chatters :: "fault + chat_server" where
  "two_chatters = rbind (on_accept no_error chat_start) (on_accept no_error)"

definition chat_room :: chat_server where
  "chat_room = (case two_chatters of Inr s \<Rightarrow> s | Inl _ \<Rightarrow> chat_start)"

lemma chat_room_eq: "on_accept no_error chat_start = Inr s \<Longrightarrow> on_accept no_error s = Inr t \<Longrightarrow> chat_room = t"
  by (simp add: chat_room_def two_chatters_def)

lemma chat_room_facts:
  "clients chat_room = [0, 1]" "length (chat_sessions chat_room) = 2" "accepting chat_room"
  "outgoing (chat_sessions chat_room ! 0) = [''Welcome to chat'' @ crlf, ''We have a newcomer'' @ crlf]"
  "outgoing (chat_sessions chat_room ! 1) = [''Welcome to chat'' @ crlf]"
  "started_ops (chat_sessions chat_room ! 0) = [Write_op (''Welcome to chat'' @ crlf), Read_op]"
  by (simp_all add: chat_room_def two_chatters_def on_accept_def chat_start_def new_chat_session_def
      server_post_def with_session_def session_post_def async_write_def async_read_def Let_def)

lemma chat_room_reachable: "chat_reachable (Inr chat_room)"
proof -
  obtain s where s: "on_accept no_error chat_start = Inr s" "chat_ok s" "accepting s"
    by (simp add: on_accept_def chat_start_def new_chat_session_def chat_ok_def session_ok_def
      server_post_def with_session_def session_post_def async_write_def async_read_def Let_def)
  obtain t where t: "on_accept no_error s = Inr t" using on_accept_ok [OF s(2)] by blast
  have "chat_step (Inr chat_start) (Inr s)"
    using chat_step.accept [of chat_start no_error] s(1) by (simp add: chat_start_def)
  moreover have "chat_step (Inr s) (Inr t)" using chat_step.accept [of s no_error] s(3) t by simp
  ultimately show ?thesis unfolding chat_reachable_def chat_room_eq [OF s(1) t]
    by (meson converse_rtranclp_into_rtranclp rtranclp.rtrancl_refl)
qed

text \<open>
  C29: On every execution of the chat server no queue is read or popped when it is empty, every
  session has at most one write in flight, always of its front message, and no client with messages
  to send is without one.
\<close>

theorem chat_write_discipline:
  assumes "chat_reachable r"
  shows "\<exists>s. r = Inr s \<and> distinct (clients s) \<and>
    (\<forall>i < length (chat_sessions s).
      let c = chat_sessions s ! i; ws = filter is_write_op (started_ops c)
      in ws = [] \<and> (i \<in> set (clients s) \<longrightarrow> outgoing c = []) \<or> (\<exists>m rest. outgoing c = m # rest \<and> ws = [Write_op m]))"
proof -
  obtain s where s: "r = Inr s" "chat_ok s" using chat_reachable_ok [OF assms] by blast
  have "filter is_write_op (started_ops c) = [] \<and> (b \<longrightarrow> outgoing c = []) \<or>
      (\<exists>m rest. outgoing c = m # rest \<and> filter is_write_op (started_ops c) = [Write_op m])"
    if "session_ok b c" for b c
    using that by (cases "outgoing c") (auto simp: session_ok_def)
  then show ?thesis using s by (auto simp: chat_ok_def Let_def)
qed

theorem chat_write_discipline_witness:
  "\<exists>m. outgoing (chat_sessions chat_room ! 1) = [m] \<and>
     filter is_write_op (started_ops (chat_sessions chat_room ! 1)) = [Write_op m]"
proof -
  have "1 < length (chat_sessions chat_room)" by (simp add: chat_room_facts)
  with chat_write_discipline [OF chat_room_reachable] chat_room_facts show ?thesis
    by (fastforce simp: Let_def)
qed

text \<open>
  A broadcast puts the message at the end of the queue of every client, once, and touches no
  other session.
\<close>

theorem chat_broadcast:
  assumes "chat_reachable (Inr s)"
  shows "\<exists>s'. server_post m s = Inr s' \<and> clients s' = clients s \<and>
    (\<forall>i < length (chat_sessions s).
      outgoing (chat_sessions s' ! i) = outgoing (chat_sessions s ! i) @ (if i \<in> set (clients s) then [m] else []))"
proof -
  have "chat_ok s" using chat_reachable_ok [OF assms] by simp
  from server_post_eq [OF this, of m] show ?thesis by auto
qed

theorem chat_broadcast_witness:
  "\<exists>s'. server_post ''hello'' chat_room = Inr s' \<and> clients s' = clients chat_room \<and>
    (\<forall>i < length (chat_sessions chat_room). outgoing (chat_sessions s' ! i) =
      outgoing (chat_sessions chat_room ! i) @ (if i \<in> set (clients chat_room) then [''hello''] else []))"
  by (rule chat_broadcast [OF chat_room_reachable])

text \<open>
  What is broadcast after a read is the whole buffer, not only its first line: text the client
  sent behind the newline goes out with it, and nothing is left for \<open>consume\<close>.
\<close>

theorem chat_read_broadcasts_buffer:
  assumes "chat_reachable (Inr s)" "i \<in> set (clients s)" "\<not> failed ec"
  shows "\<exists>s'. on_read i ec peer bs s = Inr s' \<and> streambuf (chat_sessions s' ! i) = [] \<and>
    (\<forall>j < length (chat_sessions s). outgoing (chat_sessions s' ! j) = outgoing (chat_sessions s ! j) @
      (if j \<in> set (clients s) then [peer @ '': '' @ streambuf (chat_sessions s ! i) @ bs] else []))"
proof -
  have ok: "chat_ok s" using chat_reachable_ok [OF assms(1)] by simp
  have i: "i < length (chat_sessions s)" using ok assms(2) by (simp add: chat_ok_def list_all_iff)
  let ?s = "s\<lparr>chat_sessions := (chat_sessions s)[i := (chat_sessions s ! i)\<lparr>streambuf := []\<rparr>]\<rparr>"
    and ?m = "peer @ '': '' @ streambuf (chat_sessions s ! i) @ bs"
  have "chat_ok ?s" using chat_ok_session [OF ok i] by (intro chat_ok_update [OF ok]) simp
  from server_post_eq [OF this, of ?m] obtain s' where s': "server_post ?m ?s = Inr s'"
    "length (chat_sessions s') = length (chat_sessions s)"
    "\<forall>j < length (chat_sessions s). chat_sessions s' ! j =
      (if j \<in> set (clients s) then posted_to ?m (chat_sessions ?s ! j) else chat_sessions ?s ! j)" by auto
  then show ?thesis using assms(2,3) i
    by (auto simp: on_read_def Let_def nth_update_if async_read_def)
qed

theorem chat_read_broadcasts_buffer_witness:
  "\<exists>s'. on_read 0 no_error ''a'' (''hi'' @ [CHR 0x0A] @ ''yo'') chat_room = Inr s' \<and>
    outgoing (chat_sessions s' ! 1) = [''Welcome to chat'' @ crlf,
      ''a: '' @ streambuf (chat_sessions chat_room ! 0) @ ''hi'' @ [CHR 0x0A] @ ''yo'']"
proof -
  have "0 \<in> set (clients chat_room)" "\<not> failed no_error" by (simp_all add: chat_room_facts)
  from chat_read_broadcasts_buffer [OF chat_room_reachable this, of "''a''" "''hi'' @ [CHR 0x0A] @ ''yo''"]
  show ?thesis using chat_room_facts(1,2) chat_room_facts(5) by fastforce
qed

text \<open>
  A client leaves once: after its first error it is no client any more, on no execution does it
  become one again, and a second error of the same session announces nothing.
\<close>

theorem chat_leaves_once:
  assumes "chat_reachable (Inr s)" "op_pending i (Write_op m) s" "failed ec"
    and "chat_step\<^sup>*\<^sup>* (on_write i ec (finish_op i (Write_op m) s)) r"
  shows "\<exists>s'. r = Inr s' \<and> i \<notin> set (clients s') \<and> on_error i s' = Inr s'"
proof -
  have ok: "chat_ok s" using chat_reachable_ok [OF assms(1)] by simp
  from on_write_ok [OF ok assms(2), of ec] assms(3) ok have "has_left i (on_write i ec (finish_op i (Write_op m) s))"
    using assms(2) by (auto simp: has_left_def op_pending_def chat_ok_def)
  from left.inv_reachable [OF this assms(4)] show ?thesis
    by (auto simp: has_left_def on_error_def)
qed

theorem chat_leaves_once_witness:
  "\<exists>s'. on_write 0 \<lparr>ec_value = 104, ec_category = 0\<rparr>
      (finish_op 0 (Write_op (''Welcome to chat'' @ crlf)) chat_room) = Inr s' \<and>
    0 \<notin> set (clients s') \<and> on_error 0 s' = Inr s'"
  by (rule chat_leaves_once [OF chat_room_reachable _ _ rtranclp.rtrancl_refl])
    (simp_all add: op_pending_def chat_room_facts failed_def)

end
