(* ===== verification/Sync_Io.thy ===== *)
theory Sync_Io
  imports Asio_Prelude
begin

text \<open>
  The transfer loops of \<open>src/asio-cookbook/ch2_io\<close>: \<open>write_some\<close> in a loop
  (\<open>write_to_tcp_sync.cpp\<close>), \<open>async_write_some\<close> in a chain of callbacks (\<open>write_to_tcp_async.cpp\<close>),
  \<open>read_some\<close> in a loop and a read up to a newline (\<open>read_from_tcp_sync.cpp\<close>). A socket is what its
  successive calls return, an argument; what asio documents of it is the locale \<open>stream_socket\<close>: a
  call transfers at least one byte and at most as many as it was asked for, or fails. The loops may
  run for ever on a socket that breaks the contract, so they are partial functions and that they
  return is proved.
\<close>

section \<open>Sockets\<close>

text \<open>The \<open>n\<close>-th call, asked for \<open>k\<close> bytes: an error, or the number of bytes transferred.\<close>

type_synonym some_io = "nat \<Rightarrow> nat \<Rightarrow> error_code + nat"

locale stream_socket =
  fixes sock :: some_io
  assumes progress: "0 < k \<Longrightarrow> sock n k = Inr j \<Longrightarrow> 0 < j \<and> j \<le> k"
    and error: "sock n k = Inl e \<Longrightarrow> failed e"

section \<open>Writing\<close>

text \<open>
  The loop of \<open>WriteToSocket\<close>: the error it threw, if it did, and \<open>sent\<close>, what went out. The totals it
  prints on the way are not part of the result.
\<close>

partial_function (option) write_loop :: "some_io \<Rightarrow> string \<Rightarrow> nat \<Rightarrow> nat \<Rightarrow> string \<Rightarrow>
    (error_code option \<times> string) option" where
  "write_loop sock buf n total_bytes_written sent =
     (if total_bytes_written \<noteq> length buf
      then case sock n (length buf - total_bytes_written) of
          Inl e \<Rightarrow> Some (Some e, sent)
        | Inr j \<Rightarrow> write_loop sock buf (n + 1) (total_bytes_written + j)
                    (sent @ take j (drop total_bytes_written buf))
      else Some (None, sent))"

definition WriteToSocket :: "some_io \<Rightarrow> (error_code option \<times> string) option" where
  "WriteToSocket sock = write_loop sock ''Hello'' 0 0 []"

text \<open>The asynchronous form: \<open>Session\<close> and the callback, which may start the next operation.\<close>

record write_session =
  buf :: string
  total_bytes_written :: nat

datatype callback_result = Failed error_code | Finished | Started write_session

definition write_callback :: "error_code \<Rightarrow> nat \<Rightarrow> write_session \<Rightarrow> callback_result" where
  "write_callback ec bytes_transfered s =
     (if ec_value ec \<noteq> 0 then Failed ec
      else let s1 = s\<lparr>total_bytes_written := total_bytes_written s + bytes_transfered\<rparr>
           in if total_bytes_written s1 = length (buf s1) then Finished else Started s1)"

definition async_WriteToSocket :: write_session where
  "async_WriteToSocket = \<lparr>buf = ''Hello'', total_bytes_written = 0\<rparr>"

text \<open>\<open>run\<close>: the operations complete one after the other, each started by the callback before it.\<close>

partial_function (option) run_writes :: "some_io \<Rightarrow> nat \<Rightarrow> write_session \<Rightarrow> string \<Rightarrow>
    (error_code option \<times> string) option" where
  "run_writes sock n s sent =
     (case sock n (length (buf s) - total_bytes_written s) of
        Inl e \<Rightarrow> (case write_callback e 0 s of Failed e' \<Rightarrow> Some (Some e', sent) | _ \<Rightarrow> None)
      | Inr j \<Rightarrow>
          let sent' = sent @ take j (drop (total_bytes_written s) (buf s))
          in case write_callback no_error j s of
               Failed e' \<Rightarrow> Some (Some e', sent')
             | Finished \<Rightarrow> Some (None, sent')
             | Started s' \<Rightarrow> run_writes sock (n + 1) s' sent')"

section \<open>Reading\<close>

text \<open>The \<open>n\<close>-th \<open>read_some\<close>, asked for \<open>k\<close> bytes: an error, or the bytes read.\<close>

type_synonym some_input = "nat \<Rightarrow> nat \<Rightarrow> error_code + string"

locale input_socket =
  fixes sock :: some_input
  assumes read_progress: "0 < k \<Longrightarrow> sock n k = Inr bs \<Longrightarrow> bs \<noteq> [] \<and> length bs \<le> k"

definition MESSAGE_SIZE :: nat where "MESSAGE_SIZE = 7"

partial_function (option) read_loop :: "some_input \<Rightarrow> nat \<Rightarrow> string \<Rightarrow> (error_code + string) option" where
  "read_loop sock n got =
     (if length got \<noteq> MESSAGE_SIZE
      then case sock n (MESSAGE_SIZE - length got) of
          Inl e \<Rightarrow> Some (Inl e)
        | Inr bs \<Rightarrow> read_loop sock (n + 1) (got @ bs)
      else Some (Inr got))"

definition ReadFromSocket :: "some_input \<Rightarrow> (error_code + string) option" where
  "ReadFromSocket sock = read_loop sock 0 []"

text \<open>\<open>received\<close> is what \<open>read_until\<close> left in the buffer, or the error it threw.\<close>

definition ReadFromSocketDelim :: "error_code + string \<Rightarrow> error_code + string" where
  "ReadFromSocketDelim received = rbind received (\<lambda>text. Inr (fst (getline text)))"

section \<open>The loops return\<close>

text \<open>What both forms of the write amount to, by the number of calls that succeed.\<close>

context stream_socket
begin

lemma write_loop_ok:
  assumes "tot \<le> length b" "sent = take tot b"
  shows "\<exists>e m. write_loop sock b n tot sent = Some (e, take m b) \<and> tot \<le> m \<and> m \<le> length b \<and>
    (e = None \<longleftrightarrow> m = length b)"
  using assms
proof (induction "length b - tot" arbitrary: n tot sent rule: less_induct)
  case less
  show ?case
  proof (cases "tot = length b")
    case True
    with less.prems show ?thesis by (subst write_loop.simps) auto
  next
    case False
    then have k: "0 < length b - tot" using less.prems(1) by simp
    show ?thesis
    proof (cases "sock n (length b - tot)")
      case (Inl e)
      with False less.prems show ?thesis by (subst write_loop.simps) auto
    next
      case (Inr j)
      have j: "0 < j" "j \<le> length b - tot" using progress [OF k Inr] by simp_all
      have "length b - (tot + j) < length b - tot" "tot + j \<le> length b"
        using j k less.prems(1) by linarith+
      moreover have "sent @ take j (drop tot b) = take (tot + j) b"
        using less.prems(2) by (simp add: take_add)
      ultimately obtain e m where "write_loop sock b (n + 1) (tot + j) (sent @ take j (drop tot b)) =
          Some (e, take m b)" "tot + j \<le> m" "m \<le> length b" "e = None \<longleftrightarrow> m = length b"
        using less.hyps [of "tot + j" _ "n + 1"] by blast
      then show ?thesis using False Inr by (subst write_loop.simps) fastforce
    qed
  qed
qed

lemma run_writes_eq:
  assumes "total_bytes_written s < length (buf s)"
  shows "run_writes sock n s sent = write_loop sock (buf s) n (total_bytes_written s) sent"
  using assms
proof (induction "length (buf s) - total_bytes_written s" arbitrary: n s sent rule: less_induct)
  case less
  let ?k = "length (buf s) - total_bytes_written s"
  have k: "0 < ?k" using less.prems by simp
  show ?case
  proof (cases "sock n ?k")
    case (Inl e)
    then have "ec_value e \<noteq> 0" using error failed_def by blast
    with Inl less.prems show ?thesis
      by (subst run_writes.simps, subst write_loop.simps) (simp add: write_callback_def)
  next
    case (Inr j)
    have j: "0 < j" "j \<le> ?k" using progress [OF k Inr] by simp_all
    have w: "write_loop sock (buf s) n (total_bytes_written s) sent = write_loop sock (buf s) (n + 1)
        (total_bytes_written s + j) (sent @ take j (drop (total_bytes_written s) (buf s)))"
      using Inr less.prems by (subst write_loop.simps) simp
    show ?thesis
    proof (cases "j = ?k")
      case True
      then have t: "total_bytes_written s + j = length (buf s)" using k by simp
      then have "write_callback no_error j s = Finished" by (simp add: write_callback_def no_error_def Let_def)
      moreover have "write_loop sock (buf s) (n + 1) (length (buf s)) x = Some (None, x)" for x
        by (subst write_loop.simps) simp
      ultimately show ?thesis using Inr t unfolding w by (subst run_writes.simps) (simp add: Let_def)
    next
      case False
      let ?s = "s\<lparr>total_bytes_written := total_bytes_written s + j\<rparr>"
      have lt: "total_bytes_written s + j < length (buf s)" using j False by linarith
      then have "write_callback no_error j s = Started ?s" by (simp add: write_callback_def no_error_def Let_def)
      moreover have "run_writes sock (n + 1) ?s x = write_loop sock (buf s) (n + 1) (total_bytes_written s + j) x" for x
        using less.hyps [of ?s "n + 1" x] lt j by simp
      ultimately show ?thesis using Inr unfolding w by (subst run_writes.simps) (simp add: Let_def)
    qed
  qed
qed

end

context input_socket
begin

lemma read_loop_ok:
  assumes "length got \<le> MESSAGE_SIZE"
  shows "(\<exists>e. read_loop sock n got = Some (Inl e)) \<or>
    (\<exists>bs. read_loop sock n got = Some (Inr bs) \<and> length bs = MESSAGE_SIZE \<and> prefix got bs)"
  using assms
proof (induction "MESSAGE_SIZE - length got" arbitrary: n got rule: less_induct)
  case less
  show ?case
  proof (cases "length got = MESSAGE_SIZE")
    case True
    then show ?thesis by (subst (2) read_loop.simps) simp
  next
    case False
    then have k: "0 < MESSAGE_SIZE - length got" using less.prems by simp
    show ?thesis
    proof (cases "sock n (MESSAGE_SIZE - length got)")
      case (Inl e)
      with False show ?thesis by (subst read_loop.simps) simp
    next
      case (Inr bs)
      have bs: "bs \<noteq> []" "length bs \<le> MESSAGE_SIZE - length got" using read_progress [OF k Inr] by simp_all
      then have "0 < length bs" by simp
      then have "MESSAGE_SIZE - length (got @ bs) < MESSAGE_SIZE - length got" "length (got @ bs) \<le> MESSAGE_SIZE"
        using bs(2) k by (simp_all only: length_append)
      from less.hyps [OF this, of "n + 1"] have
        "(\<exists>e. read_loop sock (n + 1) (got @ bs) = Some (Inl e)) \<or>
         (\<exists>cs. read_loop sock (n + 1) (got @ bs) = Some (Inr cs) \<and> length cs = MESSAGE_SIZE \<and> prefix got cs)"
        using append_prefixD by blast
      moreover have "read_loop sock n got = read_loop sock (n + 1) (got @ bs)"
        using False Inr by (subst read_loop.simps) simp
      ultimately show ?thesis by simp
    qed
  qed
qed

end

text \<open>A socket that takes two bytes at a time, and one that gives single characters.\<close>

definition two_at_a_time :: some_io where
  "two_at_a_time n k = Inr (min 2 k)"

definition one_char :: some_input where
  "one_char n k = Inr [CHR ''x'']"

interpretation two: stream_socket two_at_a_time
  by unfold_locales (auto simp: two_at_a_time_def)

interpretation one: input_socket one_char
  by unfold_locales (auto simp: one_char_def)

section \<open>Properties\<close>

text \<open>
  The loop of \<open>WriteToSocket\<close> returns on every socket that keeps the contract: without an error
  exactly when all of the message was written, and what was written is always a first part of it.
\<close>

theorem write_loop_complete:
  assumes "stream_socket sock"
  shows "\<exists>e m. WriteToSocket sock = Some (e, take m ''Hello'') \<and> m \<le> 5 \<and> (e = None \<longleftrightarrow> m = 5)"
  using stream_socket.write_loop_ok [OF assms, of 0 "''Hello''" "[]" 0]
  unfolding WriteToSocket_def by (simp add: eval_nat_numeral)

theorem write_loop_complete_witness:
  "\<exists>e m. WriteToSocket two_at_a_time = Some (e, take m ''Hello'') \<and> m \<le> 5 \<and> (e = None \<longleftrightarrow> m = 5)"
  by (rule write_loop_complete [OF two.stream_socket_axioms])

text \<open>
  C39: The chain of callbacks writes exactly what the loop writes, with the same outcome, on every
  socket that keeps the contract.
\<close>

theorem write_async_equals_sync:
  assumes "stream_socket sock"
  shows "run_writes sock 0 async_WriteToSocket [] = WriteToSocket sock"
  using stream_socket.run_writes_eq [OF assms, of async_WriteToSocket 0 "[]"]
  by (simp add: async_WriteToSocket_def WriteToSocket_def)

theorem write_async_equals_sync_witness:
  "run_writes two_at_a_time 0 async_WriteToSocket [] = WriteToSocket two_at_a_time"
  by (rule write_async_equals_sync [OF two.stream_socket_axioms])

text \<open>
  The loop of \<open>ReadFromSocket\<close> returns on every socket that keeps the contract, with an error or
  with exactly seven bytes: it never writes behind its buffer.
\<close>

theorem read_loop_complete:
  assumes "input_socket sock"
  shows "(\<exists>e. ReadFromSocket sock = Some (Inl e)) \<or>
    (\<exists>bs. ReadFromSocket sock = Some (Inr bs) \<and> length bs = 7)"
  using input_socket.read_loop_ok [OF assms, of "[]" 0]
  by (auto simp: ReadFromSocket_def MESSAGE_SIZE_def)

theorem read_loop_complete_witness:
  "(\<exists>e. ReadFromSocket one_char = Some (Inl e)) \<or>
    (\<exists>bs. ReadFromSocket one_char = Some (Inr bs) \<and> length bs = 7)"
  by (rule read_loop_complete [OF one.input_socket_axioms])

end
