(* ===== verification/Sync_Server.thy ===== *)
theory Sync_Server
  imports Sync_Io
begin

text \<open>
  The synchronous programs of \<open>src/asio-cookbook\<close>: the client \<open>ch3_client/sync_tcp_client.cpp\<close>, the
  datagram client \<open>sync_udp_client.cpp\<close>, and the servers
  \<open>ch4_server/sync_iterative_tcp_server.cpp\<close> and \<open>sync_parallel_tcp_server.cpp\<close>. What a socket
  does is an argument; an \<open>asio::system_error\<close> is a value of the sum.
\<close>

section \<open>The stream client\<close>

definition sync_request_text :: "u32 \<Rightarrow> string" where
  "sync_request_text duration_sec = ''EMULATE_LONG_COMP_OP '' @ show_nat (unat duration_sec) @ [newline]"

text \<open>\<open>peer\<close>: the request written, what \<open>read_until\<close> leaves in the buffer, or the error of either.\<close>

definition sync_EmulateLongComputationOp :: "(string \<Rightarrow> error_code + string) \<Rightarrow> u32 \<Rightarrow> error_code + string" where
  "sync_EmulateLongComputationOp peer duration_sec =
     rbind (peer (sync_request_text duration_sec)) (\<lambda>received. Inr (fst (getline received)))"

section \<open>The datagram client\<close>

text \<open>
  \<open>ReceiveResponse\<close> copies at most six bytes of the datagram and shuts the socket down; a socket shut
  down sends no more. \<open>net\<close> is what comes back for a request sent to an endpoint.
\<close>

record udp_client =
  udp_shut :: bool

definition udp_EmulateLongComputationOp :: "(nat \<Rightarrow> string \<Rightarrow> error_code + string) \<Rightarrow> error_code \<Rightarrow> u32 \<Rightarrow> nat \<Rightarrow>
    udp_client \<Rightarrow> error_code + string \<times> udp_client" where
  "udp_EmulateLongComputationOp net shut_error duration_sec ep c =
     (if udp_shut c then Inl shut_error
      else rbind (net ep (sync_request_text duration_sec)) (\<lambda>datagram.
        Inr (take 6 datagram, c\<lparr>udp_shut := True\<rparr>)))"

section \<open>The service\<close>

text \<open>\<open>while (i != 1000000) i++;\<close>\<close>

partial_function (option) busy_loop :: "int \<Rightarrow> int option" where
  "busy_loop i = (if i \<noteq> 1000000 then busy_loop (i + 1) else Some i)"

lemma busy_loop_returns: "i \<le> 1000000 \<Longrightarrow> busy_loop i = Some 1000000"
proof (induction "nat (1000000 - i)" arbitrary: i)
  case 0
  then show ?case by (subst busy_loop.simps) simp
next
  case (Suc k)
  then have "busy_loop (i + 1) = Some 1000000" by simp
  with Suc show ?case by (subst busy_loop.simps) simp
qed

definition response_text :: string where
  "response_text = ''Response'' @ [newline]"

text \<open>
  \<open>HandleClient\<close>: \<open>request\<close> is the outcome of \<open>read_until\<close>, \<open>write_error\<close> the error \<open>write\<close> throws, if
  any. The result is the response sent, if it was, and the error printed, if there was one;
  \<open>None\<close> would mean that the function does not return.
\<close>

type_synonym client_io = "(error_code + string) \<times> error_code option"

definition HandleClient :: "client_io \<Rightarrow> (string option \<times> error_code option) option" where
  "HandleClient io =
     (case fst io of
        Inl e \<Rightarrow> Some (None, Some e)
      | Inr request \<Rightarrow>
          (case busy_loop 0 of
             None \<Rightarrow> None
           | Some i \<Rightarrow>
               (case snd io of
                  Some e \<Rightarrow> Some (None, Some e)
                | None \<Rightarrow> Some (Some response_text, None))))"

section \<open>The server\<close>

text \<open>
  \<open>Run\<close>: \<open>stop n\<close> is what the \<open>n\<close>-th test of \<open>m_stop\<close> reads; \<open>conns\<close> are the results of \<open>accept\<close>, in
  order. \<open>Waiting\<close>: blocked in \<open>accept\<close>; \<open>Died\<close>: an exception of \<open>accept\<close>, which nothing in the
  server's thread catches.
\<close>

datatype run_status = Returned | Waiting | Died

fun Run :: "(nat \<Rightarrow> bool) \<Rightarrow> nat \<Rightarrow> (error_code + client_io) list \<Rightarrow>
    (string option \<times> error_code option) option list \<times> run_status" where
  "Run stop n [] = ([], if stop n then Returned else Waiting)"
| "Run stop n (conn # conns) =
     (if stop n then ([], Returned)
      else case conn of
          Inl e \<Rightarrow> ([], Died)
        | Inr io \<Rightarrow> (let (results, status) = Run stop (n + 1) conns in (HandleClient io # results, status)))"

text \<open>
  The parallel server runs \<open>HandleClient\<close> in a detached thread of its own and deletes the service at
  its end: the loop does the same with the clients, only not one after the other.
\<close>

record parallel_service =
  request_of :: client_io
  deleted :: bool
  result_of :: "(string option \<times> error_code option) option"

definition StartHandlingClient :: "client_io \<Rightarrow> parallel_service list \<Rightarrow> parallel_service list" where
  "StartHandlingClient io services = services @ [\<lparr>request_of = io, deleted = False, result_of = None\<rparr>]"

definition parallel_HandleClient :: "nat \<Rightarrow> parallel_service list \<Rightarrow> fault + parallel_service list" where
  "parallel_HandleClient i services =
     (if deleted (services ! i) then Inl Use_after_free
      else let svc = services ! i
           in Inr (services[i := svc\<lparr>result_of := HandleClient (request_of svc), deleted := True\<rparr>]))"

fun parallel_Run :: "(nat \<Rightarrow> bool) \<Rightarrow> nat \<Rightarrow> (error_code + client_io) list \<Rightarrow> parallel_service list \<Rightarrow>
    parallel_service list \<times> run_status" where
  "parallel_Run stop n [] services = (services, if stop n then Returned else Waiting)"
| "parallel_Run stop n (conn # conns) services =
     (if stop n then (services, Returned)
      else case conn of
          Inl e \<Rightarrow> (services, Died)
        | Inr io \<Rightarrow> parallel_Run stop (n + 1) conns (StartHandlingClient io services))"

section \<open>Lemmas\<close>

lemma HandleClient_returns:
  "HandleClient io = Some (case io of
     (Inr _, None) \<Rightarrow> (Some response_text, None) | (Inl e, _) \<Rightarrow> (None, Some e) | (Inr _, Some e) \<Rightarrow> (None, Some e))"
  by (cases io) (auto simp: HandleClient_def busy_loop_returns split: sum.split option.split)

text \<open>The server as the peer of a client; \<open>rest\<close> is what comes behind the response.\<close>

definition server_peer :: "error_code \<Rightarrow> string \<Rightarrow> string \<Rightarrow> error_code + string" where
  "server_peer eof rest request =
     (case HandleClient (Inr request, None) of
        Some (Some sent, None) \<Rightarrow> Inr (sent @ rest)
      | _ \<Rightarrow> Inl eof)"

text \<open>How many of the connections the loop takes.\<close>

definition served :: "(nat \<Rightarrow> bool) \<Rightarrow> nat \<Rightarrow> nat \<Rightarrow> nat" where
  "served stop n len = length (takeWhile (\<lambda>i. \<not> stop i) [n..<n + len])"

lemma served_simps [simp]:
  "served stop n 0 = 0"
  "served stop n (Suc len) = (if stop n then 0 else Suc (served stop (Suc n) len))"
proof -
  have "[n..<n + Suc len] = n # [Suc n..<Suc n + len]" by (simp add: upt_rec [of n])
  then show "served stop n (Suc len) = (if stop n then 0 else Suc (served stop (Suc n) len))"
    by (simp add: served_def del: upt_Suc)
qed (simp add: served_def)

lemma Run_eq:
  "Run stop n (map Inr ios) =
    (map HandleClient (take (served stop n (length ios)) ios),
     if \<exists>i \<in> {n..n + length ios}. stop i then Returned else Waiting)"
proof (induction ios arbitrary: n)
  case (Cons io ios)
  have "{n..n + Suc (length ios)} = insert n {Suc n..Suc n + length ios}" by auto
  then have "(\<exists>i \<in> {n..n + Suc (length ios)}. stop i) \<longleftrightarrow> stop n \<or> (\<exists>i \<in> {Suc n..Suc n + length ios}. stop i)"
    by (simp only: bex_simps)
  with Cons.IH [of "Suc n"] show ?case by simp
qed simp

text \<open>The parallel loop starts a service for exactly the clients the iterative one serves.\<close>

definition new_service :: "client_io \<Rightarrow> parallel_service" where
  "new_service io = \<lparr>request_of = io, deleted = False, result_of = None\<rparr>"

lemma parallel_Run_eq:
  "fst (parallel_Run stop n conns svcs) = svcs @ map new_service (take (length (fst (Run stop n conns))) (map projr conns)) \<and>
   snd (parallel_Run stop n conns svcs) = snd (Run stop n conns)"
  by (induction stop n conns arbitrary: svcs rule: Run.induct)
    (auto simp: StartHandlingClient_def new_service_def split: sum.split prod.split)

lemma sync_response:
  "sync_EmulateLongComputationOp (server_peer eof rest) d = Inr ''Response''"
proof -
  have "HandleClient (Inr request, None) = Some (Some response_text, None)" for request
    by (simp add: HandleClient_returns)
  moreover have "newline \<notin> set ''Response''" by (simp add: newline_def)
  from getline_line [OF this, of rest] have "getline (response_text @ rest) = (''Response'', rest)"
    by (simp add: response_text_def)
  ultimately show ?thesis by (simp add: sync_EmulateLongComputationOp_def server_peer_def)
qed

section \<open>Properties\<close>

text \<open>
  The iterative server serves its clients in order until it reads the stop flag; a client whose
  read or write fails is answered by an error message and costs the others nothing; the service
  always returns.
\<close>

theorem sync_server_serves:
  "fst (Run stop 0 (map Inr ios)) = map Some (map (\<lambda>io. case io of
      (Inr _, None) \<Rightarrow> (Some response_text, None) | (Inl e, _) \<Rightarrow> (None, Some e) | (Inr _, Some e) \<Rightarrow> (None, Some e))
    (take (served stop 0 (length ios)) ios))"
  unfolding Run_eq by (simp add: HandleClient_returns)

text \<open>
  \<open>Stop\<close> ends the loop only at its next test: when every test so far read false, the server is
  blocked in \<open>accept\<close> after its last client, and returns only if one more client connects.
\<close>

theorem sync_server_stop_waits:
  assumes "\<forall>i \<le> length ios. \<not> stop i" "stop (Suc (length ios))"
  shows "snd (Run stop 0 (map Inr ios)) = Waiting \<and> snd (Run stop 0 (map Inr (ios @ [io]))) = Returned"
  using assms unfolding Run_eq by auto

theorem sync_server_stop_waits_witness:
  "snd (Run (\<lambda>i. i = 2) 0 (map Inr [(Inr ''x'', None)])) = Waiting \<and>
   snd (Run (\<lambda>i. i = 2) 0 (map Inr ([(Inr ''x'', None)] @ [(Inr ''y'', None)]))) = Returned"
  by (rule sync_server_stop_waits) auto

text \<open>
  The parallel server makes one service for each client the iterative server would serve, ends in
  the same way, and deletes no service before its own thread has handled its client.
\<close>

theorem parallel_server_services:
  "snd (parallel_Run stop 0 conns []) = snd (Run stop 0 conns) \<and>
   map request_of (fst (parallel_Run stop 0 conns [])) =
     take (length (fst (Run stop 0 conns))) (map projr conns) \<and>
   list_all (\<lambda>svc. \<not> deleted svc) (fst (parallel_Run stop 0 conns []))"
proof -
  have "map request_of (map new_service ios) = ios" "list_all (\<lambda>svc. \<not> deleted svc) (map new_service ios)" for ios
    by (induction ios) (simp_all add: new_service_def)
  then show ?thesis using parallel_Run_eq [of stop 0 conns "[]"] by simp
qed

text \<open>
  A synchronous client of a synchronous server gets the line \<open>Response\<close>, without its newline and
  without anything that comes behind it, whatever it asks for.
\<close>

theorem sync_round_trip:
  "sync_EmulateLongComputationOp (server_peer eof rest) d = Inr ''Response''"
  by (rule sync_response)

text \<open>
  The datagram client cuts a response after six bytes and serves one request only: every later
  one fails, although the class is meant to talk to several servers.
\<close>

theorem udp_one_request:
  assumes "udp_EmulateLongComputationOp net e d ep c = Inr (response, c')"
  shows "length response \<le> 6 \<and> udp_EmulateLongComputationOp net' e d' ep' c' = Inl e"
  using assms by (auto simp: udp_EmulateLongComputationOp_def rbind_Inr_iff split: if_splits)

theorem udp_one_request_witness:
  "length ''Respon'' \<le> 6 \<and> udp_EmulateLongComputationOp (\<lambda>ep request. Inr response_text)
    \<lparr>ec_value = 107, ec_category = 0\<rparr> 10 2 \<lparr>udp_shut = True\<rparr> = Inl \<lparr>ec_value = 107, ec_category = 0\<rparr>"
proof (rule udp_one_request)
  show "udp_EmulateLongComputationOp (\<lambda>ep request. Inr response_text) \<lparr>ec_value = 107, ec_category = 0\<rparr>
      10 1 \<lparr>udp_shut = False\<rparr> = Inr (''Respon'', \<lparr>udp_shut = True\<rparr>)"
    by (simp add: udp_EmulateLongComputationOp_def response_text_def)
qed

end
