(* ===== verification/Async_Server.thy ===== *)
theory Async_Server
  imports Sync_Server
begin

text \<open>
  The asynchronous server \<open>src/asio-cookbook/ch4_server/async_parallel_tcp_server.cpp\<close>: services
  that delete themselves, the acceptor and the pool of threads. A service is its index in
  \<open>services\<close>; its handlers capture the raw \<open>this\<close>, so a completion that finds the service deleted is
  a use after free. Shown: it never happens, every connection gets at most one response, and what
  \<open>Stop\<close> leaves behind.
\<close>

section \<open>State\<close>

datatype svc_op = Read_request | Write_response string

record service =
  svc_response :: string
  svc_ops :: "svc_op list"
  svc_deleted :: bool
  responses :: nat        \<comment> \<open>responses written so far\<close>
  processed :: nat        \<comment> \<open>calls of \<open>ProcessRequest\<close> so far\<close>

record async_server =
  services :: "service list"
  accepting_ops :: nat
  acceptor_open :: bool
  is_stopped :: bool
  ioc_stopped :: bool
  thread_pool :: nat

section \<open>The service\<close>

text \<open>\<open>new Service(sock)\<close> and \<open>StartHandling\<close>.\<close>

definition StartHandling :: service where
  "StartHandling = \<lparr>svc_response = [], svc_ops = [Read_request], svc_deleted = False, responses = 0,
     processed = 0\<rparr>"

definition ProcessRequest :: "string \<Rightarrow> string option" where
  "ProcessRequest request = (case busy_loop 0 of None \<Rightarrow> None | Some i \<Rightarrow> Some response_text)"

definition OnFinish :: "service \<Rightarrow> service" where
  "OnFinish v = v\<lparr>svc_deleted := True\<rparr>"

text \<open>\<open>None\<close> would mean that the handler does not return.\<close>

definition OnRequestReceived :: "error_code \<Rightarrow> string \<Rightarrow> service \<Rightarrow> service option" where
  "OnRequestReceived ec request v =
     (if ec_value ec \<noteq> 0 then Some (OnFinish v)
      else case ProcessRequest request of
          None \<Rightarrow> None
        | Some r \<Rightarrow> Some (v\<lparr>svc_response := r, svc_ops := svc_ops v @ [Write_response r], processed := processed v + 1\<rparr>))"

definition OnResponseSent :: "error_code \<Rightarrow> service \<Rightarrow> service" where
  "OnResponseSent ec v = OnFinish (if ec_value ec \<noteq> 0 then v else v\<lparr>responses := responses v + 1\<rparr>)"

section \<open>The acceptor and the server\<close>

definition InitAccept :: "async_server \<Rightarrow> async_server" where
  "InitAccept s = s\<lparr>accepting_ops := accepting_ops s + 1\<rparr>"

definition OnAccept :: "error_code \<Rightarrow> async_server \<Rightarrow> async_server" where
  "OnAccept ec s =
     (let s1 = (if ec_value ec = 0 then s\<lparr>services := services s @ [StartHandling]\<rparr> else s)
      in if \<not> is_stopped s1 then InitAccept s1 else s1\<lparr>acceptor_open := False\<rparr>)"

definition new_async_server :: async_server where
  "new_async_server = \<lparr>services = [], accepting_ops = 0, acceptor_open = False, is_stopped = False,
     ioc_stopped = False, thread_pool = 0\<rparr>"

text \<open>\<open>Start\<close>; the assertion on the size of the pool ends the process.\<close>

definition StartServer :: "nat \<Rightarrow> async_server \<Rightarrow> fault + async_server" where
  "StartServer thread_pool_size s =
     (if thread_pool_size = 0 then Inl Terminate
      else let s1 = InitAccept (s\<lparr>acceptor_open := True\<rparr>)
           in Inr (s1\<lparr>thread_pool := thread_pool_size\<rparr>))"

text \<open>\<open>Stop\<close>: the flag, then the context; handlers may run between the two.\<close>

definition StopAcceptor :: "async_server \<Rightarrow> async_server" where
  "StopAcceptor s = s\<lparr>is_stopped := True\<rparr>"

definition StopContext :: "async_server \<Rightarrow> async_server" where
  "StopContext s = s\<lparr>ioc_stopped := True\<rparr>"

section \<open>Executions\<close>

definition svc_event :: "nat \<Rightarrow> svc_op \<Rightarrow> error_code \<Rightarrow> string \<Rightarrow> async_server \<Rightarrow> fault + async_server option" where
  "svc_event i p ec request s =
     (let v = services s ! i; v0 = v\<lparr>svc_ops := remove1 p (svc_ops v)\<rparr>;
          put = (\<lambda>v'. s\<lparr>services := (services s)[i := v']\<rparr>)
      in if svc_deleted v then Inl Use_after_free
         else case p of
             Read_request \<Rightarrow> Inr (map_option put (OnRequestReceived ec request v0))
           | Write_response r \<Rightarrow> Inr (Some (put (OnResponseSent ec v0))))"

definition ioc_runs :: "async_server \<Rightarrow> bool" where
  "ioc_runs s \<longleftrightarrow> 0 < thread_pool s \<and> \<not> ioc_stopped s"

inductive server_event :: "fault + async_server option \<Rightarrow> fault + async_server option \<Rightarrow> bool" where
  accepted: "ioc_runs s \<Longrightarrow> 0 < accepting_ops s \<Longrightarrow>
    server_event (Inr (Some s)) (Inr (Some (OnAccept ec (s\<lparr>accepting_ops := accepting_ops s - 1\<rparr>))))"
| serviced: "ioc_runs s \<Longrightarrow> i < length (services s) \<Longrightarrow> p \<in> set (svc_ops (services s ! i)) \<Longrightarrow>
    server_event (Inr (Some s)) (svc_event i p ec request s)"
| stop_acceptor: "server_event (Inr (Some s)) (Inr (Some (StopAcceptor s)))"
| stop_context: "server_event (Inr (Some s)) (Inr (Some (StopContext s)))"

definition async_server_reachable :: "nat \<Rightarrow> fault + async_server option \<Rightarrow> bool" where
  "async_server_reachable n r \<longleftrightarrow>
     (\<exists>s. StartServer n new_async_server = Inr s \<and> server_event\<^sup>*\<^sup>* (Inr (Some s)) r)"

section \<open>Invariant\<close>

text \<open>A service waits for one operation until it is deleted, and responds at most once.\<close>

definition service_ok :: "service \<Rightarrow> bool" where
  "service_ok v \<longleftrightarrow>
     (if svc_deleted v then svc_ops v = [] \<and> responses v \<le> 1
      else responses v = 0 \<and> (svc_ops v = [Read_request] \<or> svc_ops v = [Write_response response_text]))"

definition async_server_ok :: "fault + async_server option \<Rightarrow> bool" where
  "async_server_ok r \<longleftrightarrow> (\<exists>s. r = Inr (Some s) \<and> list_all service_ok (services s) \<and>
     (if acceptor_open s then accepting_ops s = 1 else accepting_ops s = 0 \<and> is_stopped s))"

lemma service_ok_start [simp]: "service_ok StartHandling"
  by (simp add: service_ok_def StartHandling_def)

lemma svc_event_ok:
  assumes "list_all service_ok (services s)" "i < length (services s)" "p \<in> set (svc_ops (services s ! i))"
  shows "\<exists>v. svc_event i p ec request s = Inr (Some (s\<lparr>services := (services s)[i := v]\<rparr>)) \<and> service_ok v"
proof -
  have ok: "service_ok (services s ! i)" using assms(1,2) by (simp add: list_all_length)
  then show ?thesis using assms(3)
    by (cases p; cases "ec_value ec = 0")
      (auto simp: svc_event_def OnRequestReceived_def OnResponseSent_def OnFinish_def ProcessRequest_def
        busy_loop_returns service_ok_def Let_def split: if_splits)
qed

lemma async_server_step: "async_server_ok r \<Longrightarrow> server_event r r' \<Longrightarrow> async_server_ok r'"
proof (erule server_event.cases)
  fix s i p ec request
  assume a: "async_server_ok r" "r = Inr (Some s)" "r' = svc_event i p ec request s"
    "i < length (services s)" "p \<in> set (svc_ops (services s ! i))"
  then have all: "list_all service_ok (services s)" by (simp add: async_server_ok_def)
  from svc_event_ok [OF all a(4,5)] obtain v where
    "svc_event i p ec request s = Inr (Some (s\<lparr>services := (services s)[i := v]\<rparr>))" "service_ok v" by blast
  with a(1-3) all show "async_server_ok r'"
    by (simp add: async_server_ok_def list_all_length nth_update_if)
next
  fix s ec
  assume a: "async_server_ok r" "r = Inr (Some s)" "0 < accepting_ops s"
    "r' = Inr (Some (OnAccept ec (s\<lparr>accepting_ops := accepting_ops s - 1\<rparr>)))"
  then have all: "list_all service_ok (services s)" and one: "acceptor_open s" "accepting_ops s = 1"
    by (simp_all add: async_server_ok_def split: if_splits)
  then show "async_server_ok r'" using a(4)
    by (simp add: async_server_ok_def OnAccept_def InitAccept_def Let_def)
next
  fix s
  assume "async_server_ok r" "r = Inr (Some s)" "r' = Inr (Some (StopAcceptor s))"
  then show "async_server_ok r'" by (simp add: async_server_ok_def StopAcceptor_def split: if_splits)
next
  fix s
  assume "async_server_ok r" "r = Inr (Some s)" "r' = Inr (Some (StopContext s))"
  then show "async_server_ok r'" by (simp add: async_server_ok_def StopContext_def)
qed

lemma StartServer_Inr:
  "StartServer n s = Inr s' \<Longrightarrow> s' = (InitAccept (s\<lparr>acceptor_open := True\<rparr>))\<lparr>thread_pool := n\<rparr>"
  by (simp add: StartServer_def Let_def split: if_splits)

interpretation async_server: invariant_system
    "\<lambda>r. \<exists>s. StartServer n new_async_server = Inr s \<and> r = Inr (Some s)" server_event async_server_ok for n
proof unfold_locales
  fix r :: "fault + async_server option"
  assume "\<exists>s. StartServer n new_async_server = Inr s \<and> r = Inr (Some s)"
  then obtain s where s: "StartServer n new_async_server = Inr s" "r = Inr (Some s)" by blast
  have "services s = []" "accepting_ops s = 1" "acceptor_open s"
    unfolding StartServer_Inr [OF s(1)] by (simp_all add: InitAccept_def new_async_server_def)
  then show "async_server_ok r" by (simp add: async_server_ok_def s(2))
qed (rule async_server_step)

lemma async_server_reachable_ok: "async_server_reachable n r \<Longrightarrow> async_server_ok r"
  using async_server.inv_reachable unfolding async_server_reachable_def by blast

section \<open>A run\<close>

definition running_server :: async_server where
  "running_server = OnAccept no_error (new_async_server\<lparr>acceptor_open := True, thread_pool := 2\<rparr>)"

lemma running_server_reachable: "async_server_reachable 2 (Inr (Some running_server))"
proof -
  let ?s = "new_async_server\<lparr>acceptor_open := True, accepting_ops := 1, thread_pool := 2\<rparr>"
  have st: "StartServer 2 new_async_server = Inr ?s"
    by (simp add: StartServer_def InitAccept_def new_async_server_def)
  have "server_event (Inr (Some ?s)) (Inr (Some (OnAccept no_error (?s\<lparr>accepting_ops := accepting_ops ?s - 1\<rparr>))))"
    by (rule server_event.accepted) (simp_all add: ioc_runs_def new_async_server_def)
  moreover have "OnAccept no_error (?s\<lparr>accepting_ops := accepting_ops ?s - 1\<rparr>) = running_server"
    by (simp add: running_server_def new_async_server_def)
  ultimately have "server_event (Inr (Some ?s)) (Inr (Some running_server))" by simp
  with st show ?thesis unfolding async_server_reachable_def by blast
qed

section \<open>Properties\<close>

text \<open>
  On every execution of the asynchronous server no handler runs on a deleted service, every
  handler returns, a service that is not deleted waits for exactly one operation, and a connection
  is sent at most one response.
\<close>

theorem async_server_safe:
  assumes "async_server_reachable n r"
  shows "\<exists>s. r = Inr (Some s) \<and> (\<forall>v \<in> set (services s).
    responses v \<le> 1 \<and> length (svc_ops v) = (if svc_deleted v then 0 else 1))"
  using async_server_reachable_ok [OF assms]
  by (fastforce simp: async_server_ok_def service_ok_def list_all_iff split: if_splits)

theorem async_server_safe_witness:
  "responses (services running_server ! 0) \<le> 1 \<and> length (svc_ops (services running_server ! 0)) = 1"
proof -
  have "services running_server \<noteq> [] \<and> \<not> svc_deleted (services running_server ! 0)"
    by (simp add: running_server_def OnAccept_def InitAccept_def StartHandling_def no_error_def new_async_server_def Let_def)
  then show ?thesis using async_server_safe [OF running_server_reachable] by auto
qed

text \<open>
  The acceptor keeps exactly one accept in flight, whatever the accepts before it gave, until it
  was stopped; it is closed only by a connection that arrives after the flag was set and before the
  context stops.
\<close>

theorem async_server_accepts:
  assumes "async_server_reachable n (Inr (Some s))"
  shows "(if acceptor_open s then accepting_ops s = 1 else accepting_ops s = 0 \<and> is_stopped s) \<and>
    (acceptor_open s \<longrightarrow> acceptor_open (StopContext (StopAcceptor s)))"
  using async_server_reachable_ok [OF assms]
  by (simp add: async_server_ok_def StopContext_def StopAcceptor_def)

theorem async_server_accepts_witness:
  "(if acceptor_open running_server then accepting_ops running_server = 1
    else accepting_ops running_server = 0 \<and> is_stopped running_server) \<and>
   (acceptor_open running_server \<longrightarrow> acceptor_open (StopContext (StopAcceptor running_server)))"
  by (rule async_server_accepts [OF running_server_reachable])

text \<open>
  After \<open>Stop\<close> nothing changes any more: no service that was not deleted ever is, and the
  acceptor is never closed.
\<close>

theorem async_server_stop_leaks:
  assumes "server_event\<^sup>*\<^sup>* (Inr (Some (StopContext (StopAcceptor s)))) r"
  shows "\<exists>s'. r = Inr (Some s') \<and> services s' = services s \<and> acceptor_open s' = acceptor_open s"
proof -
  have "\<exists>s'. r = Inr (Some s') \<and> services s' = services s \<and> acceptor_open s' = acceptor_open s \<and> ioc_stopped s'"
    using assms
  proof (induction rule: rtranclp_induct)
    case base
    then show ?case by (simp add: StopContext_def StopAcceptor_def)
  next
    case (step y z)
    from step(2,3) show ?case
      by (auto elim!: server_event.cases simp: ioc_runs_def StopContext_def StopAcceptor_def)
  qed
  then show ?thesis by blast
qed

theorem async_server_stop_leaks_witness:
  "\<exists>s'. Inr (Some (StopContext (StopAcceptor running_server))) = (Inr (Some s') :: fault + async_server option) \<and>
    services s' = services running_server \<and> acceptor_open s' = acceptor_open running_server"
  by (rule async_server_stop_leaks) simp

end
