(* ===== verification/Async_Tcp_Client.thy ===== *)
theory Async_Tcp_Client
  imports Asio_Prelude
begin

text \<open>
  The asynchronous client of \<open>src/asio-cookbook/ch3_client/async_tcp_client.cpp\<close>; the client of
  \<open>async_tcp_client_mt.cpp\<close> differs in its number of threads only. A \<open>shared_ptr\<close> to a session is
  its index in \<open>sessions\<close>; the operation a session waits for is \<open>in_flight\<close>; a call of the user's
  callback is an entry of \<open>calls\<close>. A handler and a call of the user are one step each: both hold
  \<open>m_cancel_guard\<close> while they look at the flag and start or cancel an operation. How the two
  mutexes nest is modelled lock by lock in theory \<open>Cancel_Locks\<close>.
\<close>

section \<open>State\<close>

datatype stage = Connecting | Writing | Reading

record session =
  m_ep :: nat
  m_request :: string
  m_response_buf :: string
  m_response :: string
  m_ec :: error_code
  m_id :: u32
  m_was_canceled :: bool
  in_flight :: "stage option"
  shut_down :: bool

record async_client =
  sessions :: "session list"
  m_active_sessions :: "int \<rightharpoonup> nat"   \<comment> \<open>a \<open>std::map\<close> with \<open>int\<close> keys\<close>
  m_work :: bool
  m_thread :: bool
  calls :: "(nat \<times> u32 \<times> string \<times> error_code) list"

definition new_session :: "nat \<Rightarrow> string \<Rightarrow> u32 \<Rightarrow> session" where
  "new_session ep request rid = \<lparr>m_ep = ep, m_request = request, m_response_buf = [], m_response = [],
     m_ec = no_error, m_id = rid, m_was_canceled = False, in_flight = None, shut_down = False\<rparr>"

text \<open>The constructor: the guard and the thread.\<close>

definition AsyncTCPClient :: async_client where
  "AsyncTCPClient = \<lparr>sessions = [], m_active_sessions = Map.empty, m_work = True, m_thread = True, calls = []\<rparr>"

definition set_session :: "nat \<Rightarrow> session \<Rightarrow> async_client \<Rightarrow> async_client" where
  "set_session i s c = c\<lparr>sessions := (sessions c)[i := s]\<rparr>"

section \<open>Operations\<close>

definition request_text :: "u32 \<Rightarrow> string" where
  "request_text duration_sec = ''EMULATE_LONG_CALC_OP '' @ show_nat (unat duration_sec) @ [newline]"

text \<open>
  \<open>address\<close> is what \<open>make_address\<close> gives, \<open>open_error\<close> the error \<open>open\<close> throws, if it does: both
  exceptions reach the caller before anything is registered.
\<close>

definition EmulateLongComputationOp :: "u32 \<Rightarrow> error_code + nat \<Rightarrow> error_code option \<Rightarrow> u32 \<Rightarrow>
    async_client \<Rightarrow> error_code + async_client" where
  "EmulateLongComputationOp duration_sec address open_error request_id c =
     (let request = request_text duration_sec
      in rbind address (\<lambda>ep.
           let session = new_session ep request request_id; i = length (sessions c)
           in case open_error of
                Some e \<Rightarrow> Inl e
              | None \<Rightarrow>
                  let c1 = c\<lparr>sessions := sessions c @ [session]\<rparr>;
                      c2 = c1\<lparr>m_active_sessions := (m_active_sessions c1)(sint request_id \<mapsto> i)\<rparr>
                  in Inr (set_session i (session\<lparr>in_flight := Some Connecting\<rparr>) c2)))"

text \<open>\<open>OnRequestComplete\<close>; \<open>aborted\<close> is \<open>asio::error::operation_aborted\<close>.\<close>

definition OnRequestComplete :: "error_code \<Rightarrow> nat \<Rightarrow> async_client \<Rightarrow> async_client" where
  "OnRequestComplete aborted i c =
     (let session = sessions c ! i;
          c1 = set_session i (session\<lparr>shut_down := True\<rparr>) c;
          c2 = (case m_active_sessions c1 (sint (m_id session)) of
                  Some _ \<Rightarrow> c1\<lparr>m_active_sessions := (m_active_sessions c1)(sint (m_id session) := None)\<rparr>
                | None \<Rightarrow> c1);
          ec = (if ec_value (m_ec session) = 0 \<and> m_was_canceled session then aborted else m_ec session)
      in c2\<lparr>calls := calls c2 @ [(i, m_id session, m_response session, ec)]\<rparr>)"

text \<open>The three handlers; each starts from the session with no operation in flight.\<close>

definition go_on :: "error_code \<Rightarrow> stage \<Rightarrow> nat \<Rightarrow> error_code \<Rightarrow> async_client \<Rightarrow> async_client" where
  "go_on aborted next i ec c =
     (let session = sessions c ! i
      in if ec_value ec \<noteq> 0 then OnRequestComplete aborted i (set_session i (session\<lparr>m_ec := ec\<rparr>) c)
         else if m_was_canceled session then OnRequestComplete aborted i c
         else set_session i (session\<lparr>in_flight := Some next\<rparr>) c)"

definition on_connect :: "error_code \<Rightarrow> nat \<Rightarrow> error_code \<Rightarrow> async_client \<Rightarrow> async_client" where
  "on_connect aborted i ec c = go_on aborted Writing i ec c"

definition on_write :: "error_code \<Rightarrow> nat \<Rightarrow> error_code \<Rightarrow> async_client \<Rightarrow> async_client" where
  "on_write aborted i ec c = go_on aborted Reading i ec c"

definition on_read :: "error_code \<Rightarrow> nat \<Rightarrow> error_code \<Rightarrow> string \<Rightarrow> async_client \<Rightarrow> async_client" where
  "on_read aborted i ec bs c =
     (let session = (sessions c ! i)\<lparr>m_response_buf := m_response_buf (sessions c ! i) @ bs\<rparr>
      in if ec_value ec \<noteq> 0
         then OnRequestComplete aborted i (set_session i (session\<lparr>m_ec := ec\<rparr>) c)
         else let (line, rest) = getline (m_response_buf session)
              in OnRequestComplete aborted i
                   (set_session i (session\<lparr>m_response_buf := rest, m_response := line\<rparr>) c))"

definition CancelRequest :: "u32 \<Rightarrow> async_client \<Rightarrow> async_client" where
  "CancelRequest request_id c =
     (case m_active_sessions c (sint request_id) of
        None \<Rightarrow> c
      | Some i \<Rightarrow> set_session i ((sessions c ! i)\<lparr>m_was_canceled := True\<rparr>) c)"

definition nothing_in_flight :: "async_client \<Rightarrow> bool" where
  "nothing_in_flight c \<longleftrightarrow> list_all (\<lambda>s. in_flight s = None) (sessions c)"

text \<open>\<open>Close\<close> returns when \<open>run\<close> does, once no operation is left; until then it blocks (\<open>None\<close>).\<close>

definition Close :: "async_client \<Rightarrow> async_client option" where
  "Close c =
     (let c1 = c\<lparr>m_work := False\<rparr>
      in if nothing_in_flight c1 then Some (c1\<lparr>m_thread := False\<rparr>) else None)"

text \<open>The callback of \<open>main\<close>; \<open>message\<close> is \<open>error_code::message\<close>.\<close>

definition callback_output :: "(error_code \<Rightarrow> string) \<Rightarrow> error_code \<Rightarrow> u32 \<Rightarrow> string \<Rightarrow> error_code \<Rightarrow> string" where
  "callback_output message aborted request_id response ec =
     (if ec_value ec = 0
      then ''Request #'' @ show_nat (unat request_id) @ '' has completed. Response: '' @ response
      else if ec = aborted
      then ''Request #'' @ show_nat (unat request_id) @ '' has been cancelled by the user.''
      else ''Request #'' @ show_nat (unat request_id) @ '' failed! Error code = '' @ show_int (ec_value ec) @
           ''. Error message = '' @ message ec)"

section \<open>Executions\<close>

text \<open>
  A completion: any error at any time; a successful \<open>async_read_until\<close> has read a newline.
\<close>

definition io_event :: "error_code \<Rightarrow> nat \<Rightarrow> error_code \<Rightarrow> string \<Rightarrow> async_client \<Rightarrow> async_client" where
  "io_event aborted i ec bs c =
     (let c1 = set_session i ((sessions c ! i)\<lparr>in_flight := None\<rparr>) c
      in case in_flight (sessions c ! i) of
           Some Connecting \<Rightarrow> on_connect aborted i ec c1
         | Some Writing \<Rightarrow> on_write aborted i ec c1
         | Some Reading \<Rightarrow> on_read aborted i ec bs c1
         | None \<Rightarrow> c)"

definition event_enabled :: "nat \<Rightarrow> error_code \<Rightarrow> string \<Rightarrow> async_client \<Rightarrow> bool" where
  "event_enabled i ec bs c \<longleftrightarrow> m_thread c \<and> i < length (sessions c) \<and> in_flight (sessions c ! i) \<noteq> None \<and>
     (failed ec \<or> in_flight (sessions c ! i) \<noteq> Some Reading \<or> newline \<in> set bs)"

inductive async_step :: "error_code \<Rightarrow> async_client \<Rightarrow> async_client \<Rightarrow> bool" for aborted where
  request: "EmulateLongComputationOp d address open_error rid c = Inr c' \<Longrightarrow> async_step aborted c c'"
| cancel: "async_step aborted c (CancelRequest rid c)"
| event: "event_enabled i ec bs c \<Longrightarrow> async_step aborted c (io_event aborted i ec bs c)"
| close: "Close c = Some c' \<Longrightarrow> async_step aborted c c'"

definition async_reachable :: "error_code \<Rightarrow> async_client \<Rightarrow> bool" where
  "async_reachable aborted c \<longleftrightarrow> (async_step aborted)\<^sup>*\<^sup>* AsyncTCPClient c"

inductive event_step :: "error_code \<Rightarrow> async_client \<Rightarrow> async_client \<Rightarrow> bool" for aborted where
  "event_enabled i ec bs c \<Longrightarrow> event_step aborted c (io_event aborted i ec bs c)"

section \<open>What a completion does\<close>

lemma set_session_simps [simp]:
  "sessions (set_session i s c) = (sessions c)[i := s]"
  "m_active_sessions (set_session i s c) = m_active_sessions c" "calls (set_session i s c) = calls c"
  "m_thread (set_session i s c) = m_thread c" "m_work (set_session i s c) = m_work c"
  by (simp_all add: set_session_def)

fun rank :: "stage option \<Rightarrow> nat" where
  "rank (Some Connecting) = 3"
| "rank (Some Writing) = 2"
| "rank (Some Reading) = 1"
| "rank None = 0"

text \<open>The reported error code.\<close>

definition outcome :: "error_code \<Rightarrow> session \<Rightarrow> error_code" where
  "outcome aborted s = (if \<not> failed (m_ec s) \<and> m_was_canceled s then aborted else m_ec s)"

definition completed :: "error_code \<Rightarrow> nat \<Rightarrow> session \<Rightarrow> async_client \<Rightarrow> async_client \<Rightarrow> bool" where
  "completed aborted i s c c' \<longleftrightarrow>
     sessions c' = (sessions c)[i := s] \<and> in_flight s = None \<and> shut_down s \<and>
     m_id s = m_id (sessions c ! i) \<and> m_was_canceled s = m_was_canceled (sessions c ! i) \<and>
     calls c' = calls c @ [(i, m_id s, m_response s, outcome aborted s)] \<and>
     m_active_sessions c' = (m_active_sessions c)(sint (m_id s) := None) \<and>
     m_thread c' = m_thread c"

definition continued :: "nat \<Rightarrow> async_client \<Rightarrow> async_client \<Rightarrow> bool" where
  "continued i c c' \<longleftrightarrow> (\<exists>next. next \<noteq> Connecting \<and>
     c' = set_session i ((sessions c ! i)\<lparr>in_flight := Some next\<rparr>) c \<and>
     rank (Some next) < rank (in_flight (sessions c ! i)) \<and> \<not> m_was_canceled (sessions c ! i))"

lemma set_session_twice [simp]: "set_session i s (set_session i t c) = set_session i s c"
  by (simp add: set_session_def)

lemma OnRequestComplete_completed:
  assumes "i < length (sessions c)" "in_flight s = None" "m_id s = m_id (sessions c ! i)"
    "m_was_canceled s = m_was_canceled (sessions c ! i)"
  shows "completed aborted i (s\<lparr>shut_down := True\<rparr>) c (OnRequestComplete aborted i (set_session i s c))"
proof -
  have "m(k := None) = m" if "m k = None" for m :: "int \<rightharpoonup> nat" and k using that by auto
  then show ?thesis using assms
    by (simp add: completed_def OnRequestComplete_def outcome_def failed_def Let_def split: option.split)
qed

lemma go_on_cases:
  assumes "i < length (sessions c)" "in_flight (sessions c ! i) = Some st" "next \<noteq> Connecting"
    "rank (Some next) < rank (Some st)"
  shows "continued i c (go_on aborted next i ec (set_session i ((sessions c ! i)\<lparr>in_flight := None\<rparr>) c)) \<or>
    (\<exists>s. completed aborted i s c (go_on aborted next i ec (set_session i ((sessions c ! i)\<lparr>in_flight := None\<rparr>) c)) \<and>
      (failed ec \<and> m_ec s = ec \<or> m_was_canceled s))"
proof -
  let ?s = "(sessions c ! i)\<lparr>in_flight := None\<rparr>"
  consider "failed ec" | "\<not> failed ec" "m_was_canceled ?s" | "\<not> failed ec" "\<not> m_was_canceled ?s" by blast
  then show ?thesis
  proof cases
    case 1
    with OnRequestComplete_completed [of i c "?s\<lparr>m_ec := ec\<rparr>" aborted] assms(1) show ?thesis
      by (auto simp: go_on_def failed_def Let_def)
  next
    case 2
    with OnRequestComplete_completed [of i c ?s aborted] assms(1) show ?thesis
      by (auto simp: go_on_def failed_def Let_def)
  next
    case 3
    with assms show ?thesis by (auto simp: go_on_def continued_def failed_def Let_def)
  qed
qed

lemma on_read_cases:
  assumes "i < length (sessions c)"
  shows "\<exists>s. completed aborted i s c (on_read aborted i ec bs (set_session i ((sessions c ! i)\<lparr>in_flight := None\<rparr>) c)) \<and>
    (if failed ec then m_ec s = ec
     else m_ec s = m_ec (sessions c ! i) \<and> m_response s = fst (getline (m_response_buf (sessions c ! i) @ bs)))"
proof -
  let ?s = "(sessions c ! i)\<lparr>in_flight := None, m_response_buf := m_response_buf (sessions c ! i) @ bs\<rparr>"
  obtain line rest where g: "getline (m_response_buf ?s) = (line, rest)" by force
  show ?thesis
  proof (cases "failed ec")
    case True
    with OnRequestComplete_completed [of i c "?s\<lparr>m_ec := ec\<rparr>" aborted] assms show ?thesis
      by (auto simp: on_read_def failed_def Let_def)
  next
    case False
    with OnRequestComplete_completed [of i c "?s\<lparr>m_response_buf := rest, m_response := line\<rparr>" aborted] g assms
    show ?thesis by (auto simp: on_read_def failed_def Let_def)
  qed
qed

text \<open>Only a read that succeeded on a session not cancelled reports success.\<close>

lemma io_event_cases:
  assumes "i < length (sessions c)" "in_flight (sessions c ! i) \<noteq> None"
  shows "continued i c (io_event aborted i ec bs c) \<or>
    (\<exists>s. completed aborted i s c (io_event aborted i ec bs c) \<and>
      (failed (m_ec s) \<or> m_was_canceled s \<or>
        in_flight (sessions c ! i) = Some Reading \<and> \<not> failed ec \<and>
        m_response s = fst (getline (m_response_buf (sessions c ! i) @ bs))))"
proof -
  obtain st where st: "in_flight (sessions c ! i) = Some st" using assms(2) by auto
  show ?thesis
  proof (cases st)
    case Connecting
    with go_on_cases [OF assms(1) st, of Writing aborted ec] st show ?thesis
      by (auto simp: io_event_def on_connect_def Let_def)
  next
    case Writing
    with go_on_cases [OF assms(1) st, of Reading aborted ec] st show ?thesis
      by (auto simp: io_event_def on_write_def Let_def)
  next
    case Reading
    with on_read_cases [OF assms(1), of aborted ec bs] st show ?thesis
      by (auto simp: io_event_def Let_def split: if_splits)
  qed
qed

section \<open>Invariant\<close>

definition calls_of :: "nat \<Rightarrow> async_client \<Rightarrow> (nat \<times> u32 \<times> string \<times> error_code) list" where
  "calls_of i c = filter (\<lambda>x. fst x = i) (calls c)"

text \<open>Each session is called back once, when nothing is in flight for it any more.\<close>

definition calls_ok :: "async_client \<Rightarrow> bool" where
  "calls_ok c \<longleftrightarrow> (\<forall>x \<in> set (calls c). fst x < length (sessions c)) \<and>
     (\<forall>i < length (sessions c).
       length (calls_of i c) = (if in_flight (sessions c ! i) = None then 1 else 0))"

text \<open>With distinct identifiers the map holds exactly the sessions that are in flight.\<close>

definition active_ok :: "async_client \<Rightarrow> bool" where
  "active_ok c \<longleftrightarrow> (distinct (map m_id (sessions c)) \<longrightarrow>
     (\<forall>k j. m_active_sessions c k = Some j \<longleftrightarrow>
       j < length (sessions c) \<and> k = sint (m_id (sessions c ! j)) \<and> in_flight (sessions c ! j) \<noteq> None))"

lemma sint_inj: "sint (a :: 'w::len word) = sint b \<Longrightarrow> a = b"
  by (simp add: signed_word_eqI)

lemma calls_ok_update:
  assumes "calls_ok c" "sessions c' = (sessions c)[i := s]" "calls c' = calls c"
    "in_flight s = None \<longleftrightarrow> in_flight (sessions c ! i) = None"
  shows "calls_ok c'"
proof -
  have "(in_flight (sessions c' ! j) = None) = (in_flight (sessions c ! j) = None)" for j
    using assms(2,4) by (simp add: nth_update_if del: not_None_eq)
  then show ?thesis using assms(1-3) unfolding calls_ok_def calls_of_def by simp
qed

lemma active_ok_update:
  assumes "active_ok c" "sessions c' = (sessions c)[i := s]" "m_active_sessions c' = m_active_sessions c"
    "m_id s = m_id (sessions c ! i)" "in_flight s = None \<longleftrightarrow> in_flight (sessions c ! i) = None"
  shows "active_ok c'"
proof -
  have ids: "map m_id (sessions c') = map m_id (sessions c)"
    using assms(2,4) by (simp add: map_update_same)
  have "m_id (sessions c' ! j) = m_id (sessions c ! j) \<and>
      (in_flight (sessions c' ! j) = None \<longleftrightarrow> in_flight (sessions c ! j) = None)"
    if "j < length (sessions c)" for j
    using that assms(2,4,5) by (cases "i = j") simp_all
  moreover have "length (sessions c') = length (sessions c)" using assms(2) by simp
  ultimately show ?thesis using assms(1) ids assms(3) unfolding active_ok_def
    by (simp del: not_None_eq cong: conj_cong)
qed

lemma completed_keeps:
  assumes "calls_ok c" "active_ok c" "completed aborted i s c c'" "i < length (sessions c)"
    "in_flight (sessions c ! i) \<noteq> None"
  shows "calls_ok c' \<and> active_ok c'"
proof -
  note d = assms(3) [unfolded completed_def]
  have nth: "j < length (sessions c) \<Longrightarrow> sessions c' ! j = (if j = i then s else sessions c ! j)" for j
    using d assms(4) by simp
  have of: "calls_of j c' = (if j = i then calls_of j c @ [(i, m_id s, m_response s, outcome aborted s)] else calls_of j c)" for j
    using d by (simp add: calls_of_def)
  have "calls_ok c'" using assms(1,4,5) d nth of by (auto simp: calls_ok_def)
  moreover have "active_ok c'"
    unfolding active_ok_def
  proof (intro impI allI)
    fix k j
    assume dist: "distinct (map m_id (sessions c'))"
    have ids: "map m_id (sessions c') = map m_id (sessions c)"
      using d by (simp add: map_update_same)
    have act: "m_active_sessions c k = Some j \<longleftrightarrow> j < length (sessions c) \<and>
        k = sint (m_id (sessions c ! j)) \<and> in_flight (sessions c ! j) \<noteq> None"
      using assms(2) dist ids by (simp add: active_ok_def)
    have same: "j = i" if "j < length (sessions c)" "sint (m_id (sessions c ! j)) = sint (m_id s)"
    proof -
      have "map m_id (sessions c) ! j = map m_id (sessions c) ! i"
        using that sint_inj d assms(4) by simp
      then show ?thesis
        using nth_eq_iff_index_eq [of "map m_id (sessions c)" j i] dist ids that(1) assms(4) by simp
    qed
    have upd: "m_active_sessions c' k = Some j \<longleftrightarrow> k \<noteq> sint (m_id s) \<and> m_active_sessions c k = Some j"
      using d by simp
    have len: "length (sessions c') = length (sessions c)" using d by simp
    show "m_active_sessions c' k = Some j \<longleftrightarrow>
        j < length (sessions c') \<and> k = sint (m_id (sessions c' ! j)) \<and> in_flight (sessions c' ! j) \<noteq> None"
    proof (cases "j < length (sessions c) \<and> j \<noteq> i")
      case True
      then show ?thesis unfolding upd act len using nth [of j] same by auto
    next
      case False
      then show ?thesis unfolding upd act len using nth [of j] d by auto
    qed
  qed
  ultimately show ?thesis by blast
qed

lemma request_keeps:
  assumes inv: "calls_ok c" "active_ok c"
    and sess: "sessions c' = sessions c @ [s]" and new: "in_flight s \<noteq> None"
    and act: "m_active_sessions c' = (m_active_sessions c)(sint (m_id s) \<mapsto> length (sessions c))"
    and calls: "calls c' = calls c"
  shows "calls_ok c' \<and> active_ok c'"
proof -
  have "calls_of (length (sessions c)) c = []"
    using inv(1) by (auto simp: calls_ok_def calls_of_def filter_empty_conv)
  then have "length (calls_of j c') = (if in_flight (sessions c' ! j) = None then 1 else 0)"
    if "j < length (sessions c')" for j
  proof (cases "j = length (sessions c)")
    case True
    then show ?thesis using \<open>calls_of (length (sessions c)) c = []\<close> new sess calls
      by (simp add: calls_of_def)
  next
    case False
    then have j: "j < length (sessions c)" using that sess by simp
    have "calls_of j c' = calls_of j c" using calls by (simp add: calls_of_def)
    with j inv(1) show ?thesis by (simp add: calls_ok_def sess nth_append)
  qed
  moreover have "fst x < length (sessions c')" if "x \<in> set (calls c')" for x
    using that inv(1) sess calls unfolding calls_ok_def by fastforce
  ultimately have "calls_ok c'" by (simp add: calls_ok_def)
  moreover have "active_ok c'"
    unfolding active_ok_def
  proof (intro impI allI)
    fix k j
    assume "distinct (map m_id (sessions c'))"
    then have dist: "distinct (map m_id (sessions c))" and fresh: "m_id s \<notin> m_id ` set (sessions c)"
      using sess by simp_all
    have old: "m_active_sessions c k = Some j \<longleftrightarrow> j < length (sessions c) \<and>
        k = sint (m_id (sessions c ! j)) \<and> in_flight (sessions c ! j) \<noteq> None"
      using inv(2) dist by (simp add: active_ok_def)
    have "sint (m_id (sessions c ! j)) \<noteq> sint (m_id s)" if "j < length (sessions c)"
      using that fresh sint_inj by (metis imageI nth_mem)
    then show "m_active_sessions c' k = Some j \<longleftrightarrow>
        j < length (sessions c') \<and> k = sint (m_id (sessions c' ! j)) \<and> in_flight (sessions c' ! j) \<noteq> None"
      using old sess act new by (auto simp: nth_append less_Suc_eq)
  qed
  ultimately show ?thesis by blast
qed

definition async_inv :: "async_client \<Rightarrow> bool" where
  "async_inv c \<longleftrightarrow> calls_ok c \<and> active_ok c"

lemma request_fields:
  assumes "EmulateLongComputationOp d address open_error rid c = Inr c'"
  shows "\<exists>s. sessions c' = sessions c @ [s] \<and> in_flight s \<noteq> None \<and> m_id s = rid \<and>
    m_active_sessions c' = (m_active_sessions c)(sint rid \<mapsto> length (sessions c)) \<and> calls c' = calls c"
  using assms
  by (auto simp: EmulateLongComputationOp_def rbind_Inr_iff new_session_def Let_def split: option.splits)

lemma async_inv_event:
  assumes "async_inv c" "i < length (sessions c)" "in_flight (sessions c ! i) \<noteq> None"
  shows "async_inv (io_event aborted i ec bs c)"
  using io_event_cases [OF assms(2,3), of aborted ec bs]
proof
  assume "continued i c (io_event aborted i ec bs c)"
  then show ?thesis
    using assms calls_ok_update [of c _ i] active_ok_update [of c _ i]
    by (auto simp: async_inv_def continued_def)
next
  assume "\<exists>s. completed aborted i s c (io_event aborted i ec bs c) \<and>
      (failed (m_ec s) \<or> m_was_canceled s \<or>
        in_flight (sessions c ! i) = Some Reading \<and> \<not> failed ec \<and>
        m_response s = fst (getline (m_response_buf (sessions c ! i) @ bs)))"
  then show ?thesis using completed_keeps [of c aborted i] assms by (auto simp: async_inv_def)
qed

lemma async_inv_step:
  assumes "async_inv c" "async_step aborted c c'"
  shows "async_inv c'"
  using assms(2)
proof cases
  case (request d address open_error rid)
  from request_fields [OF this] request_keeps [of c c'] assms(1) show ?thesis
    by (auto simp: async_inv_def)
next
  case (cancel rid)
  then show ?thesis
    using assms(1) calls_ok_update [of c c'] active_ok_update [of c c']
    by (auto simp: CancelRequest_def async_inv_def split: option.splits)
next
  case (event i ec bs)
  with async_inv_event assms(1) show ?thesis by (auto simp: event_enabled_def)
next
  case close
  then have "sessions c' = sessions c" "calls c' = calls c" "m_active_sessions c' = m_active_sessions c"
    by (auto simp: Close_def Let_def split: if_splits)
  with assms(1) show ?thesis by (simp add: async_inv_def calls_ok_def calls_of_def active_ok_def)
qed

interpretation async: invariant_system "\<lambda>c. c = AsyncTCPClient" "async_step aborted" async_inv for aborted
proof unfold_locales
  show "s = AsyncTCPClient \<Longrightarrow> async_inv s" for s
    by (simp add: async_inv_def AsyncTCPClient_def calls_ok_def active_ok_def)
qed (rule async_inv_step)

lemma async_reachable_inv: "async_reachable aborted c \<Longrightarrow> async_inv c"
  using async.inv_reachable unfolding async_reachable_def by blast

lemma async_reachable_step: "async_reachable aborted c \<Longrightarrow> async_step aborted c c' \<Longrightarrow> async_reachable aborted c'"
  unfolding async_reachable_def by (rule rtranclp.rtrancl_into_rtrancl)

section \<open>Progress\<close>

definition work_left :: "async_client \<Rightarrow> nat" where
  "work_left c = sum_list (map (\<lambda>s. rank (in_flight s)) (sessions c))"

lemma rank_pos: "f \<noteq> None \<Longrightarrow> 0 < rank f"
  by (cases f rule: rank.cases) auto

lemma event_step_decreases: "event_step aborted c c' \<Longrightarrow> work_left c' < work_left c"
proof (induction rule: event_step.induct)
  case (1 i ec bs c)
  then have i: "i < length (sessions c)" "in_flight (sessions c ! i) \<noteq> None" by (simp_all add: event_enabled_def)
  from io_event_cases [OF i, of aborted ec bs] obtain s where
    "sessions (io_event aborted i ec bs c) = (sessions c)[i := s]" "rank (in_flight s) < rank (in_flight (sessions c ! i))"
    using rank_pos [OF i(2)] by (auto simp: continued_def completed_def)
  with sum_list_decrease [of i "sessions c" "\<lambda>s. rank (in_flight s)" s] i(1) show ?case
    by (simp add: work_left_def)
qed

interpretation events_end: terminating_system "event_step aborted" "\<lambda>c. True" work_left for aborted
  by unfold_locales (auto dest: event_step_decreases)

lemmas event_steps_bounded = events_end.steps_bounded [OF _ TrueI, THEN conjunct2]

lemma work_left_bound: "work_left c \<le> 3 * length (sessions c)"
proof -
  have r: "rank f \<le> 3" for f by (cases f rule: rank.cases) auto
  have "sum_list (map (\<lambda>s. rank (in_flight s)) xs) \<le> 3 * length xs" for xs :: "session list"
    using r by (induction xs) (auto intro: add_mono)
  then show ?thesis by (simp add: work_left_def)
qed

section \<open>A run of the program\<close>

definition operation_aborted :: error_code where
  "operation_aborted = \<lparr>ec_value = 125, ec_category = 0\<rparr>"

text \<open>Two requests; the first is cancelled while it connects.\<close>

definition ask :: "u32 \<Rightarrow> async_client \<Rightarrow> async_client" where
  "ask rid c = (case EmulateLongComputationOp 10 (Inr 0) None rid c of Inr c' \<Rightarrow> c' | Inl _ \<Rightarrow> c)"

definition two_requests :: async_client where
  "two_requests = CancelRequest 1 (ask 2 (ask 1 AsyncTCPClient))"

lemma ask_step: "async_step aborted c (ask rid c)"
  by (rule async_step.request [of 10 "Inr 0" None rid])
    (simp add: ask_def EmulateLongComputationOp_def Let_def)

lemma two_requests_reachable: "async_reachable aborted two_requests"
  unfolding two_requests_def
  by (intro async_reachable_step [OF _ async_step.cancel] async_reachable_step [OF _ ask_step])
    (simp add: async_reachable_def)

lemma two_requests_facts:
  "map m_id (sessions two_requests) = [1, 2]" "map in_flight (sessions two_requests) = [Some Connecting, Some Connecting]"
  "map m_was_canceled (sessions two_requests) = [True, False]" "m_thread two_requests" "calls two_requests = []"
  by (simp_all add: two_requests_def ask_def AsyncTCPClient_def EmulateLongComputationOp_def
      CancelRequest_def new_session_def set_session_def Let_def)

lemma two_requests_sessions:
  "length (sessions two_requests) = 2" "m_id (sessions two_requests ! 0) = 1"
  "m_was_canceled (sessions two_requests ! 0)" "\<not> m_was_canceled (sessions two_requests ! Suc 0)"
  "in_flight (sessions two_requests ! 0) = Some Connecting" "m_id (sessions two_requests ! Suc 0) = 2"
  "in_flight (sessions two_requests ! Suc 0) = Some Connecting"
proof -
  show l: "length (sessions two_requests) = 2"
    using arg_cong [OF two_requests_facts(1), of length] by simp
  then obtain a b where "sessions two_requests = [a, b]"
    by (auto simp: numeral_2_eq_2 length_Suc_conv)
  with two_requests_facts(1-3) show "m_id (sessions two_requests ! 0) = 1"
    "m_was_canceled (sessions two_requests ! 0)" "\<not> m_was_canceled (sessions two_requests ! Suc 0)"
    "in_flight (sessions two_requests ! 0) = Some Connecting" "m_id (sessions two_requests ! Suc 0) = 2"
    "in_flight (sessions two_requests ! Suc 0) = Some Connecting"
    by simp_all
qed

section \<open>Properties\<close>

text \<open>
  C31: The user's callback is called exactly once for every request: not before its last operation
  has completed, and not again after.
\<close>

theorem async_callback_once:
  assumes "async_reachable aborted c" "i < length (sessions c)"
  shows "length (calls_of i c) = (if in_flight (sessions c ! i) = None then 1 else 0)"
  using async_reachable_inv [OF assms(1)] assms(2) by (simp add: async_inv_def calls_ok_def)

theorem async_callback_once_witness:
  "length (calls_of 0 two_requests) = (if in_flight (sessions two_requests ! 0) = None then 1 else 0)"
  by (rule async_callback_once [OF two_requests_reachable]) (simp add: two_requests_sessions)

text \<open>
  C32: Without further requests at most three completions per request can happen; when no operation
  is left every request has been called back and \<open>Close\<close> returns.
\<close>

theorem async_drains:
  assumes "async_reachable aborted c" "(event_step aborted ^^ n) c c'"
  shows "n \<le> 3 * length (sessions c) \<and> (nothing_in_flight c' \<longrightarrow>
    (\<exists>c''. Close c' = Some c'') \<and> (\<forall>i < length (sessions c'). length (calls_of i c') = 1))"
proof -
  have "event_step aborted x y \<Longrightarrow> async_step aborted x y" for x y
    by (cases rule: event_step.cases) (auto intro: async_step.event)
  then have "async_reachable aborted c'"
    using assms by (induction n arbitrary: c') (auto intro: async_reachable_step)
  then have "calls_ok c'" using async_reachable_inv by (simp add: async_inv_def)
  moreover have "n \<le> 3 * length (sessions c)"
    using event_steps_bounded [OF assms(2)] work_left_bound [of c] by simp
  moreover have "nothing_in_flight (c'\<lparr>m_work := False\<rparr>) = nothing_in_flight c'"
    by (simp add: nothing_in_flight_def)
  ultimately show ?thesis
    by (auto simp: Close_def calls_ok_def nothing_in_flight_def list_all_length Let_def)
qed

definition drained_requests :: async_client where
  "drained_requests = io_event operation_aborted 1 operation_aborted []
     (io_event operation_aborted 0 operation_aborted [] two_requests)"

lemma drained_requests_facts:
  "nothing_in_flight drained_requests" "length (sessions drained_requests) = 2"
  "event_enabled 1 operation_aborted [] (io_event operation_aborted 0 operation_aborted [] two_requests)"
  by (simp_all add: drained_requests_def nothing_in_flight_def event_enabled_def io_event_def on_connect_def go_on_def
      OnRequestComplete_def two_requests_def ask_def AsyncTCPClient_def EmulateLongComputationOp_def
      CancelRequest_def new_session_def set_session_def Let_def operation_aborted_def failed_def)

theorem async_drains_witness:
  "2 \<le> 3 * length (sessions two_requests) \<and> (\<exists>c. Close drained_requests = Some c) \<and>
   length (calls_of 0 drained_requests) = 1 \<and> length (calls_of 1 drained_requests) = 1"
proof -
  have "event_enabled 0 operation_aborted [] two_requests"
    by (simp add: event_enabled_def two_requests_sessions two_requests_facts)
  then have "(event_step operation_aborted ^^ Suc 1) two_requests drained_requests"
    unfolding relpowp.simps relpowp_1 drained_requests_def
    using drained_requests_facts(3) by (blast intro: event_step.intros)
  from async_drains [OF two_requests_reachable this] drained_requests_facts(1,2) show ?thesis by simp
qed

text \<open>
  A request cancelled before its last completion never reports success: whatever completes it,
  the callback receives an error.
\<close>

theorem async_cancelled_reports_error:
  assumes "i < length (sessions c)" "in_flight (sessions c ! i) \<noteq> None" "m_was_canceled (sessions c ! i)"
    and "failed aborted"
  shows "\<exists>resp e. calls (io_event aborted i ec bs c) = calls c @ [(i, m_id (sessions c ! i), resp, e)] \<and> failed e"
proof -
  have "\<not> continued i c (io_event aborted i ec bs c)" using assms(3) by (simp add: continued_def)
  then obtain s where "completed aborted i s c (io_event aborted i ec bs c)"
    using io_event_cases [OF assms(1,2), of aborted ec bs] by blast
  then show ?thesis using assms(3,4) by (auto simp: completed_def outcome_def)
qed

theorem async_cancelled_reports_error_witness:
  "\<exists>resp e. calls (io_event operation_aborted 0 no_error [] two_requests) =
    calls two_requests @ [(0, m_id (sessions two_requests ! 0), resp, e)] \<and> failed e"
  by (rule async_cancelled_reports_error)
    (simp_all add: two_requests_sessions operation_aborted_def failed_def)

text \<open>
  Success is reported only for a session that was not cancelled and whose read succeeded, and
  the response is then the first line of what was received.
\<close>

theorem async_success_is_first_line:
  assumes "i < length (sessions c)" "in_flight (sessions c ! i) \<noteq> None" "failed aborted"
    and "calls (io_event aborted i ec bs c) = calls c @ [(i, rid, resp, e)]" "\<not> failed e"
  shows "in_flight (sessions c ! i) = Some Reading \<and> \<not> failed ec \<and> \<not> m_was_canceled (sessions c ! i) \<and>
    resp = takeWhile (\<lambda>ch. ch \<noteq> newline) (m_response_buf (sessions c ! i) @ bs)"
proof -
  have "\<not> continued i c (io_event aborted i ec bs c)" using assms(4) by (auto simp: continued_def)
  then obtain s where s: "completed aborted i s c (io_event aborted i ec bs c)"
    "failed (m_ec s) \<or> m_was_canceled s \<or> in_flight (sessions c ! i) = Some Reading \<and> \<not> failed ec \<and>
      m_response s = fst (getline (m_response_buf (sessions c ! i) @ bs))"
    using io_event_cases [OF assms(1,2), of aborted ec bs] by blast
  then have "e = outcome aborted s" "resp = m_response s" "m_was_canceled s = m_was_canceled (sessions c ! i)"
    using assms(4) by (auto simp: completed_def)
  then show ?thesis using s(2) assms(3,5) by (auto simp: outcome_def getline_def split: if_splits)
qed

definition reading_client :: async_client where
  "reading_client = set_session 1 ((sessions two_requests ! 1)\<lparr>in_flight := Some Reading\<rparr>) two_requests"

theorem async_success_is_first_line_witness:
  "\<exists>resp. calls (io_event operation_aborted 1 no_error (''Response'' @ [newline]) reading_client) =
      calls reading_client @ [(1, 2, resp, no_error)] \<and>
    resp = takeWhile (\<lambda>ch. ch \<noteq> newline) (m_response_buf (sessions reading_client ! 1) @ ''Response'' @ [newline])"
proof -
  let ?c = "reading_client" and ?bs = "''Response'' @ [newline]"
  have len: "1 < length (sessions two_requests)" by (simp add: two_requests_sessions)
  have e: "m_ec (sessions two_requests ! 1) = no_error"
    by (simp add: two_requests_def ask_def AsyncTCPClient_def EmulateLongComputationOp_def
        CancelRequest_def new_session_def set_session_def Let_def)
  have i: "1 < length (sessions ?c)" "in_flight (sessions ?c ! 1) = Some Reading"
    using len by (simp_all add: reading_client_def)
  obtain s where s: "completed operation_aborted 1 s ?c (on_read operation_aborted 1 no_error ?bs
      (set_session 1 ((sessions ?c ! 1)\<lparr>in_flight := None\<rparr>) ?c))" "m_ec s = m_ec (sessions ?c ! 1)"
    using on_read_cases [OF i(1), of operation_aborted no_error ?bs] by auto
  have "outcome operation_aborted s = no_error"
    using s len e two_requests_sessions(4)
    by (simp add: completed_def outcome_def reading_client_def)
  then have c: "calls (io_event operation_aborted 1 no_error ?bs ?c) = calls ?c @ [(1, 2, m_response s, no_error)]"
    using s(1) i(2) len two_requests_sessions(6) by (simp add: completed_def io_event_def reading_client_def Let_def)
  have f: "in_flight (sessions ?c ! 1) \<noteq> None" "failed operation_aborted"
    using i(2) by (simp_all add: operation_aborted_def failed_def)
  from async_success_is_first_line [OF i(1) f c not_failed_no_error] c show ?thesis by blast
qed

text \<open>
  When no identifier is used twice, \<open>m_active_sessions\<close> holds exactly the requests in flight, so
  \<open>CancelRequest\<close> marks the session of the given identifier, if it is in flight, and no other.
\<close>

theorem async_cancel_exact:
  assumes "async_reachable aborted c" "distinct (map m_id (sessions c))" "j < length (sessions c)"
  shows "m_was_canceled (sessions (CancelRequest rid c) ! j) \<longleftrightarrow>
    m_was_canceled (sessions c ! j) \<or> m_id (sessions c ! j) = rid \<and> in_flight (sessions c ! j) \<noteq> None"
proof -
  have act: "m_active_sessions c k = Some i \<longleftrightarrow> i < length (sessions c) \<and>
      k = sint (m_id (sessions c ! i)) \<and> in_flight (sessions c ! i) \<noteq> None" for k i
    using async_reachable_inv [OF assms(1)] assms(2) by (simp add: async_inv_def active_ok_def)
  have hit: "m_active_sessions c (sint rid) = Some j \<longleftrightarrow> m_id (sessions c ! j) = rid \<and> in_flight (sessions c ! j) \<noteq> None"
    using act [of "sint rid" j] assms(3) sint_inj by auto
  show ?thesis
  proof (cases "m_active_sessions c (sint rid)")
    case None
    then show ?thesis using hit by (auto simp: CancelRequest_def)
  next
    case (Some i)
    then show ?thesis using hit assms(3) by (cases "i = j") (auto simp: CancelRequest_def)
  qed
qed

theorem async_cancel_exact_witness:
  "m_was_canceled (sessions (CancelRequest 2 two_requests) ! 1)"
  using async_cancel_exact [OF two_requests_reachable, of 1 2]
  by (simp add: two_requests_sessions two_requests_facts)

text \<open>
  With an identifier used twice the map loses a session: once the first of two requests with
  the same identifier has completed, \<open>CancelRequest\<close> does not reach the second, which is still in
  flight.
\<close>

definition same_id_twice :: async_client where
  "same_id_twice = io_event operation_aborted 0 operation_aborted [] (ask 1 (ask 1 AsyncTCPClient))"

theorem async_duplicate_id_lost:
  "async_reachable operation_aborted same_id_twice \<and>
   map in_flight (sessions same_id_twice) = [None, Some Connecting] \<and>
   CancelRequest 1 same_id_twice = same_id_twice"
proof -
  have "async_reachable operation_aborted (ask 1 (ask 1 AsyncTCPClient))"
    by (intro async_reachable_step [OF _ ask_step]) (simp add: async_reachable_def)
  moreover have "event_enabled 0 operation_aborted [] (ask 1 (ask 1 AsyncTCPClient))"
    by (simp add: event_enabled_def ask_def AsyncTCPClient_def EmulateLongComputationOp_def
        new_session_def set_session_def Let_def operation_aborted_def failed_def)
  ultimately have "async_reachable operation_aborted same_id_twice"
    unfolding same_id_twice_def by (blast intro: async_reachable_step async_step.event)
  moreover have "map in_flight (sessions same_id_twice) = [None, Some Connecting] \<and>
      CancelRequest 1 same_id_twice = same_id_twice"
    by (simp add: same_id_twice_def io_event_def ask_def AsyncTCPClient_def EmulateLongComputationOp_def
        on_connect_def go_on_def OnRequestComplete_def CancelRequest_def new_session_def set_session_def
        Let_def operation_aborted_def)
  ultimately show ?thesis by blast
qed

end
