(* ===== verification/Pool_Client.thy ===== *)
theory Pool_Client
  imports Async_Tcp_Client
begin

text \<open>
  The client of \<open>src/asio-cookbook/ch3_client/async_tcp_client_mt.cpp\<close>, whose \<open>io_context\<close> is run by
  a pool of threads, lock by lock: the handlers of different sessions, and the user's thread, take
  their steps in any order. A session carries the point its handler has reached (\<open>at\<close>); the data of
  a session are those of \<open>async_tcp_client.cpp\<close>, field by field. A handler that has started the next
  operation of its session still holds \<open>m_cancel_guard\<close> until it returns (\<open>leaving\<close>), while another
  thread may already run the handler of that operation.
\<close>

section \<open>State\<close>

datatype handler_at =
    Starting          \<comment> \<open>registered, the connect not started yet\<close>
  | Waiting           \<comment> \<open>an operation is in flight, no handler runs\<close>
  | Checking stage    \<comment> \<open>the operation succeeded; about to lock \<open>m_cancel_guard\<close>\<close>
  | Checked stage     \<comment> \<open>holds it, about to read the flag\<close>
  | Completing bool   \<comment> \<open>in \<open>OnRequestComplete\<close>, with \<open>m_cancel_guard\<close> held or not\<close>
  | Locking bool      \<comment> \<open>the socket is shut down; about to lock \<open>m_active_sessions_guard\<close>\<close>
  | Erasing bool      \<comment> \<open>holds it\<close>
  | Calling bool      \<comment> \<open>unlocked it, about to read the flag and call the user's callback\<close>
  | Returned

record pool_session =
  shared :: session
  at :: handler_at
  m_cancel_guard :: bool
  leaving :: bool

datatype user_at =
    User_idle
  | User_insert session      \<comment> \<open>about to lock \<open>m_active_sessions_guard\<close> for a new session\<close>
  | User_inserting session
  | User_connect nat         \<comment> \<open>unlocked, about to start the connect\<close>
  | User_cancel u32          \<comment> \<open>about to lock \<open>m_active_sessions_guard\<close> in \<open>CancelRequest\<close>\<close>
  | User_find u32
  | User_found u32 nat       \<comment> \<open>about to lock the \<open>m_cancel_guard\<close> of the session found\<close>
  | User_mark u32 nat        \<comment> \<open>holds both mutexes\<close>
  | User_join                \<comment> \<open>in \<open>Close\<close>, the guard is reset\<close>
  | User_closed

record pool =
  mt_sessions :: "pool_session list"
  mt_active :: "int \<rightharpoonup> nat"
  m_active_sessions_guard :: bool
  mt_work :: bool
  m_threads :: nat           \<comment> \<open>the length of the list of threads\<close>
  idle_threads :: nat        \<comment> \<open>threads in \<open>run\<close> that execute no handler\<close>
  exited_threads :: nat      \<comment> \<open>threads whose \<open>run\<close> has returned\<close>
  user_at :: user_at
  callbacks :: "(nat \<times> u32 \<times> string \<times> error_code) list"

definition add_thread :: "pool \<Rightarrow> pool" where
  "add_thread p = p\<lparr>m_threads := m_threads p + 1, idle_threads := idle_threads p + 1\<rparr>"

definition AsyncTCPClientMT :: "byte \<Rightarrow> pool" where
  "AsyncTCPClientMT num_of_threads =
     fold (\<lambda>_. add_thread) [1..<unat num_of_threads + 1]
       \<lparr>mt_sessions = [], mt_active = Map.empty, m_active_sessions_guard = False, mt_work = True,
        m_threads = 0, idle_threads = 0, exited_threads = 0, user_at = User_idle, callbacks = []\<rparr>"

definition put :: "nat \<Rightarrow> pool_session \<Rightarrow> pool \<Rightarrow> pool" where
  "put i s p = p\<lparr>mt_sessions := (mt_sessions p)[i := s]\<rparr>"

lemma put_simps [simp]:
  "mt_sessions (put i s p) = (mt_sessions p)[i := s]" "mt_active (put i s p) = mt_active p"
  "m_active_sessions_guard (put i s p) = m_active_sessions_guard p" "mt_work (put i s p) = mt_work p"
  "m_threads (put i s p) = m_threads p" "idle_threads (put i s p) = idle_threads p"
  "exited_threads (put i s p) = exited_threads p" "user_at (put i s p) = user_at p"
  "callbacks (put i s p) = callbacks p"
  by (simp_all add: put_def)

section \<open>Handlers\<close>

fun next_stage :: "stage \<Rightarrow> stage" where
  "next_stage Connecting = Writing"
| "next_stage _ = Reading"

text \<open>What a handler does before it takes its first lock.\<close>

definition begin_handler :: "error_code \<Rightarrow> string \<Rightarrow> stage \<Rightarrow> session \<Rightarrow> session \<times> handler_at" where
  "begin_handler ec bs st s =
     (let s1 = s\<lparr>in_flight := None\<rparr>
      in if st = Reading
         then let s2 = s1\<lparr>m_response_buf := m_response_buf s1 @ bs\<rparr>
              in if ec_value ec \<noteq> 0 then (s2\<lparr>m_ec := ec\<rparr>, Completing False)
                 else let (line, rest) = getline (m_response_buf s2)
                      in (s2\<lparr>m_response_buf := rest, m_response := line\<rparr>, Completing False)
         else if ec_value ec \<noteq> 0 then (s1\<lparr>m_ec := ec\<rparr>, Completing False)
         else (s1, Checking st))"

definition start_handler :: "nat \<Rightarrow> error_code \<Rightarrow> string \<Rightarrow> pool \<Rightarrow> pool option" where
  "start_handler i ec bs p =
     (if i < length (mt_sessions p) \<and> at (mt_sessions p ! i) = Waiting \<and> 0 < idle_threads p
      then (case in_flight (shared (mt_sessions p ! i)) of
              None \<Rightarrow> None
            | Some st \<Rightarrow>
                if ec_value ec \<noteq> 0 \<or> st \<noteq> Reading \<or> newline \<in> set bs
                then let (s, a) = begin_handler ec bs st (shared (mt_sessions p ! i))
                     in Some (put i ((mt_sessions p ! i)\<lparr>shared := s, at := a\<rparr>)
                          (p\<lparr>idle_threads := idle_threads p - 1\<rparr>))
                else None)
      else None)"

text \<open>The next step of the handler of session \<open>i\<close>; \<open>None\<close> when it waits for a mutex or none runs.\<close>

definition handler_step :: "error_code \<Rightarrow> nat \<Rightarrow> pool \<Rightarrow> pool option" where
  "handler_step aborted i p =
     (let s = mt_sessions p ! i; session = shared s
      in if i < length (mt_sessions p) then
        (case at s of
           Checking st \<Rightarrow>
             if m_cancel_guard s then None else Some (put i (s\<lparr>m_cancel_guard := True, at := Checked st\<rparr>) p)
         | Checked st \<Rightarrow>
             if m_was_canceled session then Some (put i (s\<lparr>at := Completing True\<rparr>) p)
             else Some (put i (s\<lparr>shared := session\<lparr>in_flight := Some (next_stage st)\<rparr>, at := Waiting,
                    leaving := True\<rparr>) p)
         | Completing b \<Rightarrow> Some (put i (s\<lparr>shared := session\<lparr>shut_down := True\<rparr>, at := Locking b\<rparr>) p)
         | Locking b \<Rightarrow>
             if m_active_sessions_guard p then None
             else Some (put i (s\<lparr>at := Erasing b\<rparr>) (p\<lparr>m_active_sessions_guard := True\<rparr>))
         | Erasing b \<Rightarrow>
             let p1 = (case mt_active p (sint (m_id session)) of
                         Some _ \<Rightarrow> p\<lparr>mt_active := (mt_active p)(sint (m_id session) := None)\<rparr>
                       | None \<Rightarrow> p)
             in Some (put i (s\<lparr>at := Calling b\<rparr>) (p1\<lparr>m_active_sessions_guard := False\<rparr>))
         | Calling b \<Rightarrow>
             let ec = (if ec_value (m_ec session) = 0 \<and> m_was_canceled session then aborted else m_ec session)
             in Some (put i (s\<lparr>at := Returned, m_cancel_guard := (if b then False else m_cancel_guard s)\<rparr>)
                  (p\<lparr>callbacks := callbacks p @ [(i, m_id session, m_response session, ec)],
                     idle_threads := idle_threads p + 1\<rparr>))
         | _ \<Rightarrow> None)
      else None)"

text \<open>A handler that has started the next operation returns and its lock goes.\<close>

definition leave_step :: "nat \<Rightarrow> pool \<Rightarrow> pool option" where
  "leave_step i p =
     (if i < length (mt_sessions p) \<and> leaving (mt_sessions p ! i)
      then Some (put i ((mt_sessions p ! i)\<lparr>m_cancel_guard := False, leaving := False\<rparr>)
             (p\<lparr>idle_threads := idle_threads p + 1\<rparr>))
      else None)"

text \<open>\<open>run\<close> returns once the guard is reset and no operation or handler is left.\<close>

definition thread_exit :: "pool \<Rightarrow> pool option" where
  "thread_exit p =
     (if \<not> mt_work p \<and> 0 < idle_threads p \<and> list_all (\<lambda>s. at s = Returned \<and> \<not> leaving s) (mt_sessions p)
      then Some (p\<lparr>idle_threads := idle_threads p - 1, exited_threads := exited_threads p + 1\<rparr>)
      else None)"

section \<open>Calls of the user\<close>

definition begin_request :: "u32 \<Rightarrow> error_code + nat \<Rightarrow> error_code option \<Rightarrow> u32 \<Rightarrow> pool \<Rightarrow> error_code + pool" where
  "begin_request duration_sec address open_error request_id p =
     (let request = request_text duration_sec
      in rbind address (\<lambda>ep.
           let session = new_session ep request request_id
           in case open_error of
                Some e \<Rightarrow> Inl e
              | None \<Rightarrow> Inr (p\<lparr>user_at := User_insert session\<rparr>)))"

definition begin_cancel :: "u32 \<Rightarrow> pool \<Rightarrow> pool" where
  "begin_cancel request_id p = p\<lparr>user_at := User_cancel request_id\<rparr>"

definition begin_close :: "pool \<Rightarrow> pool" where
  "begin_close p = p\<lparr>mt_work := False, user_at := User_join\<rparr>"

definition user_step :: "pool \<Rightarrow> pool option" where
  "user_step p =
     (case user_at p of
        User_insert session \<Rightarrow>
          if m_active_sessions_guard p then None
          else Some (p\<lparr>m_active_sessions_guard := True, user_at := User_inserting session\<rparr>)
      | User_inserting session \<Rightarrow>
          Some (p\<lparr>mt_sessions := mt_sessions p @
                   [\<lparr>shared = session, at = Starting, m_cancel_guard = False, leaving = False\<rparr>],
                  mt_active := (mt_active p)(sint (m_id session) \<mapsto> length (mt_sessions p)),
                  m_active_sessions_guard := False, user_at := User_connect (length (mt_sessions p))\<rparr>)
      | User_connect i \<Rightarrow>
          Some (put i ((mt_sessions p ! i)\<lparr>shared := (shared (mt_sessions p ! i))\<lparr>in_flight := Some Connecting\<rparr>,
                 at := Waiting\<rparr>) (p\<lparr>user_at := User_idle\<rparr>))
      | User_cancel rid \<Rightarrow>
          if m_active_sessions_guard p then None
          else Some (p\<lparr>m_active_sessions_guard := True, user_at := User_find rid\<rparr>)
      | User_find rid \<Rightarrow>
          (case mt_active p (sint rid) of
             None \<Rightarrow> Some (p\<lparr>m_active_sessions_guard := False, user_at := User_idle\<rparr>)
           | Some i \<Rightarrow> Some (p\<lparr>user_at := User_found rid i\<rparr>))
      | User_found rid i \<Rightarrow>
          if m_cancel_guard (mt_sessions p ! i) then None
          else Some (put i ((mt_sessions p ! i)\<lparr>m_cancel_guard := True\<rparr>) (p\<lparr>user_at := User_mark rid i\<rparr>))
      | User_mark rid i \<Rightarrow>
          Some (put i ((mt_sessions p ! i)\<lparr>shared := (shared (mt_sessions p ! i))\<lparr>m_was_canceled := True\<rparr>,
                 m_cancel_guard := False\<rparr>) (p\<lparr>m_active_sessions_guard := False, user_at := User_idle\<rparr>))
      | User_join \<Rightarrow> if exited_threads p = m_threads p then Some (p\<lparr>user_at := User_closed\<rparr>) else None
      | _ \<Rightarrow> None)"

section \<open>Executions\<close>

text \<open>The steps of what already runs, and the events that start something.\<close>

inductive running_step :: "error_code \<Rightarrow> pool \<Rightarrow> pool \<Rightarrow> bool" for aborted where
  handler: "handler_step aborted i p = Some q \<Longrightarrow> running_step aborted p q"
| leave: "leave_step i p = Some q \<Longrightarrow> running_step aborted p q"
| user: "user_step p = Some q \<Longrightarrow> running_step aborted p q"

inductive pool_step :: "error_code \<Rightarrow> pool \<Rightarrow> pool \<Rightarrow> bool" for aborted where
  running: "running_step aborted p q \<Longrightarrow> pool_step aborted p q"
| start: "start_handler i ec bs p = Some q \<Longrightarrow> pool_step aborted p q"
| exit: "thread_exit p = Some q \<Longrightarrow> pool_step aborted p q"
| request: "user_at p = User_idle \<Longrightarrow> begin_request d address open_error rid p = Inr q \<Longrightarrow> pool_step aborted p q"
| cancel: "user_at p = User_idle \<Longrightarrow> pool_step aborted p (begin_cancel rid p)"
| close: "user_at p = User_idle \<Longrightarrow> pool_step aborted p (begin_close p)"

definition pool_reachable :: "error_code \<Rightarrow> byte \<Rightarrow> pool \<Rightarrow> bool" where
  "pool_reachable aborted n p \<longleftrightarrow> (pool_step aborted)\<^sup>*\<^sup>* (AsyncTCPClientMT n) p"

section \<open>Invariant\<close>

fun holds_cancel :: "handler_at \<Rightarrow> bool" where
  "holds_cancel (Checked _) = True"
| "holds_cancel (Completing b) = b"
| "holds_cancel (Locking b) = b"
| "holds_cancel (Erasing b) = b"
| "holds_cancel (Calling b) = b"
| "holds_cancel _ = False"

text \<open>A handler that completes with \<open>m_cancel_guard\<close> held has seen the flag.\<close>

fun saw_flag :: "handler_at \<Rightarrow> bool" where
  "saw_flag (Completing b) = b"
| "saw_flag (Locking b) = b"
| "saw_flag (Erasing b) = b"
| "saw_flag (Calling b) = b"
| "saw_flag _ = False"

fun erasing :: "handler_at \<Rightarrow> nat" where
  "erasing (Erasing _) = 1"
| "erasing _ = 0"

text \<open>The threads a session keeps busy.\<close>

definition runs_handler :: "handler_at \<Rightarrow> bool" where
  "runs_handler a \<longleftrightarrow> a \<noteq> Starting \<and> a \<noteq> Waiting \<and> a \<noteq> Returned"

definition busy :: "pool_session \<Rightarrow> nat" where
  "busy s = of_bool (leaving s) + of_bool (runs_handler (at s))"

fun user_holds :: "user_at \<Rightarrow> bool" where
  "user_holds (User_inserting _) = True"
| "user_holds (User_find _) = True"
| "user_holds (User_found _ _) = True"
| "user_holds (User_mark _ _) = True"
| "user_holds _ = False"

fun marks :: "user_at \<Rightarrow> nat \<Rightarrow> bool" where
  "marks (User_mark _ i) j = (i = j)"
| "marks _ _ = False"

definition fresh_session :: "session \<Rightarrow> bool" where
  "fresh_session s \<longleftrightarrow> (\<exists>ep d rid. s = new_session ep (request_text d) rid)"

fun user_refers :: "pool \<Rightarrow> user_at \<Rightarrow> bool" where
  "user_refers p (User_insert s) = fresh_session s"
| "user_refers p (User_inserting s) = fresh_session s"
| "user_refers p (User_connect i) = (i < length (mt_sessions p))"
| "user_refers p (User_found rid i) = (mt_active p (sint rid) = Some i)"
| "user_refers p (User_mark rid i) = (mt_active p (sint rid) = Some i)"
| "user_refers p User_closed = (exited_threads p = m_threads p)"
| "user_refers p _ = True"

text \<open>
  \<open>m_cancel_guard\<close> is held exactly when one of the handler, the handler before it and the user holds
  it; the callback was called exactly when the last handler has returned.
\<close>

definition session_ok :: "pool \<Rightarrow> nat \<Rightarrow> pool_session \<Rightarrow> bool" where
  "session_ok p i s \<longleftrightarrow>
     of_bool (leaving s) + of_bool (holds_cancel (at s)) + of_bool (marks (user_at p) i) =
       (of_bool (m_cancel_guard s) :: nat) \<and>
     (at s = Starting \<longleftrightarrow> user_at p = User_connect i) \<and> (at s = Starting \<longrightarrow> \<not> leaving s) \<and>
     (in_flight (shared s) \<noteq> None \<longleftrightarrow> at s = Waiting) \<and>
     (saw_flag (at s) \<longrightarrow> m_was_canceled (shared s)) \<and>
     length (filter (\<lambda>x. fst x = i) (callbacks p)) = of_bool (at s = Returned)"

definition pool_ok :: "pool \<Rightarrow> bool" where
  "pool_ok p \<longleftrightarrow>
     (\<forall>i < length (mt_sessions p). session_ok p i (mt_sessions p ! i)) \<and>
     sum_list (map (\<lambda>s. erasing (at s)) (mt_sessions p)) + of_bool (user_holds (user_at p)) =
       of_bool (m_active_sessions_guard p) \<and>
     idle_threads p + exited_threads p + sum_list (map busy (mt_sessions p)) = m_threads p \<and>
     (mt_work p \<longleftrightarrow> user_at p \<noteq> User_join \<and> user_at p \<noteq> User_closed) \<and>
     (0 < exited_threads p \<longrightarrow>
       \<not> mt_work p \<and> (\<forall>i < length (mt_sessions p). at (mt_sessions p ! i) = Returned \<and> \<not> leaving (mt_sessions p ! i))) \<and>
     (\<forall>x \<in> set (callbacks p). fst x < length (mt_sessions p)) \<and>
     user_refers p (user_at p) \<and>
     (\<forall>k i. mt_active p k = Some i \<longrightarrow>
       i < length (mt_sessions p) \<and> k = sint (m_id (shared (mt_sessions p ! i))))"

lemma user_refers_cong:
  "length (mt_sessions p) = length (mt_sessions q) \<Longrightarrow> mt_active p = mt_active q \<Longrightarrow>
    exited_threads p = exited_threads q \<Longrightarrow> m_threads p = m_threads q \<Longrightarrow> user_refers p u = user_refers q u"
  by (cases u) simp_all

text \<open>A step of a handler that leaves the map alone.\<close>

lemma pool_ok_handler:
  assumes "pool_ok p" "i < length (mt_sessions p)" "session_ok q i s"
    and "m_id (shared s) = m_id (shared (mt_sessions p ! i))"
    and "erasing (at s) + of_bool (m_active_sessions_guard p) =
      erasing (at (mt_sessions p ! i)) + of_bool (m_active_sessions_guard q)"
    and "busy s + idle_threads q = busy (mt_sessions p ! i) + idle_threads p"
    and "at (mt_sessions p ! i) \<noteq> Returned \<or> leaving (mt_sessions p ! i)"
    and q: "mt_sessions q = (mt_sessions p)[i := s]" "mt_active q = mt_active p"
      "callbacks q = callbacks p @ xs" "list_all (\<lambda>x. fst x = i) xs"
      "user_at q = user_at p" "mt_work q = mt_work p" "m_threads q = m_threads p" "exited_threads q = exited_threads p"
  shows "pool_ok q"
proof -
  have "filter (\<lambda>x. fst x = j) xs = []" if "j \<noteq> i" for j
    using that q(4) by (auto simp: list_all_iff filter_empty_conv)
  then have "session_ok q j t = session_ok p j t" if "j \<noteq> i" for j t
    using that q(3,5) by (simp add: session_ok_def)
  moreover have "user_refers q u = user_refers p u" for u using q by (simp add: user_refers_cong [of q p])
  moreover have "\<forall>x \<in> set xs. fst x < length (mt_sessions p)" using q(4) assms(2) by (auto simp: list_all_iff)
  moreover note sum_list_replace [OF assms(2), of "\<lambda>s. erasing (at s)" s] sum_list_replace [OF assms(2), of busy s]
  ultimately show ?thesis using assms(1-7) q(1-3,5-8)
    by (auto simp: pool_ok_def nth_update_if)
qed

lemma pool_okD:
  assumes "pool_ok p"
  shows "i < length (mt_sessions p) \<Longrightarrow> session_ok p i (mt_sessions p ! i)"
    and "sum_list (map (\<lambda>s. erasing (at s)) (mt_sessions p)) + of_bool (user_holds (user_at p)) =
      of_bool (m_active_sessions_guard p)"
    and "idle_threads p + exited_threads p + sum_list (map busy (mt_sessions p)) = m_threads p"
    and "user_refers p (user_at p)"
    and "mt_active p k = Some i \<Longrightarrow> i < length (mt_sessions p) \<and> k = sint (m_id (shared (mt_sessions p ! i)))"
  using assms by (auto simp: pool_ok_def)

text \<open>While one handler holds \<open>m_active_sessions_guard\<close>, nobody else does.\<close>

lemma erasing_guard:
  assumes "pool_ok p" "i < length (mt_sessions p)" "at (mt_sessions p ! i) = Erasing b"
  shows "m_active_sessions_guard p \<and> \<not> user_holds (user_at p)"
proof -
  have "erasing (at (mt_sessions p ! i)) \<le> sum_list (map (\<lambda>s. erasing (at s)) (mt_sessions p))"
    using assms(2) by (intro member_le_sum_list) auto
  then show ?thesis using pool_okD(2) [OF assms(1)] assms(3) by (auto simp: of_bool_def split: if_splits)
qed

lemma begin_handler_cases:
  "begin_handler ec bs st s = (s', a) \<Longrightarrow>
    m_id s' = m_id s \<and> m_was_canceled s' = m_was_canceled s \<and> in_flight s' = None \<and> shut_down s' = shut_down s \<and>
    (a = Completing False \<or> a = Checking st \<and> st \<noteq> Reading \<and> \<not> failed ec)"
  by (auto simp: begin_handler_def failed_def Let_def split: if_splits prod.splits)

lemma start_handler_ok:
  assumes "pool_ok p" "start_handler i ec bs p = Some q"
  shows "pool_ok q"
proof -
  obtain st s a where h: "i < length (mt_sessions p)" "at (mt_sessions p ! i) = Waiting" "0 < idle_threads p"
    "begin_handler ec bs st (shared (mt_sessions p ! i)) = (s, a)"
    "q = put i ((mt_sessions p ! i)\<lparr>shared := s, at := a\<rparr>) (p\<lparr>idle_threads := idle_threads p - 1\<rparr>)"
    using assms(2) by (auto simp: start_handler_def split: if_splits option.splits prod.splits)
  note b = begin_handler_cases [OF h(4)]
  have "session_ok q i ((mt_sessions p ! i)\<lparr>shared := s, at := a\<rparr>)"
    using pool_okD(1) [OF assms(1) h(1)] b h(2,5) by (elim conjE disjE) (simp_all add: session_ok_def)
  then show ?thesis
    by (rule pool_ok_handler [OF assms(1) h(1), where xs = "[]"])
      (use h b in \<open>elim conjE disjE; simp add: busy_def runs_handler_def\<close>)+
qed

lemma leave_step_ok:
  assumes "pool_ok p" "leave_step i p = Some q"
  shows "pool_ok q"
proof -
  have h: "i < length (mt_sessions p)" "leaving (mt_sessions p ! i)"
    "q = put i ((mt_sessions p ! i)\<lparr>m_cancel_guard := False, leaving := False\<rparr>)
           (p\<lparr>idle_threads := idle_threads p + 1\<rparr>)"
    using assms(2) by (auto simp: leave_step_def split: if_splits)
  have "session_ok q i ((mt_sessions p ! i)\<lparr>m_cancel_guard := False, leaving := False\<rparr>)"
    using pool_okD(1) [OF assms(1) h(1)] h(2,3) by (simp add: session_ok_def of_bool_def split: if_splits)
  then show ?thesis
    by (rule pool_ok_handler [OF assms(1) h(1), where xs = "[]"]) (use h in \<open>simp_all add: busy_def\<close>)
qed

text \<open>The step of a handler that erases its session from the map.\<close>

lemma erase_step_ok:
  assumes ok: "pool_ok p" and i: "i < length (mt_sessions p)" and e: "at (mt_sessions p ! i) = Erasing b"
    and q: "mt_sessions q = (mt_sessions p)[i := (mt_sessions p ! i)\<lparr>at := Calling b\<rparr>]"
      "mt_active q = (mt_active p)(sint (m_id (shared (mt_sessions p ! i))) := None)"
      "\<not> m_active_sessions_guard q" "callbacks q = callbacks p" "user_at q = user_at p" "mt_work q = mt_work p"
      "m_threads q = m_threads p" "exited_threads q = exited_threads p" "idle_threads q = idle_threads p"
  shows "pool_ok q"
proof -
  let ?s = "(mt_sessions p ! i)\<lparr>at := Calling b\<rparr>" and ?r = "q\<lparr>mt_active := mt_active p\<rparr>"
  have "session_ok ?r i ?s" using pool_okD(1) [OF ok i] e q by (simp add: session_ok_def)
  then have "pool_ok ?r"
    by (rule pool_ok_handler [OF ok i, where xs = "[]"])
      (use q e erasing_guard [OF ok i e] in \<open>simp_all add: busy_def runs_handler_def\<close>)
  moreover have "user_refers q (user_at q)"
    using erasing_guard [OF ok i e] pool_okD(4) [OF ok] q by (cases "user_at p") simp_all
  moreover have "session_ok q j t = session_ok ?r j t" for j t by (simp add: session_ok_def)
  ultimately show ?thesis using q(2) by (auto simp: pool_ok_def split: if_splits)
qed

lemma callback_step_ok:
  assumes ok: "pool_ok p" and i: "i < length (mt_sessions p)" and c: "at (mt_sessions p ! i) = Calling b"
    and q: "mt_sessions q = (mt_sessions p)[i := (mt_sessions p ! i)\<lparr>at := Returned,
        m_cancel_guard := (if b then False else m_cancel_guard (mt_sessions p ! i))\<rparr>]"
      "mt_active q = mt_active p" "m_active_sessions_guard q = m_active_sessions_guard p"
      "callbacks q = callbacks p @ [(i, rid, resp, ec)]" "user_at q = user_at p" "mt_work q = mt_work p"
      "m_threads q = m_threads p" "exited_threads q = exited_threads p" "idle_threads q = idle_threads p + 1"
  shows "pool_ok q"
proof -
  have "session_ok q i ((mt_sessions p ! i)\<lparr>at := Returned,
      m_cancel_guard := (if b then False else m_cancel_guard (mt_sessions p ! i))\<rparr>)"
    using pool_okD(1) [OF ok i] c q(4,5) by (cases b) (simp_all add: session_ok_def of_bool_def split: if_splits)
  then show ?thesis
    by (rule pool_ok_handler [OF ok i, where xs = "[(i, rid, resp, ec)]"]) (use q c in \<open>simp_all add: busy_def runs_handler_def\<close>)
qed

lemma handler_step_ok:
  assumes ok: "pool_ok p" and st: "handler_step aborted i p = Some q"
  shows "pool_ok q"
proof -
  have i: "i < length (mt_sessions p)" using st by (simp add: handler_step_def Let_def split: if_splits)
  note h = st [unfolded handler_step_def Let_def, simplified i if_True]
  note s = pool_okD(1) [OF ok i]
  have step: ?thesis
    if "put i t p' = q" "session_ok p i t" "m_id (shared t) = m_id (shared (mt_sessions p ! i))"
      "busy t = busy (mt_sessions p ! i)" "at (mt_sessions p ! i) \<noteq> Returned"
      "p' = p \<and> erasing (at t) = erasing (at (mt_sessions p ! i)) \<or>
       p' = p\<lparr>m_active_sessions_guard := True\<rparr> \<and> erasing (at t) = 1 \<and>
         erasing (at (mt_sessions p ! i)) = 0 \<and> \<not> m_active_sessions_guard p" for t p'
  proof -
    have q: "callbacks q = callbacks p" "user_at q = user_at p" "mt_sessions q = (mt_sessions p)[i := t]"
      "mt_active q = mt_active p" "mt_work q = mt_work p" "m_threads q = m_threads p"
      "exited_threads q = exited_threads p" "idle_threads q = idle_threads p"
      "erasing (at t) + of_bool (m_active_sessions_guard p) =
        erasing (at (mt_sessions p ! i)) + of_bool (m_active_sessions_guard q)"
      using that(1) [symmetric] that(6) by (elim disjE conjE; simp)+
    have "session_ok q i t" using that(2) q(1,2) by (simp add: session_ok_def)
    then show ?thesis
      by (rule pool_ok_handler [OF ok i, where xs = "[]"]) (use that(3-5) q in simp_all)
  qed
  show ?thesis
  proof (cases "at (mt_sessions p ! i)")
    case (Checking st)
    with h s show ?thesis
      by (intro step [of "(mt_sessions p ! i)\<lparr>m_cancel_guard := True, at := Checked st\<rparr>" p])
        (simp_all add: session_ok_def busy_def runs_handler_def split: if_splits)
  next
    case (Checked st)
    show ?thesis
    proof (cases "m_was_canceled (shared (mt_sessions p ! i))")
      case True
      with Checked h s show ?thesis
        by (intro step [of "(mt_sessions p ! i)\<lparr>at := Completing True\<rparr>" p])
          (simp_all add: session_ok_def busy_def runs_handler_def)
    next
      case False
      with Checked h s show ?thesis
        by (intro step [of "(mt_sessions p ! i)\<lparr>shared := (shared (mt_sessions p ! i))
              \<lparr>in_flight := Some (next_stage st)\<rparr>, at := Waiting, leaving := True\<rparr>" p])
          (simp_all add: session_ok_def busy_def runs_handler_def of_bool_def split: if_splits)
    qed
  next
    case (Completing b)
    with h s show ?thesis
      by (intro step [of "(mt_sessions p ! i)\<lparr>shared :=
          (shared (mt_sessions p ! i))\<lparr>shut_down := True\<rparr>, at := Locking b\<rparr>" p])
        (simp_all add: session_ok_def busy_def runs_handler_def)
  next
    case (Locking b)
    with h s show ?thesis
      by (intro step [of "(mt_sessions p ! i)\<lparr>at := Erasing b\<rparr>" "p\<lparr>m_active_sessions_guard := True\<rparr>"])
        (simp_all add: session_ok_def busy_def runs_handler_def split: if_splits)
  next
    case (Erasing b)
    have "m(k := None) = m" if "m k = None" for m :: "int \<rightharpoonup> nat" and k using that by auto
    with h Erasing erase_step_ok [OF ok i Erasing, of q] show ?thesis
      by (cases "mt_active p (sint (m_id (shared (mt_sessions p ! i))))") auto
  next
    case (Calling b)
    with h callback_step_ok [OF ok i Calling, of q] show ?thesis by auto
  qed (use h in simp_all)
qed

text \<open>A step of the user that changes one session at most.\<close>

lemma pool_ok_user:
  assumes ok: "pool_ok p"
    and each: "\<And>j. j < length (mt_sessions p) \<Longrightarrow> session_ok q j (mt_sessions q ! j)"
    and same: "map (\<lambda>s. m_id (shared s)) (mt_sessions q) = map (\<lambda>s. m_id (shared s)) (mt_sessions p)"
      "map (\<lambda>s. erasing (at s)) (mt_sessions q) = map (\<lambda>s. erasing (at s)) (mt_sessions p)"
      "map busy (mt_sessions q) = map busy (mt_sessions p)"
    and exited: "exited_threads p = 0"
    and guard: "of_bool (user_holds (user_at q)) + of_bool (m_active_sessions_guard p) =
      of_bool (user_holds (user_at p)) + (of_bool (m_active_sessions_guard q) :: nat)"
    and refers: "user_refers q (user_at q)" and work: "mt_work q \<longleftrightarrow> user_at q \<noteq> User_join \<and> user_at q \<noteq> User_closed"
    and q: "mt_active q = mt_active p" "callbacks q = callbacks p" "m_threads q = m_threads p"
      "exited_threads q = exited_threads p" "idle_threads q = idle_threads p"
  shows "pool_ok q"
proof -
  have len: "length (mt_sessions q) = length (mt_sessions p)" using same(1) by (metis length_map)
  have "m_id (shared (mt_sessions q ! j)) = m_id (shared (mt_sessions p ! j))" if "j < length (mt_sessions p)" for j
    using that same(1) len by (metis nth_map)
  then show ?thesis using ok each exited guard refers work q len unfolding pool_ok_def same(2,3) by auto
qed

lemma not_exited: "pool_ok p \<Longrightarrow> user_at p \<noteq> User_join \<Longrightarrow> user_at p \<noteq> User_closed \<Longrightarrow> exited_threads p = 0"
  by (auto simp: pool_ok_def)

text \<open>The calls that only move the user's thread on.\<close>

lemma pool_ok_user_moves:
  assumes ok: "pool_ok p" and u: "user_at p \<noteq> User_join" "user_at p \<noteq> User_closed"
    and "\<And>j. \<not> marks (user_at p) j \<and> \<not> marks u j \<and> user_at p \<noteq> User_connect j \<and> u \<noteq> User_connect j"
    and "of_bool (user_holds u) + of_bool (m_active_sessions_guard p) =
      of_bool (user_holds (user_at p)) + (of_bool g :: nat)"
    and "user_refers p u" "w \<longleftrightarrow> u \<noteq> User_join \<and> u \<noteq> User_closed"
  shows "pool_ok (p\<lparr>m_active_sessions_guard := g, mt_work := w, user_at := u\<rparr>)"
proof (rule pool_ok_user [OF ok])
  let ?q = "p\<lparr>m_active_sessions_guard := g, mt_work := w, user_at := u\<rparr>"
  show "session_ok ?q j (mt_sessions ?q ! j)" if "j < length (mt_sessions p)" for j
    using pool_okD(1) [OF ok that] assms(4) by (auto simp: session_ok_def)
  show "user_refers ?q (user_at ?q)" using assms(6) user_refers_cong [of ?q p u] by simp
qed (use assms not_exited [OF ok u] in simp_all)

lemma user_insert_ok:
  assumes ok: "pool_ok p" and u: "user_at p = User_inserting session"
    and q: "q = p\<lparr>mt_sessions := mt_sessions p @
                   [\<lparr>shared = session, at = Starting, m_cancel_guard = False, leaving = False\<rparr>],
                  mt_active := (mt_active p)(sint (m_id session) \<mapsto> length (mt_sessions p)),
                  m_active_sessions_guard := False, user_at := User_connect (length (mt_sessions p))\<rparr>"
  shows "pool_ok q"
proof -
  let ?n = "length (mt_sessions p)"
  have s: "in_flight session = None"
    using pool_okD(4) [OF ok] u by (auto simp: fresh_session_def new_session_def)
  have "filter (\<lambda>x. fst x = ?n) (callbacks p) = []"
    using ok by (auto simp: pool_ok_def filter_empty_conv)
  then have "session_ok q j (mt_sessions q ! j)" if "j < length (mt_sessions q)" for j
    using that pool_okD(1) [OF ok, of j] u q s
    by (cases "j = ?n") (auto simp: session_ok_def nth_append less_Suc_eq)
  moreover have "sum_list (map (\<lambda>s. erasing (at s)) (mt_sessions p)) = 0"
    using pool_okD(2) [OF ok] u by (simp add: of_bool_def split: if_splits)
  moreover have "exited_threads p = 0" using not_exited [OF ok] u by simp
  ultimately show ?thesis using ok q u
    by (fastforce simp: pool_ok_def nth_append busy_def runs_handler_def)
qed

text \<open>The three calls that change the session the user refers to.\<close>

lemma user_connect_ok:
  assumes ok: "pool_ok p" and u: "user_at p = User_connect i"
  shows "pool_ok (put i ((mt_sessions p ! i)\<lparr>shared := (shared (mt_sessions p ! i))\<lparr>in_flight := Some Connecting\<rparr>,
    at := Waiting\<rparr>) (p\<lparr>user_at := User_idle\<rparr>))"
proof (rule pool_ok_user [OF ok])
  let ?s = "(mt_sessions p ! i)\<lparr>shared := (shared (mt_sessions p ! i))\<lparr>in_flight := Some Connecting\<rparr>, at := Waiting\<rparr>"
  let ?q = "put i ?s (p\<lparr>user_at := User_idle\<rparr>)"
  have i: "i < length (mt_sessions p)" using pool_okD(4) [OF ok] u by simp
  have a: "at (mt_sessions p ! i) = Starting" using pool_okD(1) [OF ok i] u by (simp add: session_ok_def)
  show "session_ok ?q j (mt_sessions ?q ! j)" if "j < length (mt_sessions p)" for j
    using pool_okD(1) [OF ok that] a u that
    by (cases "j = i") (simp_all add: session_ok_def of_bool_def split: if_splits)
  show "map (\<lambda>s. erasing (at s)) (mt_sessions ?q) = map (\<lambda>s. erasing (at s)) (mt_sessions p)"
    "map busy (mt_sessions ?q) = map busy (mt_sessions p)"
    using a by (simp_all add: map_update_same busy_def runs_handler_def)
qed (use u not_exited [OF ok] ok in \<open>simp_all add: map_update_same pool_ok_def\<close>)

lemma user_found_ok:
  assumes ok: "pool_ok p" and u: "user_at p = User_found rid i" and free: "\<not> m_cancel_guard (mt_sessions p ! i)"
  shows "pool_ok (put i ((mt_sessions p ! i)\<lparr>m_cancel_guard := True\<rparr>) (p\<lparr>user_at := User_mark rid i\<rparr>))"
proof (rule pool_ok_user [OF ok])
  let ?q = "put i ((mt_sessions p ! i)\<lparr>m_cancel_guard := True\<rparr>) (p\<lparr>user_at := User_mark rid i\<rparr>)"
  show "session_ok ?q j (mt_sessions ?q ! j)" if "j < length (mt_sessions p)" for j
    using pool_okD(1) [OF ok that] u free that by (cases "j = i") (simp_all add: session_ok_def)
  show "map busy (mt_sessions ?q) = map busy (mt_sessions p)" by (simp add: map_update_same busy_def)
qed (use u not_exited [OF ok] pool_okD(4) [OF ok] ok in \<open>simp_all add: map_update_same pool_ok_def\<close>)

lemma user_mark_ok:
  assumes ok: "pool_ok p" and u: "user_at p = User_mark rid i"
  shows "pool_ok (put i ((mt_sessions p ! i)\<lparr>shared := (shared (mt_sessions p ! i))\<lparr>m_was_canceled := True\<rparr>,
    m_cancel_guard := False\<rparr>) (p\<lparr>m_active_sessions_guard := False, user_at := User_idle\<rparr>))"
proof (rule pool_ok_user [OF ok])
  let ?s = "(mt_sessions p ! i)\<lparr>shared := (shared (mt_sessions p ! i))\<lparr>m_was_canceled := True\<rparr>, m_cancel_guard := False\<rparr>"
  let ?q = "put i ?s (p\<lparr>m_active_sessions_guard := False, user_at := User_idle\<rparr>)"
  show "session_ok ?q j (mt_sessions ?q ! j)" if "j < length (mt_sessions p)" for j
    using pool_okD(1) [OF ok that] u that
    by (cases "j = i") (simp_all add: session_ok_def of_bool_def split: if_splits)
  show "map busy (mt_sessions ?q) = map busy (mt_sessions p)" by (simp add: map_update_same busy_def)
  show "of_bool (user_holds (user_at ?q)) + of_bool (m_active_sessions_guard p) =
      of_bool (user_holds (user_at p)) + (of_bool (m_active_sessions_guard ?q) :: nat)"
    using pool_okD(2) [OF ok] u by (simp add: of_bool_def split: if_splits)
qed (use u not_exited [OF ok] ok in \<open>simp_all add: map_update_same pool_ok_def\<close>)

lemma user_step_ok:
  assumes ok: "pool_ok p" and st: "user_step p = Some q"
  shows "pool_ok q"
proof (cases "user_at p")
  case (User_insert s)
  then have "q = p\<lparr>m_active_sessions_guard := True, mt_work := mt_work p, user_at := User_inserting s\<rparr>"
    "\<not> m_active_sessions_guard p" using st by (simp_all add: user_step_def split: if_splits)
  with User_insert ok pool_okD(4) [OF ok] show ?thesis
    by (simp only:, intro pool_ok_user_moves) (simp_all add: pool_ok_def)
next
  case (User_inserting s)
  with st user_insert_ok [OF ok User_inserting] show ?thesis by (auto simp: user_step_def)
next
  case (User_connect i)
  with st user_connect_ok [OF ok] show ?thesis by (auto simp: user_step_def)
next
  case (User_cancel rid)
  then have "q = p\<lparr>m_active_sessions_guard := True, mt_work := mt_work p, user_at := User_find rid\<rparr>"
    "\<not> m_active_sessions_guard p" using st by (simp_all add: user_step_def split: if_splits)
  with User_cancel ok show ?thesis
    by (simp only:, intro pool_ok_user_moves) (simp_all add: pool_ok_def)
next
  case (User_find rid)
  have "m_active_sessions_guard p" using pool_okD(2) [OF ok] User_find by (simp add: of_bool_def split: if_splits)
  then have "q = p\<lparr>m_active_sessions_guard := (mt_active p (sint rid) \<noteq> None), mt_work := mt_work p,
      user_at := (case mt_active p (sint rid) of None \<Rightarrow> User_idle | Some i \<Rightarrow> User_found rid i)\<rparr>"
    using User_find st by (auto simp: user_step_def split: option.splits)
  with User_find ok \<open>m_active_sessions_guard p\<close> show ?thesis
    by (simp only:, intro pool_ok_user_moves) (auto simp: pool_ok_def split: option.splits)
next
  case (User_found rid i)
  with st user_found_ok [OF ok User_found] show ?thesis by (simp add: user_step_def split: if_splits)
next
  case (User_mark rid i)
  with st user_mark_ok [OF ok User_mark] show ?thesis by (simp add: user_step_def)
next
  case User_join
  then have "q = p\<lparr>user_at := User_closed\<rparr>" "exited_threads p = m_threads p"
    using st by (simp_all add: user_step_def split: if_splits)
  with User_join ok show ?thesis by (simp add: pool_ok_def session_ok_def)
qed (use st in \<open>simp_all add: user_step_def\<close>)

lemma thread_exit_ok:
  assumes "pool_ok p" "thread_exit p = Some q"
  shows "pool_ok q"
proof -
  have "\<not> mt_work p" "0 < idle_threads p" "list_all (\<lambda>s. at s = Returned \<and> \<not> leaving s) (mt_sessions p)"
    "q = p\<lparr>idle_threads := idle_threads p - 1, exited_threads := exited_threads p + 1\<rparr>"
    using assms(2) by (auto simp: thread_exit_def split: if_splits)
  with assms(1) show ?thesis
    by (auto simp: pool_ok_def session_ok_def list_all_length)
qed

lemma pool_ok_step:
  assumes ok: "pool_ok p" and st: "pool_step aborted p q"
  shows "pool_ok q"
  using st
proof cases
  case running
  then show ?thesis using ok
    by (auto elim!: running_step.cases intro: handler_step_ok leave_step_ok user_step_ok)
next
  case (request d address open_error rid)
  then obtain ep where "q = p\<lparr>m_active_sessions_guard := m_active_sessions_guard p, mt_work := mt_work p,
      user_at := User_insert (new_session ep (request_text d) rid)\<rparr>"
    by (auto simp: begin_request_def rbind_Inr_iff Let_def split: option.splits)
  with request(1) ok show ?thesis
    by (simp only:, intro pool_ok_user_moves) (auto simp: pool_ok_def fresh_session_def)
next
  case (cancel rid)
  then have "q = p\<lparr>m_active_sessions_guard := m_active_sessions_guard p, mt_work := mt_work p, user_at := User_cancel rid\<rparr>"
    by (simp add: begin_cancel_def)
  with cancel(2) ok show ?thesis
    by (simp only:, intro pool_ok_user_moves) (simp_all add: pool_ok_def)
next
  case close
  then have "q = p\<lparr>m_active_sessions_guard := m_active_sessions_guard p, mt_work := False, user_at := User_join\<rparr>"
    by (simp add: begin_close_def)
  with close(2) ok show ?thesis
    by (simp only:, intro pool_ok_user_moves) (simp_all add: pool_ok_def)
qed (use ok start_handler_ok thread_exit_ok in blast)+

lemma fold_add_thread:
  "fold (\<lambda>_. add_thread) xs p = p\<lparr>m_threads := m_threads p + length xs, idle_threads := idle_threads p + length xs\<rparr>"
  by (induction xs arbitrary: p) (simp_all add: add_thread_def)

lemma AsyncTCPClientMT_eq:
  "AsyncTCPClientMT n =
    \<lparr>mt_sessions = [], mt_active = Map.empty, m_active_sessions_guard = False, mt_work = True,
     m_threads = unat n, idle_threads = unat n, exited_threads = 0, user_at = User_idle, callbacks = []\<rparr>"
  by (simp only: AsyncTCPClientMT_def fold_add_thread) simp

lemma pool_ok_init: "pool_ok (AsyncTCPClientMT n)"
  by (simp add: AsyncTCPClientMT_eq pool_ok_def)

interpretation pool: invariant_system "\<lambda>p. p = AsyncTCPClientMT n" "pool_step aborted" pool_ok for aborted n
  by unfold_locales (auto intro: pool_ok_init pool_ok_step)

lemma pool_reachable_ok: "pool_reachable aborted n p \<Longrightarrow> pool_ok p"
  using pool.inv_reachable unfolding pool_reachable_def by blast

section \<open>Threads and mutexes\<close>

lemma pool_step_threads: "pool_step aborted p q \<Longrightarrow> m_threads q = m_threads p"
  by (auto elim!: pool_step.cases running_step.cases
      simp: handler_step_def leave_step_def user_step_def start_handler_def thread_exit_def begin_request_def
        begin_cancel_def begin_close_def rbind_Inr_iff Let_def
      split: if_splits option.splits handler_at.splits user_at.splits prod.splits)

lemma pool_reachable_threads: "pool_reachable aborted n p \<Longrightarrow> m_threads p = unat n"
  unfolding pool_reachable_def
  by (induction rule: rtranclp_induct) (simp_all add: AsyncTCPClientMT_eq pool_step_threads)

lemma sum_list_two:
  fixes f :: "'s \<Rightarrow> nat"
  assumes "i < length xs" "j < length xs" "i \<noteq> j"
  shows "f (xs ! i) + f (xs ! j) \<le> sum_list (map f xs)"
proof -
  have "sum_list (map f xs) = (\<Sum>k = 0..<length xs. f (xs ! k))" by (simp add: sum_list_sum_nth)
  also have "\<dots> \<ge> (\<Sum>k \<in> {i, j}. f (xs ! k))" using assms by (intro sum_mono2) auto
  finally show ?thesis using assms(3) by simp
qed

text \<open>
  The two kinds of mutex exclude: at most one handler, or else the user, is between the lock and
  the unlock of \<open>m_active_sessions_guard\<close>; the \<open>m_cancel_guard\<close> of a session is held by at most one
  of the handler that started its last operation, the handler running and the user. No more
  handlers run at a time than the pool has threads.
\<close>

definition holders :: "pool \<Rightarrow> nat \<Rightarrow> nat" where
  "holders p i = of_bool (leaving (mt_sessions p ! i)) + of_bool (holds_cancel (at (mt_sessions p ! i))) +
     of_bool (marks (user_at p) i)"

text \<open>
  C30: In every interleaving the map of sessions is locked by at most one thread, no more handlers run
  than the pool has threads, and the guard of each session is held exactly when it is locked, by one of
  the handler that started its last operation, the handler running and the user.
\<close>

theorem pool_mutual_exclusion:
  assumes "pool_reachable aborted n p"
  shows "sum_list (map (\<lambda>s. erasing (at s)) (mt_sessions p)) + of_bool (user_holds (user_at p)) \<le> 1 \<and>
    sum_list (map busy (mt_sessions p)) \<le> unat n \<and>
    (\<forall>i < length (mt_sessions p). holders p i = of_bool (m_cancel_guard (mt_sessions p ! i)))"
proof -
  note ok = pool_reachable_ok [OF assms]
  show ?thesis
    using pool_okD(1-3) [OF ok] pool_reachable_threads [OF assms]
    by (auto simp: holders_def session_ok_def of_bool_def)
qed

text \<open>
  In every interleaving the user's callback is called for a request exactly when its last handler
  has returned, and then once.
\<close>

theorem pool_callback_once:
  assumes "pool_reachable aborted n p" "i < length (mt_sessions p)"
  shows "length (filter (\<lambda>x. fst x = i) (callbacks p)) = (if at (mt_sessions p ! i) = Returned then 1 else 0)"
  using pool_okD(1) [OF pool_reachable_ok [OF assms(1)] assms(2)] by (simp add: session_ok_def)

section \<open>Deadlock\<close>

text \<open>
  Everything that runs can get stuck in one way only: the user waits in \<open>CancelRequest\<close> for the
  \<open>m_cancel_guard\<close> of a request that was cancelled before, and whose handler waits, with that mutex,
  for the one the user holds.
\<close>

definition deadlocked :: "pool \<Rightarrow> bool" where
  "deadlocked p \<longleftrightarrow> (\<exists>rid i. user_at p = User_found rid i \<and> at (mt_sessions p ! i) = Locking True \<and>
     m_was_canceled (shared (mt_sessions p ! i)))"

definition quiet :: "pool \<Rightarrow> bool" where
  "quiet p \<longleftrightarrow> (user_at p = User_idle \<or> user_at p = User_join \<or> user_at p = User_closed) \<and>
     list_all (\<lambda>s. \<not> leaving s \<and> \<not> runs_handler (at s)) (mt_sessions p)"

lemma guard_free:
  assumes ok: "pool_ok p" and free: "\<And>q. \<not> running_step aborted p q" and u: "\<not> user_holds (user_at p)"
  shows "\<not> m_active_sessions_guard p"
proof
  assume "m_active_sessions_guard p"
  then have "sum_list (map (\<lambda>s. erasing (at s)) (mt_sessions p)) \<noteq> 0"
    using pool_okD(2) [OF ok] u by simp
  then obtain i where i: "i < length (mt_sessions p)" "erasing (at (mt_sessions p ! i)) \<noteq> 0"
    by (auto simp: sum_list_eq_0_iff in_set_conv_nth)
  then obtain b where "at (mt_sessions p ! i) = Erasing b" by (cases "at (mt_sessions p ! i)") auto
  with i(1) have "\<exists>q. handler_step aborted i p = Some q" by (simp add: handler_step_def Let_def)
  with free show False by (blast intro: running_step.handler)
qed

lemma blocked_handler:
  assumes ok: "pool_ok p" and free: "\<And>q. \<not> running_step aborted p q" and i: "i < length (mt_sessions p)"
  shows "\<not> leaving (mt_sessions p ! i) \<and> (runs_handler (at (mt_sessions p ! i)) \<longrightarrow>
    (\<exists>st. at (mt_sessions p ! i) = Checking st \<and> marks (user_at p) i) \<or>
    (\<exists>b. at (mt_sessions p ! i) = Locking b \<and> m_active_sessions_guard p))"
proof -
  have l: "\<not> leaving (mt_sessions p ! i)"
  proof
    assume "leaving (mt_sessions p ! i)"
    with i have "\<exists>q. leave_step i p = Some q" by (simp add: leave_step_def)
    with free show False by (blast intro: running_step.leave)
  qed
  have "handler_step aborted i p = None" using free by (metis not_None_eq running_step.handler)
  then show ?thesis using l i pool_okD(1) [OF ok i]
    by (cases "at (mt_sessions p ! i)")
      (auto simp: handler_step_def Let_def runs_handler_def session_ok_def of_bool_def split: if_splits)
qed

lemma blocked_cases:
  assumes ok: "pool_ok p" and free: "\<And>q. \<not> running_step aborted p q"
  shows "deadlocked p \<or> quiet p"
proof -
  have user: "user_step p = None" using free by (metis not_None_eq running_step.user)
  show ?thesis
  proof (cases "user_holds (user_at p)")
    case True
    then obtain rid i where u: "user_at p = User_found rid i" "m_cancel_guard (mt_sessions p ! i)"
      using user by (cases "user_at p") (auto simp: user_step_def split: option.splits if_splits)
    then have i: "i < length (mt_sessions p)" using pool_okD(4,5) [OF ok] by simp
    have "at (mt_sessions p ! i) = Locking True \<and> m_was_canceled (shared (mt_sessions p ! i))"
      using pool_okD(1) [OF ok i] u blocked_handler [OF ok free i]
      by (cases "at (mt_sessions p ! i)") (auto simp: session_ok_def runs_handler_def of_bool_def split: if_splits)
    with u show ?thesis by (auto simp: deadlocked_def)
  next
    case False
    note g = guard_free [OF ok free False]
    then have u: "user_at p = User_idle \<or> user_at p = User_join \<or> user_at p = User_closed"
      using user False by (cases "user_at p") (auto simp: user_step_def)
    moreover have "\<not> leaving (mt_sessions p ! i) \<and> \<not> runs_handler (at (mt_sessions p ! i))"
      if "i < length (mt_sessions p)" for i
      using blocked_handler [OF ok free that] g u by auto
    ultimately show ?thesis by (simp add: quiet_def list_all_length)
  qed
qed

text \<open>What runs comes to an end: each handler has at most six steps, a call of the user four.\<close>

fun steps_left :: "handler_at \<Rightarrow> nat" where
  "steps_left (Checking _) = 6"
| "steps_left (Checked _) = 5"
| "steps_left (Completing _) = 4"
| "steps_left (Locking _) = 3"
| "steps_left (Erasing _) = 2"
| "steps_left (Calling _) = 1"
| "steps_left _ = 0"

fun user_steps_left :: "user_at \<Rightarrow> nat" where
  "user_steps_left (User_insert _) = 3"
| "user_steps_left (User_inserting _) = 2"
| "user_steps_left (User_connect _) = 1"
| "user_steps_left (User_cancel _) = 4"
| "user_steps_left (User_find _) = 3"
| "user_steps_left (User_found _ _) = 2"
| "user_steps_left (User_mark _ _) = 1"
| "user_steps_left User_join = 1"
| "user_steps_left _ = 0"

definition session_left :: "pool_session \<Rightarrow> nat" where
  "session_left s = steps_left (at s) + of_bool (leaving s)"

definition running_left :: "pool \<Rightarrow> nat" where
  "running_left p = sum_list (map session_left (mt_sessions p)) + user_steps_left (user_at p)"

lemma running_left_less:
  assumes "mt_sessions q = (mt_sessions p)[i := s]" "i < length (mt_sessions p)"
    and "session_left s + user_steps_left (user_at q) <
      session_left (mt_sessions p ! i) + user_steps_left (user_at p)"
  shows "running_left q < running_left p"
  using sum_list_replace [OF assms(2), of session_left s] assms(1,3) by (simp add: running_left_def)

lemma handler_step_decreases:
  assumes "handler_step aborted i p = Some q"
  shows "running_left q < running_left p"
proof -
  have i: "i < length (mt_sessions p)" using assms by (simp add: handler_step_def Let_def split: if_splits)
  show ?thesis
    using assms i
    by (cases "at (mt_sessions p ! i)")
      (auto simp: handler_step_def Let_def session_left_def split: if_splits option.splits
        intro!: running_left_less [OF _ i])
qed

lemma user_step_decreases:
  assumes "user_step p = Some q" "user_refers p (user_at p)" "pool_ok p"
  shows "running_left q < running_left p"
proof -
  have found: "j < length (mt_sessions p)" if "mt_active p k = Some j" for k j
    using pool_okD(5) [OF assms(3) that] by blast
  show ?thesis
  proof (cases "user_at p")
    case (User_connect i)
    with assms show ?thesis
      by (auto simp: user_step_def session_left_def intro!: running_left_less [of _ _ i])
  next
    case (User_found rid i)
    with assms found show ?thesis
      by (auto simp: user_step_def session_left_def split: if_splits intro!: running_left_less [of _ _ i])
  next
    case (User_mark rid i)
    with assms found show ?thesis
      by (auto simp: user_step_def session_left_def intro!: running_left_less [of _ _ i])
  qed (use assms in \<open>auto simp: user_step_def running_left_def session_left_def split: if_splits option.splits\<close>)
qed

lemma running_step_decreases:
  assumes "pool_ok p" "running_step aborted p q"
  shows "running_left q < running_left p"
  using assms(2)
proof cases
  case (leave i)
  then show ?thesis
    by (auto simp: leave_step_def session_left_def split: if_splits intro!: running_left_less [of _ _ i])
qed (use handler_step_decreases user_step_decreases pool_okD(4) assms(1) in blast)+

interpretation running_ends: terminating_system "running_step aborted" pool_ok running_left for aborted
  by unfold_locales (auto intro: pool_ok_step pool_step.running running_step_decreases)

lemma running_left_bound: "running_left p \<le> 7 * length (mt_sessions p) + 4"
proof -
  have "session_left s \<le> 7" for s
    by (cases "at s") (auto simp: session_left_def)
  then have "sum_list (map session_left xs) \<le> 7 * length xs" for xs
    by (induction xs) (simp_all add: add_le_mono)
  moreover have "user_steps_left u \<le> 4" for u by (cases u) simp_all
  ultimately show ?thesis unfolding running_left_def by (simp add: add_le_mono)
qed

text \<open>
  C19: What runs comes to an end: after at most seven steps for each session and four of the user, with no
  new event, nothing runs any more, or the threads and the user wait for each other.
\<close>

theorem pool_settles:
  assumes "pool_reachable aborted n p" "(running_step aborted ^^ k) p q"
  shows "k \<le> 7 * length (mt_sessions p) + 4 \<and>
    ((\<exists>r. running_step aborted q r) \<or> deadlocked q \<or> quiet q)"
  using running_ends.steps_bounded [OF assms(2) pool_reachable_ok [OF assms(1)]] running_left_bound [of p]
    blocked_cases [of q aborted] by fastforce

text \<open>
  The deadlock is final and spreads: as long as the program runs, no callback of any request is
  called and the call of \<open>CancelRequest\<close> does not return.
\<close>

lemma deadlock_step:
  assumes ok: "pool_ok p" and u: "user_at p = User_found rid i" and l: "at (mt_sessions p ! i) = Locking True"
    and c: "list_all (\<lambda>s. at s \<noteq> Calling True \<and> at s \<noteq> Calling False) (mt_sessions p)"
    and st: "pool_step aborted p q"
  shows "user_at q = User_found rid i \<and> at (mt_sessions q ! i) = Locking True \<and>
    list_all (\<lambda>s. at s \<noteq> Calling True \<and> at s \<noteq> Calling False) (mt_sessions q) \<and> callbacks q = callbacks p"
proof -
  have i: "i < length (mt_sessions p)" using pool_okD(4,5) [OF ok] u by simp
  have m: "m_cancel_guard (mt_sessions p ! i)" using pool_okD(1) [OF ok i] l by (simp add: session_ok_def of_bool_def split: if_splits)
  have g: "m_active_sessions_guard p" using pool_okD(2) [OF ok] u by (simp add: of_bool_def split: if_splits)
  have e: "at (mt_sessions p ! j) \<noteq> Erasing b" if "j < length (mt_sessions p)" for j b
    using erasing_guard [OF ok that] u by auto
  have c': "at (mt_sessions p ! j) \<noteq> Calling b" if "j < length (mt_sessions p)" for j b
    using c that by (cases b) (auto simp: list_all_length)
  have upd: "list_all P (xs[j := s])" if "list_all P xs" "P s" for P j and s :: pool_session and xs
    using that set_update_subset_insert [of xs j s] by (auto simp: list_all_iff)
  from st show ?thesis
  proof cases
    case running
    then show ?thesis
    proof cases
      case (handler j)
      then have j: "j < length (mt_sessions p)" by (simp add: handler_step_def Let_def split: if_splits)
      show ?thesis using handler j u l g e [OF j] c' [OF j] c
        by (cases "at (mt_sessions p ! j)")
          (auto simp: handler_step_def Let_def nth_update_if split: if_splits intro!: upd)
    next
      case (leave j)
      then show ?thesis using u l c c'
        by (auto simp: leave_step_def nth_update_if split: if_splits intro!: upd)
    qed (use u m in \<open>simp add: user_step_def\<close>)
  next
    case (start j ec bs)
    then show ?thesis using u l c begin_handler_cases [of ec bs]
      by (fastforce simp: start_handler_def nth_update_if split: if_splits option.splits prod.splits intro!: upd)
  next
    case exit
    then show ?thesis using u l c by (auto simp: thread_exit_def split: if_splits)
  qed (use u in simp_all)
qed

text \<open>
  C33: The deadlock of a second \<open>CancelRequest\<close> with a handler that found the first is final and spreads:
  whatever happens, no callback of any request is called and the call does not return.
\<close>

theorem pool_second_cancel_stops_all:
  assumes "pool_reachable aborted n p" "user_at p = User_found rid i" "at (mt_sessions p ! i) = Locking True"
    and "list_all (\<lambda>s. at s \<noteq> Calling True \<and> at s \<noteq> Calling False) (mt_sessions p)"
    and "(pool_step aborted)\<^sup>*\<^sup>* p q"
  shows "callbacks q = callbacks p \<and> user_at q = User_found rid i"
proof -
  have "pool_ok q \<and> user_at q = User_found rid i \<and> at (mt_sessions q ! i) = Locking True \<and>
      list_all (\<lambda>s. at s \<noteq> Calling True \<and> at s \<noteq> Calling False) (mt_sessions q) \<and> callbacks q = callbacks p"
    using assms(5)
  proof (induction rule: rtranclp_induct)
    case base
    show ?case using assms(2-4) pool_reachable_ok [OF assms(1)] by blast
  next
    case (step r q)
    then show ?case using deadlock_step [of r rid i aborted q] pool_ok_step [of r aborted q] by simp
  qed
  then show ?thesis by blast
qed

section \<open>Runs of the program\<close>

datatype move =
    Handler nat | Leave nat | Start nat error_code string | User | Exit
  | Request u32 | Cancel u32 | Shut

fun play :: "move \<Rightarrow> pool \<Rightarrow> pool option" where
  "play (Handler i) p = handler_step operation_aborted i p"
| "play (Leave i) p = leave_step i p"
| "play (Start i ec bs) p = start_handler i ec bs p"
| "play User p = user_step p"
| "play Exit p = thread_exit p"
| "play (Request rid) p = (if user_at p = User_idle
     then (case begin_request 10 (Inr 0) None rid p of Inr q \<Rightarrow> Some q | Inl _ \<Rightarrow> None) else None)"
| "play (Cancel rid) p = (if user_at p = User_idle then Some (begin_cancel rid p) else None)"
| "play Shut p = (if user_at p = User_idle then Some (begin_close p) else None)"

fun plays :: "move list \<Rightarrow> pool \<Rightarrow> pool option" where
  "plays [] p = Some p"
| "plays (m # ms) p = (case play m p of None \<Rightarrow> None | Some q \<Rightarrow> plays ms q)"

lemma play_step: "play m p = Some q \<Longrightarrow> pool_step operation_aborted p q"
  by (cases m)
    (auto intro: pool_step.intros running_step.intros split: if_splits sum.splits)

lemma plays_steps: "plays ms p = Some q \<Longrightarrow> (pool_step operation_aborted)\<^sup>*\<^sup>* p q"
proof (induction ms arbitrary: p)
  case (Cons m ms)
  then obtain r where "play m p = Some r" "plays ms r = Some q" by (auto split: option.splits)
  with Cons.IH [of r] play_step [of m p r] show ?case by (auto intro: converse_rtranclp_into_rtranclp)
qed simp

lemmas play_simps =
  handler_step_def leave_step_def start_handler_def user_step_def thread_exit_def begin_request_def
  begin_cancel_def begin_close_def begin_handler_def new_session_def put_def Let_def no_error_def
  AsyncTCPClientMT_eq

text \<open>
  Two requests; the first is cancelled while the handler of its connect is about to look at the
  flag, the handler completes, and the request is cancelled again before it has left the map.
\<close>

definition double_cancel :: pool where
  "double_cancel = the (plays
     [Request 1, User, User, User, Request 2, User, User, User, Start 0 no_error [],
      Cancel 1, User, User, User, User, Handler 0, Handler 0, Handler 0, Cancel 1, User, User]
     (AsyncTCPClientMT 4))"

lemma double_cancel_run:
  "plays [Request 1, User, User, User, Request 2, User, User, User, Start 0 no_error [],
      Cancel 1, User, User, User, User, Handler 0, Handler 0, Handler 0, Cancel 1, User, User]
     (AsyncTCPClientMT 4) = Some double_cancel"
  "user_at double_cancel = User_found 1 0" "map at (mt_sessions double_cancel) = [Locking True, Waiting]"
  "callbacks double_cancel = []"
  by (simp_all add: double_cancel_def play_simps)

lemma double_cancel_reachable: "pool_reachable operation_aborted 4 double_cancel"
  unfolding pool_reachable_def by (rule plays_steps [OF double_cancel_run(1)])

theorem pool_second_cancel_stops_all_witness:
  "length (mt_sessions double_cancel) = 2 \<and> callbacks double_cancel = [] \<and> user_at double_cancel = User_found 1 0"
proof -
  have "length (mt_sessions double_cancel) = 2" using arg_cong [OF double_cancel_run(3), of length] by simp
  moreover then have "at (mt_sessions double_cancel ! 0) = Locking True" "at (mt_sessions double_cancel ! 1) = Waiting"
    using double_cancel_run(3) by (metis nth_map nth_Cons_0 zero_less_numeral, metis nth_map nth_Cons_0 nth_Cons_Suc One_nat_def one_less_numeral_iff semiring_norm(76))
  moreover have "list_all (\<lambda>a. a \<noteq> Calling True \<and> a \<noteq> Calling False) (map at (mt_sessions double_cancel))"
    unfolding double_cancel_run(3) by simp
  ultimately show ?thesis
    using pool_second_cancel_stops_all [OF double_cancel_reachable double_cancel_run(2), of double_cancel] double_cancel_run(4)
    by (simp add: list.pred_map comp_def)
qed

theorem pool_settles_witness: "deadlocked double_cancel"
proof -
  have "\<not> quiet double_cancel" by (simp add: quiet_def double_cancel_run)
  moreover have "\<not> running_step operation_aborted double_cancel q" for q
  proof
    assume "running_step operation_aborted double_cancel q"
    then have "running_left q < running_left double_cancel"
      using running_step_decreases pool_reachable_ok [OF double_cancel_reachable] by blast
    show False
      using \<open>running_step operation_aborted double_cancel q\<close>
    proof cases
      case (handler i)
      then show ?thesis
        by (cases i) (simp_all add: double_cancel_def play_simps split: if_splits)
    next
      case (leave i)
      then show ?thesis
        by (cases i) (simp_all add: double_cancel_def play_simps split: if_splits)
    qed (simp add: double_cancel_def play_simps)
  qed
  ultimately show ?thesis
    using pool_settles [OF double_cancel_reachable, of 0 double_cancel] by auto
qed

text \<open>Two requests on two threads, their handlers interleaved; the second is called back first.\<close>

definition two_answered :: pool where
  "two_answered = the (plays
     [Request 1, User, User, User, Request 2, User, User, User,
      Start 0 no_error [], Start 1 operation_aborted [], Handler 0, Handler 0, Handler 1, Leave 0,
      Start 0 operation_aborted [], Handler 1, Handler 1, Handler 1, Handler 0, Handler 0, Handler 0, Handler 0]
     (AsyncTCPClientMT 2))"

lemma two_answered_run:
  "plays [Request 1, User, User, User, Request 2, User, User, User,
      Start 0 no_error [], Start 1 operation_aborted [], Handler 0, Handler 0, Handler 1, Leave 0,
      Start 0 operation_aborted [], Handler 1, Handler 1, Handler 1, Handler 0, Handler 0, Handler 0, Handler 0]
     (AsyncTCPClientMT 2) = Some two_answered"
  "map at (mt_sessions two_answered) = [Returned, Returned]"
  "callbacks two_answered = [(1, 2, [], operation_aborted), (0, 1, [], operation_aborted)]"
  "map (\<lambda>s. m_id (shared s)) (mt_sessions two_answered) = [1, 2]"
  by (simp_all add: two_answered_def play_simps operation_aborted_def)

lemma two_answered_reachable: "pool_reachable operation_aborted 2 two_answered"
  unfolding pool_reachable_def by (rule plays_steps [OF two_answered_run(1)])

theorem pool_mutual_exclusion_witness:
  "sum_list (map busy (mt_sessions two_answered)) \<le> 2 \<and>
   holders two_answered 0 = of_bool (m_cancel_guard (mt_sessions two_answered ! 0))"
proof -
  have "length (mt_sessions two_answered) = 2" using arg_cong [OF two_answered_run(2), of length] by simp
  then show ?thesis using pool_mutual_exclusion [OF two_answered_reachable] by simp
qed

theorem pool_callback_once_witness:
  "length (filter (\<lambda>x. fst x = 1) (callbacks two_answered)) = 1"
proof -
  have n: "length (mt_sessions two_answered) = 2" using arg_cong [OF two_answered_run(2), of length] by simp
  then have "map at (mt_sessions two_answered) ! 1 = at (mt_sessions two_answered ! 1)" by simp
  then have "at (mt_sessions two_answered ! 1) = Returned" unfolding two_answered_run(2) by simp
  then show ?thesis using pool_callback_once [OF two_answered_reachable, of 1] n by simp
qed

text \<open>
  A pool of no threads, which the constructor accepts: \<open>Close\<close> returns at once, and the request it
  leaves in flight is never called back.
\<close>

definition unanswered :: pool where
  "unanswered = the (plays [Request 1, User, User, User, Shut, User] (AsyncTCPClientMT 0))"

theorem pool_without_threads:
  "pool_reachable operation_aborted 0 unanswered \<and> user_at unanswered = User_closed \<and>
   map at (mt_sessions unanswered) = [Waiting] \<and> callbacks unanswered = []"
proof -
  have "plays [Request 1, User, User, User, Shut, User] (AsyncTCPClientMT 0) = Some unanswered"
    by (simp add: unanswered_def play_simps)
  then have "pool_reachable operation_aborted 0 unanswered"
    unfolding pool_reachable_def by (rule plays_steps)
  then show ?thesis by (simp add: unanswered_def play_simps)
qed

end
