(* ===== verification/Pool_Refinement.thy ===== *)
theory Pool_Refinement
  imports Pool_Client
begin

text \<open>
  The client with a pool of threads implements the client of theory \<open>Async_Tcp_Client\<close>, in which a
  handler is one step: whatever the threads interleave, the requests, the map of active sessions and
  what each request's callback receives are those of an execution handler by handler. A handler that
  goes on takes effect where it starts the next operation, one that completes where it erases its
  session from the map, \<open>CancelRequest\<close> where it sets the flag. The callbacks of different requests
  may be called in another order than the sessions are erased. Identifiers are taken to be distinct;
  what happens otherwise is \<open>async_duplicate_id_lost\<close>.
\<close>

section \<open>The correspondence\<close>

text \<open>
  A handler that completes: \<open>a\<close> is the session as the operation ended, \<open>s\<close> what the handler has made
  of it by the time it calls \<open>OnRequestComplete\<close>.
\<close>

definition finishing :: "bool \<Rightarrow> session \<Rightarrow> session \<Rightarrow> bool" where
  "finishing b a s \<longleftrightarrow> (\<exists>st ec bs. in_flight a = Some st \<and> (failed ec \<or> st \<noteq> Reading \<or> newline \<in> set bs) \<and>
     (if b then st \<noteq> Reading \<and> \<not> failed ec \<and> m_was_canceled a \<and> s = a\<lparr>in_flight := None\<rparr>
      else begin_handler ec bs st a = (s, Completing False)))"

definition matches :: "pool_session \<Rightarrow> session \<Rightarrow> bool" where
  "matches s a \<longleftrightarrow>
     (case at s of
        Starting \<Rightarrow> a = (shared s)\<lparr>in_flight := Some Connecting\<rparr>
      | Waiting \<Rightarrow> a = shared s
      | Checking st \<Rightarrow> st \<noteq> Reading \<and> a = (shared s)\<lparr>in_flight := Some st\<rparr>
      | Checked st \<Rightarrow> st \<noteq> Reading \<and> a = (shared s)\<lparr>in_flight := Some st\<rparr>
      | Completing b \<Rightarrow> finishing b a (shared s)
      | Locking b \<Rightarrow> (\<exists>t. finishing b a t \<and> shared s = t\<lparr>shut_down := True\<rparr>)
      | Erasing b \<Rightarrow> (\<exists>t. finishing b a t \<and> shared s = t\<lparr>shut_down := True\<rparr>)
      | Calling b \<Rightarrow> a = shared s
      | Returned \<Rightarrow> a = shared s)"

text \<open>The callback a handler past the erasure is about to call.\<close>

definition due :: "error_code \<Rightarrow> nat \<Rightarrow> pool_session \<Rightarrow> (nat \<times> u32 \<times> string \<times> error_code) list" where
  "due aborted i s =
     (case at s of
        Calling b \<Rightarrow> [(i, m_id (shared s), m_response (shared s), outcome aborted (shared s))]
      | _ \<Rightarrow> [])"

definition calls_match :: "error_code \<Rightarrow> pool \<Rightarrow> async_client \<Rightarrow> bool" where
  "calls_match aborted p c \<longleftrightarrow> (\<forall>i < length (mt_sessions p).
     filter (\<lambda>x. fst x = i) (callbacks p) @ due aborted i (mt_sessions p ! i) = calls_of i c)"

definition corresponds :: "error_code \<Rightarrow> pool \<Rightarrow> async_client \<Rightarrow> bool" where
  "corresponds aborted p c \<longleftrightarrow>
     list_all2 matches (mt_sessions p) (sessions c) \<and> m_active_sessions c = mt_active p \<and>
     (m_thread c \<longleftrightarrow> user_at p \<noteq> User_closed) \<and> calls_match aborted p c"

definition ids :: "pool \<Rightarrow> u32 list" where
  "ids p = map (\<lambda>s. m_id (shared s)) (mt_sessions p)"

definition implements :: "error_code \<Rightarrow> pool \<Rightarrow> async_client \<Rightarrow> bool" where
  "implements aborted p c \<longleftrightarrow> pool_ok p \<and> 0 < m_threads p \<and> async_inv c \<and>
     (distinct (ids p) \<longrightarrow> corresponds aborted p c)"

lemma correspondsD:
  assumes "corresponds aborted p c"
  shows "length (sessions c) = length (mt_sessions p)"
    and "i < length (mt_sessions p) \<Longrightarrow> matches (mt_sessions p ! i) (sessions c ! i)"
    and "m_active_sessions c = mt_active p" "m_thread c \<longleftrightarrow> user_at p \<noteq> User_closed"
    and "i < length (mt_sessions p) \<Longrightarrow>
      filter (\<lambda>x. fst x = i) (callbacks p) @ due aborted i (mt_sessions p ! i) = calls_of i c"
  using assms by (auto simp: corresponds_def calls_match_def list_all2_conv_all_nth)

lemma corresponds_put:
  assumes "corresponds aborted p c" "matches s a"
    and "mt_sessions q = (mt_sessions p)[i := s]" "sessions c' = (sessions c)[i := a]"
    and "m_active_sessions c' = mt_active q" "m_thread c' \<longleftrightarrow> user_at q \<noteq> User_closed"
    and "\<And>j. j < length (mt_sessions p) \<Longrightarrow>
      filter (\<lambda>x. fst x = j) (callbacks q) @ due aborted j (mt_sessions q ! j) = calls_of j c'"
  shows "corresponds aborted q c'"
  using assms by (auto simp: corresponds_def calls_match_def intro: list_all2_update_cong)

text \<open>A step the coarser client does not see.\<close>

lemma corresponds_stutter:
  assumes c: "corresponds aborted p c" and i: "i < length (mt_sessions p)"
    and m: "matches s (sessions c ! i)" and d: "due aborted i s = due aborted i (mt_sessions p ! i)"
    and q: "mt_sessions q = (mt_sessions p)[i := s]" "mt_active q = mt_active p" "callbacks q = callbacks p"
      "user_at q = User_closed \<longleftrightarrow> user_at p = User_closed"
  shows "corresponds aborted q c"
  by (rule corresponds_put [OF c m q(1)])
    (use correspondsD [OF c] d q i in \<open>auto simp: nth_update_if\<close>)

lemma no_due [simp]: "\<forall>b. at s \<noteq> Calling b \<Longrightarrow> due aborted i s = []"
  by (simp add: due_def split: handler_at.split)

lemma begin_handler_canceled:
  "begin_handler ec bs st (a\<lparr>m_was_canceled := f\<rparr>) =
    (case begin_handler ec bs st a of (s, h) \<Rightarrow> (s\<lparr>m_was_canceled := f\<rparr>, h))"
  by (simp add: begin_handler_def Let_def split: prod.split)

lemma finishing_canceled:
  assumes "finishing b a s"
  shows "finishing b (a\<lparr>m_was_canceled := True\<rparr>) (s\<lparr>m_was_canceled := True\<rparr>)"
proof -
  obtain st ec bs where "in_flight a = Some st" "failed ec \<or> st \<noteq> Reading \<or> newline \<in> set bs"
    "if b then st \<noteq> Reading \<and> \<not> failed ec \<and> m_was_canceled a \<and> s = a\<lparr>in_flight := None\<rparr>
     else begin_handler ec bs st a = (s, Completing False)"
    using assms by (auto simp: finishing_def)
  then show ?thesis unfolding finishing_def
    by (intro exI [of _ st] exI [of _ ec] exI [of _ bs]) (simp add: begin_handler_canceled split: if_splits)
qed

section \<open>Completions\<close>

lemma finishing_event:
  assumes "finishing b (sessions c ! i) s" "i < length (sessions c)" "m_thread c"
  shows "\<exists>ec bs. event_enabled i ec bs c \<and>
    io_event aborted i ec bs c = OnRequestComplete aborted i (set_session i s c)"
proof -
  let ?a = "sessions c ! i"
  obtain st ec bs where f: "in_flight ?a = Some st" "failed ec \<or> st \<noteq> Reading \<or> newline \<in> set bs"
    "if b then st \<noteq> Reading \<and> \<not> failed ec \<and> m_was_canceled ?a \<and> s = ?a\<lparr>in_flight := None\<rparr>
     else begin_handler ec bs st ?a = (s, Completing False)"
    using assms(1) by (auto simp: finishing_def)
  have "event_enabled i ec bs c" using f(1,2) assms(2,3) by (auto simp: event_enabled_def)
  moreover have "io_event aborted i ec bs c = OnRequestComplete aborted i (set_session i s c)"
    using f assms(2)
    by (cases st)
      (auto simp: io_event_def on_connect_def on_write_def on_read_def go_on_def begin_handler_def failed_def
        Let_def split: if_splits prod.splits)
  ultimately show ?thesis by blast
qed

text \<open>A handler that goes on, in one step.\<close>

lemma goes_on_event:
  assumes "i < length (sessions c)" "m_thread c" "st \<noteq> Reading" "\<not> m_was_canceled s" "in_flight s = None"
    and "sessions c ! i = s\<lparr>in_flight := Some st\<rparr>"
  shows "event_enabled i no_error [] c \<and>
    io_event aborted i no_error [] c = set_session i (s\<lparr>in_flight := Some (next_stage st)\<rparr>) c"
  using assms
  by (cases st)
    (simp_all add: event_enabled_def io_event_def on_connect_def on_write_def go_on_def no_error_def Let_def)

section \<open>The simulation\<close>

text \<open>What each kind of step gives; \<open>p\<close> is well formed and corresponds to \<open>c\<close>.\<close>

lemma sim_start:
  assumes ok: "pool_ok p" and c: "corresponds aborted p c" and st: "start_handler i ec bs p = Some q"
  shows "corresponds aborted q c"
proof -
  obtain st s a where h: "i < length (mt_sessions p)" "at (mt_sessions p ! i) = Waiting"
    "in_flight (shared (mt_sessions p ! i)) = Some st" "failed ec \<or> st \<noteq> Reading \<or> newline \<in> set bs"
    "begin_handler ec bs st (shared (mt_sessions p ! i)) = (s, a)"
    "q = put i ((mt_sessions p ! i)\<lparr>shared := s, at := a\<rparr>) (p\<lparr>idle_threads := idle_threads p - 1\<rparr>)"
    using st by (auto simp: start_handler_def failed_def split: if_splits option.splits prod.splits)
  have m: "sessions c ! i = shared (mt_sessions p ! i)"
    using correspondsD(2) [OF c h(1)] h(2) by (simp add: matches_def)
  have "matches ((mt_sessions p ! i)\<lparr>shared := s, at := a\<rparr>) (sessions c ! i)"
  proof (cases a)
    case (Completing b)
    moreover have "b = False" using begin_handler_cases [OF h(5)] Completing by simp
    moreover have "finishing False (sessions c ! i) s"
      unfolding finishing_def using h(3-5) Completing \<open>b = False\<close> m by auto
    ultimately show ?thesis by (simp add: matches_def)
  next
    case (Checking st')
    have "st' = st \<and> st \<noteq> Reading" using begin_handler_cases [OF h(5)] Checking by simp
    moreover have "s = (shared (mt_sessions p ! i))\<lparr>in_flight := None\<rparr>"
      using h(5) Checking by (auto simp: begin_handler_def Let_def split: if_splits prod.splits)
    ultimately show ?thesis using m h(3) Checking by (simp add: matches_def)
  qed (use begin_handler_cases [OF h(5)] in auto)
  moreover have "due aborted i ((mt_sessions p ! i)\<lparr>shared := s, at := a\<rparr>) = []"
    "due aborted i (mt_sessions p ! i) = []"
    using begin_handler_cases [OF h(5)] h(2) by auto
  ultimately show ?thesis using h(6)
    by (intro corresponds_stutter [OF c h(1)]) simp_all
qed

lemma sim_leave:
  assumes c: "corresponds aborted p c" and st: "leave_step i p = Some q"
  shows "corresponds aborted q c"
proof -
  have h: "i < length (mt_sessions p)"
    "q = put i ((mt_sessions p ! i)\<lparr>m_cancel_guard := False, leaving := False\<rparr>)
           (p\<lparr>idle_threads := idle_threads p + 1\<rparr>)"
    using st by (auto simp: leave_step_def split: if_splits)
  show ?thesis using correspondsD(2) [OF c h(1)] h
    by (intro corresponds_stutter [OF c h(1), of "(mt_sessions p ! i)\<lparr>m_cancel_guard := False, leaving := False\<rparr>"])
      (simp_all add: matches_def due_def cong: handler_at.case_cong)
qed

text \<open>A handler erases its session: the completion of the coarser client.\<close>

lemma sim_erase:
  assumes c: "corresponds aborted p c" and i: "i < length (mt_sessions p)"
    and e: "at (mt_sessions p ! i) = Erasing b" and th: "user_at p \<noteq> User_closed"
    and q: "mt_sessions q = (mt_sessions p)[i := (mt_sessions p ! i)\<lparr>at := Calling b\<rparr>]"
      "mt_active q = (mt_active p)(sint (m_id (shared (mt_sessions p ! i))) := None)"
      "callbacks q = callbacks p" "user_at q = user_at p"
  shows "\<exists>d. async_step aborted c d \<and> corresponds aborted q d"
proof -
  let ?s = "mt_sessions p ! i"
  obtain t where t: "finishing b (sessions c ! i) t" "shared ?s = t\<lparr>shut_down := True\<rparr>"
    using correspondsD(2) [OF c i] e by (auto simp: matches_def)
  have len: "i < length (sessions c)" using correspondsD(1) [OF c] i by simp
  have mth: "m_thread c" using correspondsD(4) [OF c] th by simp
  obtain ec bs where ev: "event_enabled i ec bs c"
    "io_event aborted i ec bs c = OnRequestComplete aborted i (set_session i t c)"
    using finishing_event [OF t(1) len mth] by blast
  let ?d = "OnRequestComplete aborted i (set_session i t c)"
  have m: "m(k := None) = m" if "m k = None" for m :: "int \<rightharpoonup> nat" and k using that by auto
  have d: "sessions ?d = (sessions c)[i := shared ?s]"
    "m_active_sessions ?d = (m_active_sessions c)(sint (m_id (shared ?s)) := None)" "m_thread ?d = m_thread c"
    "calls ?d = calls c @ [(i, m_id (shared ?s), m_response (shared ?s), outcome aborted (shared ?s))]"
    using len t(2) m
    by (simp_all add: OnRequestComplete_def outcome_def failed_def Let_def split: option.split)
  have "corresponds aborted q ?d"
  proof (rule corresponds_put [OF c _ q(1) d(1)])
    show "filter (\<lambda>x. fst x = j) (callbacks q) @ due aborted j (mt_sessions q ! j) = calls_of j ?d"
      if "j < length (mt_sessions p)" for j
      using correspondsD(5) [OF c that] that e q(1,3) d(4)
      by (cases "j = i") (simp_all add: calls_of_def due_def)
  qed (use q d correspondsD(3,4) [OF c] th in \<open>simp_all add: matches_def\<close>)
  moreover have "async_step aborted c ?d" using async_step.event [OF ev(1)] ev(2) by metis
  ultimately show ?thesis by blast
qed

lemma sim_handler:
  assumes ok: "pool_ok p" and c: "corresponds aborted p c" and th: "user_at p \<noteq> User_closed"
    and st: "handler_step aborted i p = Some q"
  shows "\<exists>d. (async_step aborted)\<^sup>*\<^sup>* c d \<and> corresponds aborted q d"
proof -
  have i: "i < length (mt_sessions p)" using st by (simp add: handler_step_def Let_def split: if_splits)
  note h = st [unfolded handler_step_def Let_def, simplified i if_True]
  note m = correspondsD(2) [OF c i] and s = pool_okD(1) [OF ok i]
  let ?s = "mt_sessions p ! i"
  have stutter: ?thesis
    if "q = put i t p'" "mt_sessions p' = mt_sessions p" "mt_active p' = mt_active p" "callbacks p' = callbacks p"
      "user_at p' = user_at p" "matches t (sessions c ! i)" "\<forall>b. at t \<noteq> Calling b" "\<forall>b. at ?s \<noteq> Calling b" for t p'
  proof -
    have "corresponds aborted q c"
      by (rule corresponds_stutter [OF c i that(6)]) (use that in simp_all)
    then show ?thesis by blast
  qed
  show ?thesis
  proof (cases "at ?s")
    case (Checking st)
    with h m show ?thesis
      by (intro stutter [of "?s\<lparr>m_cancel_guard := True, at := Checked st\<rparr>" p]) (simp_all add: matches_def split: if_splits)
  next
    case (Checked st)
    have a: "st \<noteq> Reading" "sessions c ! i = (shared ?s)\<lparr>in_flight := Some st\<rparr>" "in_flight (shared ?s) = None"
      using m s Checked by (simp_all add: matches_def session_ok_def)
    show ?thesis
    proof (cases "m_was_canceled (shared ?s)")
      case True
      have "finishing True (sessions c ! i) (shared ?s)"
        unfolding finishing_def using a True by (intro exI [of _ st] exI [of _ no_error]) simp
      with True Checked h show ?thesis
        by (intro stutter [of "?s\<lparr>at := Completing True\<rparr>" p]) (simp_all add: matches_def)
    next
      case False
      let ?t = "(shared ?s)\<lparr>in_flight := Some (next_stage st)\<rparr>"
      have ev: "event_enabled i no_error [] c" "io_event aborted i no_error [] c = set_session i ?t c"
        using goes_on_event [of i c st "shared ?s" aborted] correspondsD(1,4) [OF c] i th a False by simp_all
      have q: "q = put i (?s\<lparr>shared := ?t, at := Waiting, leaving := True\<rparr>) p" using h Checked False by simp
      have "corresponds aborted q (set_session i ?t c)"
      proof (rule corresponds_put [OF c, of "?s\<lparr>shared := ?t, at := Waiting, leaving := True\<rparr>"])
        show "filter (\<lambda>x. fst x = j) (callbacks q) @ due aborted j (mt_sessions q ! j) = calls_of j (set_session i ?t c)"
          if "j < length (mt_sessions p)" for j
          using correspondsD(5) [OF c that] that q Checked
          by (cases "j = i") (simp_all add: calls_of_def due_def)
      qed (use q correspondsD(3,4) [OF c] in \<open>simp_all add: matches_def\<close>)
      with async_step.event [OF ev(1), of aborted] ev(2) show ?thesis by auto
    qed
  next
    case (Completing b)
    with h m show ?thesis
      by (intro stutter [of "?s\<lparr>shared := (shared ?s)\<lparr>shut_down := True\<rparr>, at := Locking b\<rparr>" p])
        (auto simp: matches_def)
  next
    case (Locking b)
    with h m show ?thesis
      by (intro stutter [of "?s\<lparr>at := Erasing b\<rparr>" "p\<lparr>m_active_sessions_guard := True\<rparr>"])
        (auto simp: matches_def split: if_splits)
  next
    case (Erasing b)
    have m: "f(k := None) = f" if "f k = None" for f :: "int \<rightharpoonup> nat" and k using that by auto
    have "\<exists>d. async_step aborted c d \<and> corresponds aborted q d"
      by (rule sim_erase [OF c i Erasing th])
        (use h Erasing m in \<open>cases "mt_active p (sint (m_id (shared ?s)))"; auto\<close>)+
    then show ?thesis by blast
  next
    case (Calling b)
    let ?t = "?s\<lparr>at := Returned, m_cancel_guard := (if b then False else m_cancel_guard ?s)\<rparr>"
    have q: "mt_sessions q = (mt_sessions p)[i := ?t]" "mt_active q = mt_active p" "user_at q = user_at p"
      "callbacks q = callbacks p @ [(i, m_id (shared ?s), m_response (shared ?s), outcome aborted (shared ?s))]"
      using h Calling by (auto simp: outcome_def failed_def)
    have "corresponds aborted q c"
    proof (rule corresponds_put [OF c, of ?t "sessions c ! i"])
      show "filter (\<lambda>x. fst x = j) (callbacks q) @ due aborted j (mt_sessions q ! j) = calls_of j c"
        if "j < length (mt_sessions p)" for j
        using correspondsD(5) [OF c that] that q Calling by (cases "j = i") (simp_all add: due_def)
      show "sessions c = (sessions c)[i := sessions c ! i]" by simp
    qed (use q m Calling correspondsD(3,4) [OF c] in \<open>simp_all add: matches_def\<close>)
    then show ?thesis by blast
  qed (use h in simp_all)
qed

text \<open>Steps that change neither the sessions nor the map.\<close>

lemma corresponds_same:
  "corresponds aborted p c \<Longrightarrow> mt_sessions q = mt_sessions p \<Longrightarrow> mt_active q = mt_active p \<Longrightarrow>
    callbacks q = callbacks p \<Longrightarrow> (user_at q = User_closed \<longleftrightarrow> user_at p = User_closed) \<Longrightarrow> corresponds aborted q c"
  by (simp add: corresponds_def calls_match_def)

lemma matches_id: "matches s a \<Longrightarrow> m_id (shared s) = m_id a"
  by (auto simp: matches_def finishing_def dest: begin_handler_cases split: handler_at.splits if_splits)

lemma corresponds_ids:
  assumes "corresponds aborted p c"
  shows "map m_id (sessions c) = ids p"
proof (rule nth_equalityI)
  show "length (map m_id (sessions c)) = length (ids p)"
    using correspondsD(1) [OF assms] by (simp add: ids_def)
  show "map m_id (sessions c) ! i = ids p ! i" if "i < length (map m_id (sessions c))" for i
    using that correspondsD(1) [OF assms] matches_id [OF correspondsD(2) [OF assms, of i]] by (simp add: ids_def)
qed

lemma sim_insert:
  assumes ok: "pool_ok p" and c: "corresponds aborted p c" and inv: "async_inv c"
    and u: "user_at p = User_inserting s" and st: "user_step p = Some q"
  shows "\<exists>d. async_step aborted c d \<and> corresponds aborted q d"
proof -
  let ?n = "length (mt_sessions p)" and ?t = "s\<lparr>in_flight := Some Connecting\<rparr>"
  obtain ep dur rid where s: "s = new_session ep (request_text dur) rid"
    using pool_okD(4) [OF ok] u by (auto simp: fresh_session_def)
  have q: "mt_sessions q = mt_sessions p @ [\<lparr>shared = s, at = Starting, m_cancel_guard = False, leaving = False\<rparr>]"
    "mt_active q = (mt_active p)(sint (m_id s) \<mapsto> ?n)" "callbacks q = callbacks p" "user_at q = User_connect ?n"
    using st u by (auto simp: user_step_def)
  define d where "d = c\<lparr>sessions := sessions c @ [?t], m_active_sessions := (m_active_sessions c)(sint (m_id s) \<mapsto> ?n)\<rparr>"
  have len: "length (sessions c) = ?n" by (rule correspondsD(1) [OF c])
  have "EmulateLongComputationOp dur (Inr ep) None rid c = Inr d"
    unfolding d_def len [symmetric] s
    by (simp add: EmulateLongComputationOp_def new_session_def set_session_def Let_def)
  then have "async_step aborted c d" by (rule async_step.request)
  moreover have "corresponds aborted q d"
  proof -
    have "list_all2 matches (mt_sessions q) (sessions d)"
      using c q(1) by (simp add: corresponds_def d_def matches_def list_all2_appendI)
    moreover have "filter (\<lambda>x. fst x = i) (callbacks q) @ due aborted i (mt_sessions q ! i) = calls_of i d"
      if "i < length (mt_sessions q)" for i
    proof (cases "i = ?n")
      case True
      moreover have "calls_of ?n c = []" "filter (\<lambda>x. fst x = ?n) (callbacks p) = []"
        using inv ok len by (auto simp: async_inv_def calls_ok_def calls_of_def pool_ok_def filter_empty_conv)
      ultimately show ?thesis using q by (simp add: d_def calls_of_def)
    next
      case False
      then show ?thesis using correspondsD(5) [OF c, of i] that q by (simp add: d_def calls_of_def nth_append)
    qed
    ultimately show ?thesis
      using correspondsD(3,4) [OF c] q u by (simp add: corresponds_def calls_match_def d_def)
  qed
  ultimately show ?thesis by blast
qed

lemma sim_mark:
  assumes ok: "pool_ok p" and c: "corresponds aborted p c" and inv: "async_inv c" and dist: "distinct (ids p)"
    and u: "user_at p = User_mark rid i" and st: "user_step p = Some q"
  shows "\<exists>d. async_step aborted c d \<and> corresponds aborted q d"
proof -
  let ?s = "mt_sessions p ! i"
  have q: "q = put i (?s\<lparr>shared := (shared ?s)\<lparr>m_was_canceled := True\<rparr>, m_cancel_guard := False\<rparr>)
      (p\<lparr>m_active_sessions_guard := False, user_at := User_idle\<rparr>)"
    using st u by (simp add: user_step_def)
  have a: "mt_active p (sint rid) = Some i" using pool_okD(4) [OF ok] u by simp
  then have i: "i < length (mt_sessions p)" using pool_okD(5) [OF ok] by blast
  have "distinct (map m_id (sessions c))" using dist corresponds_ids [OF c] by simp
  then have fl: "in_flight (sessions c ! i) \<noteq> None"
    using inv a correspondsD(3) [OF c] by (auto simp: async_inv_def active_ok_def)
  have m: "matches ?s (sessions c ! i)" by (rule correspondsD(2) [OF c i])
  have nr: "\<forall>b. at ?s \<noteq> Calling b" "at ?s \<noteq> Returned"
    using m fl pool_okD(1) [OF ok i] by (auto simp: matches_def session_ok_def)
  let ?a = "(sessions c ! i)\<lparr>m_was_canceled := True\<rparr>"
  let ?t = "?s\<lparr>shared := (shared ?s)\<lparr>m_was_canceled := True\<rparr>, m_cancel_guard := False\<rparr>"
  have t: "matches ?t ?a"
  proof (cases "at ?s")
    case (Locking b)
    then show ?thesis using m by (auto simp: matches_def dest: finishing_canceled)
  next
    case (Erasing b)
    then show ?thesis using m by (auto simp: matches_def dest: finishing_canceled)
  qed (use m nr finishing_canceled in \<open>auto simp: matches_def\<close>)
  have "CancelRequest rid c = set_session i ?a c"
    using a correspondsD(3) [OF c] by (simp add: CancelRequest_def)
  moreover have "corresponds aborted q (set_session i ?a c)"
  proof (rule corresponds_put [OF c t])
    show "filter (\<lambda>x. fst x = j) (callbacks q) @ due aborted j (mt_sessions q ! j) = calls_of j (set_session i ?a c)"
      if "j < length (mt_sessions p)" for j
      using correspondsD(5) [OF c that] that q nr by (cases "j = i") (simp_all add: calls_of_def)
  qed (use q u correspondsD(3,4) [OF c] in simp_all)
  ultimately show ?thesis using async_step.cancel [of aborted c rid] by auto
qed

lemma sim_close:
  assumes ok: "pool_ok p" and c: "corresponds aborted p c" and th: "0 < m_threads p"
    and u: "user_at p = User_join" and st: "user_step p = Some q"
  shows "\<exists>d. async_step aborted c d \<and> corresponds aborted q d"
proof -
  have q: "q = p\<lparr>user_at := User_closed\<rparr>" "exited_threads p = m_threads p"
    using st u by (auto simp: user_step_def split: if_splits)
  have "in_flight (sessions c ! i) = None" if "i < length (mt_sessions p)" for i
  proof -
    have "at (mt_sessions p ! i) = Returned" using ok th q(2) that by (auto simp: pool_ok_def)
    then show ?thesis using correspondsD(2) [OF c that] pool_okD(1) [OF ok that]
      by (simp add: matches_def session_ok_def del: not_None_eq)
  qed
  then have "nothing_in_flight (c\<lparr>m_work := False\<rparr>)"
    using correspondsD(1) [OF c] by (simp add: nothing_in_flight_def list_all_length)
  then have "Close c = Some (c\<lparr>m_work := False, m_thread := False\<rparr>)" by (simp add: Close_def)
  then have "async_step aborted c (c\<lparr>m_work := False, m_thread := False\<rparr>)" by (rule async_step.close)
  moreover have "corresponds aborted q (c\<lparr>m_work := False, m_thread := False\<rparr>)"
    using c q(1) by (simp add: corresponds_def calls_match_def calls_of_def)
  ultimately show ?thesis by blast
qed

lemma sim_user:
  assumes ok: "pool_ok p" and c: "corresponds aborted p c" and inv: "async_inv c" and dist: "distinct (ids p)"
    and th: "0 < m_threads p" and st: "user_step p = Some q"
  shows "\<exists>d. (async_step aborted)\<^sup>*\<^sup>* c d \<and> corresponds aborted q d"
proof (cases "user_at p")
  case (User_connect i)
  have i: "i < length (mt_sessions p)" using pool_okD(4) [OF ok] User_connect by simp
  have a: "at (mt_sessions p ! i) = Starting"
    using pool_okD(1) [OF ok i] User_connect by (simp add: session_ok_def)
  let ?t = "(mt_sessions p ! i)\<lparr>shared := (shared (mt_sessions p ! i))\<lparr>in_flight := Some Connecting\<rparr>, at := Waiting\<rparr>"
  have "corresponds aborted q c"
    by (rule corresponds_stutter [OF c i, of ?t])
      (use correspondsD(2) [OF c i] a st User_connect in \<open>auto simp: matches_def user_step_def\<close>)
  then show ?thesis by blast
next
  case (User_found rid i)
  have i: "i < length (mt_sessions p)" using pool_okD(4,5) [OF ok] User_found by simp
  let ?t = "(mt_sessions p ! i)\<lparr>m_cancel_guard := True\<rparr>"
  have "corresponds aborted q c"
    by (rule corresponds_stutter [OF c i, of ?t])
      (use correspondsD(2) [OF c i] st User_found in
        \<open>auto simp: matches_def due_def user_step_def split: if_splits cong: handler_at.case_cong\<close>)
  then show ?thesis by blast
next
  case (User_inserting s)
  with sim_insert [OF ok c inv _ st] show ?thesis by blast
next
  case (User_mark rid i)
  with sim_mark [OF ok c inv dist _ st] show ?thesis by blast
next
  case User_join
  with sim_close [OF ok c th _ st] show ?thesis by blast
qed (use st corresponds_same [OF c, of q] in \<open>auto simp: user_step_def split: if_splits option.splits\<close>)

section \<open>Refinement\<close>

text \<open>Sessions are only added, and keep their identifiers.\<close>

lemma ids_step:
  assumes "pool_step aborted p q"
  shows "prefix (ids p) (ids q)"
proof -
  have ids: "ids q = map (\<lambda>s. m_id (shared s)) (mt_sessions q)" for q by (simp add: ids_def)
  from assms show ?thesis
  proof cases
    case running
    then show ?thesis
    proof cases
      case (handler i)
      then show ?thesis
        by (cases "at (mt_sessions p ! i)")
          (auto simp: handler_step_def ids map_update_same Let_def split: if_splits option.splits)
    next
      case user
      then show ?thesis
        by (cases "user_at p")
          (auto simp: user_step_def ids map_update_same split: if_splits option.splits)
    qed (auto simp: leave_step_def ids map_update_same split: if_splits)
  next
    case (start i ec bs)
    then show ?thesis
      by (auto simp: start_handler_def ids map_update_same split: if_splits option.splits prod.splits
          dest: begin_handler_cases)
  qed (auto simp: thread_exit_def begin_request_def begin_cancel_def begin_close_def ids rbind_Inr_iff Let_def
      split: if_splits option.splits)
qed

lemma implements_step:
  assumes r: "implements aborted p c" and st: "pool_step aborted p q"
  shows "\<exists>d. (async_step aborted)\<^sup>*\<^sup>* c d \<and> implements aborted q d"
proof -
  have ok: "pool_ok p" and th: "0 < m_threads p" and inv: "async_inv c" using r by (simp_all add: implements_def)
  have q: "pool_ok q" "0 < m_threads q" using pool_ok_step [OF ok st] pool_step_threads [OF st] th by simp_all
  have ext: "\<exists>d. (async_step aborted)\<^sup>*\<^sup>* c d \<and> implements aborted q d"
    if "\<exists>d. (async_step aborted)\<^sup>*\<^sup>* c d \<and> (distinct (ids q) \<longrightarrow> corresponds aborted q d)"
    using that q inv async.inv_steps by (fastforce simp: implements_def)
  show ?thesis
  proof (cases "distinct (ids q)")
    case False
    then show ?thesis by (intro ext) blast
  next
    case True
    then have dist: "distinct (ids p)" using ids_step [OF st] by (auto simp: prefix_def)
    then have c: "corresponds aborted p c" using r by (simp add: implements_def)
    have same: "\<exists>d. (async_step aborted)\<^sup>*\<^sup>* c d \<and> corresponds aborted q d"
      if "mt_sessions q = mt_sessions p" "mt_active q = mt_active p" "callbacks q = callbacks p"
        "user_at q = User_closed \<longleftrightarrow> user_at p = User_closed"
      using corresponds_same [OF c, of q] that by blast
    from st have "\<exists>d. (async_step aborted)\<^sup>*\<^sup>* c d \<and> corresponds aborted q d"
    proof cases
      case running
      then show ?thesis
      proof cases
        case (handler i)
        have "user_at p \<noteq> User_closed"
        proof
          assume u: "user_at p = User_closed"
          have "i < length (mt_sessions p)" using handler by (simp add: handler_step_def Let_def split: if_splits)
          moreover have "0 < exited_threads p" using pool_okD(4) [OF ok] u th by simp
          ultimately have "at (mt_sessions p ! i) = Returned" using ok by (simp add: pool_ok_def)
          with handler show False by (simp add: handler_step_def Let_def split: if_splits)
        qed
        with sim_handler [OF ok c _ handler] show ?thesis by blast
      next
        case (leave i)
        with sim_leave [OF c] show ?thesis by blast
      next
        case user
        then show ?thesis by (rule sim_user [OF ok c inv dist th])
      qed
    next
      case (start i ec bs)
      with sim_start [OF ok c] show ?thesis by blast
    next
      case exit
      then show ?thesis by (intro same) (auto simp: thread_exit_def split: if_splits)
    next
      case (request d address open_error rid)
      then show ?thesis
        by (intro same) (auto simp: begin_request_def rbind_Inr_iff Let_def split: option.splits)
    next
      case (cancel rid)
      then show ?thesis by (intro same) (auto simp: begin_cancel_def)
    next
      case close
      then show ?thesis by (intro same) (auto simp: begin_close_def)
    qed
    then show ?thesis by (intro ext) blast
  qed
qed

lemma implements_init:
  assumes "0 < n"
  shows "implements aborted (AsyncTCPClientMT n) AsyncTCPClient"
proof -
  have "async_inv AsyncTCPClient" using async_reachable_inv by (auto simp: async_reachable_def)
  moreover have "0 < unat n" using assms by (simp add: unat_gt_0 word_neq_0_conv)
  moreover have "corresponds aborted (AsyncTCPClientMT n) AsyncTCPClient"
    unfolding AsyncTCPClientMT_eq by (simp add: corresponds_def calls_match_def AsyncTCPClient_def)
  moreover have "m_threads (AsyncTCPClientMT n) = unat n" by (simp add: AsyncTCPClientMT_eq)
  ultimately show ?thesis using pool_ok_init by (simp add: implements_def)
qed

interpretation pool_client: simulation "\<lambda>p. \<exists>n > 0. p = AsyncTCPClientMT n" "pool_step aborted"
  "\<lambda>c. c = AsyncTCPClient" "async_step aborted" "implements aborted" for aborted
  by unfold_locales (auto intro: implements_init dest: implements_step)

lemma pool_reachable_corresponds:
  assumes "pool_reachable aborted n p" "0 < n" "distinct (ids p)"
  obtains c where "async_reachable aborted c" "corresponds aborted p c"
proof -
  obtain c where "async_reachable aborted c" "implements aborted p c"
    using pool_client.rel_reachable [of "AsyncTCPClientMT n" aborted p] assms(1,2)
    by (auto simp: pool_reachable_def async_reachable_def)
  with assms(3) show thesis by (intro that) (auto simp: implements_def)
qed

text \<open>
  C9: The pool implements the client whose handlers are single steps: to every state the pool reaches
  with distinct identifiers belongs a state that client reaches, with the same map of active
  sessions, the same sessions up to handlers on their way, and for each request the same callback
  but for one about to be called.
\<close>

theorem pool_refines:
  assumes "pool_reachable aborted n p" "0 < n" "distinct (ids p)"
  shows "\<exists>c. async_reachable aborted c \<and> corresponds aborted p c"
  using pool_reachable_corresponds [OF assms] by blast

theorem pool_refines_witness:
  "\<exists>c. async_reachable operation_aborted c \<and> calls_of 0 c = [(0, 1, [], operation_aborted)]"
proof -
  have "distinct (ids two_answered)" by (simp add: ids_def two_answered_run(4))
  from pool_refines [OF two_answered_reachable _ this] obtain c where
    c: "async_reachable operation_aborted c" "corresponds operation_aborted two_answered c" by auto
  have n: "length (mt_sessions two_answered) = 2" using arg_cong [OF two_answered_run(2), of length] by simp
  then have "map at (mt_sessions two_answered) ! 0 = at (mt_sessions two_answered ! 0)" by simp
  then have "at (mt_sessions two_answered ! 0) = Returned" unfolding two_answered_run(2) by simp
  then show ?thesis using correspondsD(5) [OF c(2), of 0] n c(1) two_answered_run(3) by auto
qed

text \<open>
  A flag that \<open>OnRequestComplete\<close> reads without a mutex is not being written: while
  \<open>CancelRequest\<close> marks a session, no handler of it is past the erasure.
\<close>

theorem pool_flag_race_free:
  assumes "pool_reachable aborted n p" "0 < n" "distinct (ids p)" "user_at p = User_mark rid i"
  shows "at (mt_sessions p ! i) \<noteq> Calling b \<and> at (mt_sessions p ! i) \<noteq> Returned"
proof -
  obtain c where c: "async_reachable aborted c" "corresponds aborted p c"
    using pool_reachable_corresponds [OF assms(1-3)] .
  note ok = pool_reachable_ok [OF assms(1)]
  have a: "mt_active p (sint rid) = Some i" using pool_okD(4) [OF ok] assms(4) by simp
  then have i: "i < length (mt_sessions p)" using pool_okD(5) [OF ok] by blast
  have "in_flight (sessions c ! i) \<noteq> None"
    using async_reachable_inv [OF c(1)] a correspondsD(3) [OF c(2)] corresponds_ids [OF c(2)] assms(3)
    by (auto simp: async_inv_def active_ok_def)
  then show ?thesis using correspondsD(2) [OF c(2) i] pool_okD(1) [OF ok i]
    by (auto simp: matches_def session_ok_def)
qed

definition marking :: pool where
  "marking = the (plays [Request 1, User, User, User, Cancel 1, User, User, User] (AsyncTCPClientMT 1))"

theorem pool_flag_race_free_witness:
  "at (mt_sessions marking ! 0) \<noteq> Calling False \<and> at (mt_sessions marking ! 0) \<noteq> Returned"
proof (rule pool_flag_race_free)
  have "plays [Request 1, User, User, User, Cancel 1, User, User, User] (AsyncTCPClientMT 1) = Some marking"
    by (simp add: marking_def play_simps)
  then show "pool_reachable operation_aborted 1 marking"
    unfolding pool_reachable_def by (rule plays_steps)
  show "distinct (ids marking)" "user_at marking = User_mark 1 0"
    by (simp_all add: marking_def play_simps ids_def)
qed simp

end
