(* ===== verification/Duplex_Channel.thy ===== *)
theory Duplex_Channel
  imports Connection_Protocol
begin

text \<open>
  Two connections of \<open>net_connection.h\<close> joined by a network: the client's and the server's end each
  take the steps of theory \<open>Connection_Protocol\<close>, and what an end reads is a first part of what the
  other has written, a write counting from its completion on. The pair implements two FIFO channels: of
  every execution, the trace of what is accepted for sending and handed over in one direction is one
  that a FIFO channel accepts, event by event.
\<close>

section \<open>The specification\<close>

text \<open>
  A FIFO channel: the messages sent and not delivered yet, and the body delivered last, which a message
  without a body is delivered with. A trace lists what happens at the two ends in the order it happens;
  the channel accepts it if every message delivered is the one that waits longest.
\<close>

datatype 't event = Sent "'t message" | Got "'t message"

record 't fifo_channel =
  waiting :: "'t message list"
  old_body :: "byte list"

definition empty_channel :: "'t fifo_channel" where
  "empty_channel = \<lparr>waiting = [], old_body = []\<rparr>"

fun channel_event :: "'t event \<Rightarrow> 't fifo_channel \<Rightarrow> 't fifo_channel option" where
  "channel_event (Sent m) c = Some (c\<lparr>waiting := waiting c @ [m]\<rparr>)"
| "channel_event (Got m) c = (case waiting c of
     [] \<Rightarrow> None
   | n # rest \<Rightarrow>
       if m = n\<lparr>body := if body n = [] then old_body c else body n\<rparr>
       then Some \<lparr>waiting = rest, old_body = body m\<rparr> else None)"

fun channel_run :: "'t event list \<Rightarrow> 't fifo_channel \<Rightarrow> 't fifo_channel option" where
  "channel_run [] c = Some c"
| "channel_run (e # es) c = Option.bind (channel_event e c) (channel_run es)"

lemma channel_run_append: "channel_run (es @ fs) c = Option.bind (channel_run es c) (channel_run fs)"
  by (induction es arbitrary: c) (simp_all add: bind_eq_Some_conv split: Option.bind_splits)

text \<open>The channel after \<open>ms\<close> were sent and the first \<open>n\<close> of them delivered.\<close>

definition channel_after :: "'t message list \<Rightarrow> nat \<Rightarrow> 't fifo_channel" where
  "channel_after ms n = \<lparr>waiting = drop n ms, old_body = last_body [] (take n ms)\<rparr>"

lemma channel_sends: "n \<le> length ms \<Longrightarrow> channel_run (map Sent xs) (channel_after ms n) = Some (channel_after (ms @ xs) n)"
proof (induction xs arbitrary: ms)
  case (Cons x xs)
  have "channel_event (Sent x) (channel_after ms n) = Some (channel_after (ms @ [x]) n)"
    using Cons.prems by (simp add: channel_after_def)
  with Cons.IH [of "ms @ [x]"] Cons.prems show ?case by simp
qed simp

lemma deliver_nth:
  "n < length ms \<Longrightarrow> deliver old ms ! n =
    (ms ! n)\<lparr>body := if body (ms ! n) = [] then last_body old (take n ms) else body (ms ! n)\<rparr>"
  by (induction old ms arbitrary: n rule: deliver.induct) (auto simp: nth_Cons' take_Cons' split: if_splits)

lemma channel_gets:
  "prefix (take n (deliver [] ms) @ xs) (deliver [] ms) \<Longrightarrow> n \<le> length ms \<Longrightarrow>
   channel_run (map Got xs) (channel_after ms n) = Some (channel_after ms (n + length xs))"
proof (induction xs arbitrary: n)
  case (Cons x xs)
  from Cons.prems obtain zs where zs: "deliver [] ms = take n (deliver [] ms) @ x # xs @ zs" by (auto simp: prefix_def)
  have n: "n < length ms" using arg_cong [OF zs, of length] Cons.prems(2) by simp
  have "deliver [] ms ! n = x" by (subst zs) (use n in \<open>simp add: nth_append\<close>)
  then have x: "x = (ms ! n)\<lparr>body := if body (ms ! n) = [] then last_body [] (take n ms) else body (ms ! n)\<rparr>"
    using deliver_nth [OF n, of "[]"] by simp
  have "channel_event (Got x) (channel_after ms n) = Some (channel_after ms (Suc n))"
    using n x by (simp add: channel_after_def Cons_nth_drop_Suc [symmetric] take_Suc_conv_app_nth)
  moreover have "take (Suc n) (deliver [] ms) = take n (deliver [] ms) @ [x]"
    using n \<open>deliver [] ms ! n = x\<close> by (simp add: take_Suc_conv_app_nth)
  then have "prefix (take (Suc n) (deliver [] ms) @ xs) (deliver [] ms)" using Cons.prems(1) by simp
  ultimately show ?case using Cons.IH [of "Suc n"] n by simp
qed simp

section \<open>The implementation\<close>

record duplex =
  near :: "u32 link"      \<comment> \<open>the client's connection\<close>
  far :: "u32 link"       \<comment> \<open>the connection the server made for it\<close>

text \<open>A step of either end; the network gives an end only bytes the other has written, in order.\<close>

inductive duplex_step :: "duplex \<Rightarrow> duplex \<Rightarrow> bool" where
  near_step: "link_step custom_codec (Inr (near d)) (Inr w) \<Longrightarrow> prefix (wire_in w) (wire_out (far d)) \<Longrightarrow>
    duplex_step d (d\<lparr>near := w\<rparr>)"
| far_step: "link_step custom_codec (Inr (far d)) (Inr w) \<Longrightarrow> prefix (wire_in w) (wire_out (near d)) \<Longrightarrow>
    duplex_step d (d\<lparr>far := w\<rparr>)"

definition duplex_init :: "duplex \<Rightarrow> bool" where
  "duplex_init d \<longleftrightarrow> (\<exists>a b op z y. d = \<lparr>near = link_start a Owner_client op z, far = link_start b Owner_server True y\<rparr>)"

text \<open>The size fields of everything accepted are right (\<open>push_data\<close> keeps them so below 4 GiB).\<close>

definition duplex_wire_ok :: "duplex \<Rightarrow> bool" where
  "duplex_wire_ok d \<longleftrightarrow> list_all wire_ok (accepted (near d)) \<and> list_all wire_ok (accepted (far d))"

text \<open>What a step shows of one direction: the messages accepted for sending and those handed over.\<close>

definition shown :: "u32 link \<Rightarrow> u32 link \<Rightarrow> u32 link \<Rightarrow> u32 link \<Rightarrow> u32 event list" where
  "shown from from' to to' = map Sent (drop (length (accepted from)) (accepted from')) @
     map Got (drop (length (received to)) (received to'))"

record traced =
  pair_of :: duplex
  onward :: "u32 event list"     \<comment> \<open>the trace from the client to the server\<close>
  homeward :: "u32 event list"   \<comment> \<open>the trace from the server to the client\<close>

inductive traced_step :: "traced \<Rightarrow> traced \<Rightarrow> bool" where
  "duplex_step d e \<Longrightarrow> traced_step \<lparr>pair_of = d, onward = es, homeward = fs\<rparr>
     \<lparr>pair_of = e, onward = es @ shown (near d) (near e) (far d) (far e),
      homeward = fs @ shown (far d) (far e) (near d) (near e)\<rparr>"

definition traced_init :: "traced \<Rightarrow> bool" where
  "traced_init t \<longleftrightarrow> duplex_init (pair_of t) \<and> onward t = [] \<and> homeward t = []"

section \<open>The traces are those of channels\<close>

lemma link_step_grows:
  assumes "link_step cd (Inr w) (Inr v)"
  shows "prefix (accepted w) (accepted v) \<and> prefix (received w) (received v) \<and> prefix (wire_out w) (wire_out v) \<and>
    prefix (wire_in w) (wire_in v)"
  using assms by cases (auto simp: observe_def rbind_Inr_iff dest!: sym [of "Inr v"])

definition duplex_ok :: "duplex \<Rightarrow> bool" where
  "duplex_ok d \<longleftrightarrow> link_reachable custom_codec (Inr (near d)) \<and> link_reachable custom_codec (Inr (far d)) \<and>
     prefix (wire_in (near d)) (wire_out (far d)) \<and> prefix (wire_in (far d)) (wire_out (near d))"

lemma duplex_ok_step: "duplex_ok d \<Longrightarrow> duplex_step d e \<Longrightarrow> duplex_ok e"
  by (erule duplex_step.cases)
    (auto simp: duplex_ok_def intro: link_reachable_step dest: link_step_grows prefix_order.trans)

text \<open>What has been delivered is always in order.\<close>

lemma duplex_delivered:
  assumes "duplex_ok d" "duplex_wire_ok d"
  shows "prefix (received (far d)) (deliver [] (accepted (near d)))"
    "prefix (received (near d)) (deliver [] (accepted (far d)))"
proof -
  have "write_inv custom_codec (near d)" "read_inv custom_codec (near d)"
    "write_inv custom_codec (far d)" "read_inv custom_codec (far d)"
    using assms(1) unfolding duplex_ok_def by (blast elim: link_reachableE)+
  then show "prefix (received (far d)) (deliver [] (accepted (near d)))"
    "prefix (received (near d)) (deliver [] (accepted (far d)))"
    using assms custom.received_from [of "near d" "far d"] custom.received_from [of "far d" "near d"]
    by (simp_all add: duplex_ok_def duplex_wire_ok_def list_all_iff)
qed

text \<open>One direction of a step.\<close>

lemma channel_shown:
  assumes grows: "prefix (accepted w) (accepted w')" "prefix (received v) (received v')"
    and del: "prefix (received v) (deliver [] (accepted w))" "prefix (received v') (deliver [] (accepted w'))"
    and run: "channel_run es empty_channel = Some (channel_after (accepted w) (length (received v)))"
  shows "channel_run (es @ shown w w' v v') empty_channel = Some (channel_after (accepted w') (length (received v')))"
proof -
  obtain xs ys where x: "accepted w' = accepted w @ xs" "received v' = received v @ ys"
    using grows by (auto simp: prefix_def)
  have n: "length (received v) \<le> length (accepted w)" using prefix_length_le [OF del(1)] by simp
  have "received v = take (length (received v)) (deliver [] (accepted w'))"
    using del(2) x(2) by (auto simp: prefix_def)
  then have "prefix (take (length (received v)) (deliver [] (accepted w')) @ ys) (deliver [] (accepted w'))"
    using del(2) x(2) by simp
  then have "channel_run (map Got ys) (channel_after (accepted w') (length (received v))) =
      Some (channel_after (accepted w') (length (received v')))"
    using channel_gets [of "length (received v)" "accepted w'" ys] n x by simp
  with channel_sends [OF n, of xs] run x show ?thesis by (simp add: shown_def channel_run_append)
qed

definition traced_ok :: "traced \<Rightarrow> bool" where
  "traced_ok t \<longleftrightarrow> duplex_ok (pair_of t) \<and> (duplex_wire_ok (pair_of t) \<longrightarrow>
     channel_run (onward t) empty_channel =
       Some (channel_after (accepted (near (pair_of t))) (length (received (far (pair_of t))))) \<and>
     channel_run (homeward t) empty_channel =
       Some (channel_after (accepted (far (pair_of t))) (length (received (near (pair_of t))))))"

lemma traced_ok_step:
  assumes ok: "traced_ok t" and st: "traced_step t u"
  shows "traced_ok u"
  using st
proof cases
  case (1 d e es fs)
  have d: "duplex_ok d" and e: "duplex_ok e" using ok duplex_ok_step 1 by (auto simp: traced_ok_def)
  have grows: "prefix (accepted (near d)) (accepted (near e))" "prefix (received (near d)) (received (near e))"
    "prefix (accepted (far d)) (accepted (far e))" "prefix (received (far d)) (received (far e))"
    using 1(3) by (auto elim!: duplex_step.cases dest: link_step_grows)
  show ?thesis
  proof (cases "duplex_wire_ok e")
    case True
    then have w: "duplex_wire_ok d" using grows by (auto simp: duplex_wire_ok_def prefix_def)
    note del = duplex_delivered [OF d w] duplex_delivered [OF e True]
    have run: "channel_run es empty_channel = Some (channel_after (accepted (near d)) (length (received (far d))))"
      "channel_run fs empty_channel = Some (channel_after (accepted (far d)) (length (received (near d))))"
      using ok w 1(1) by (simp_all add: traced_ok_def)
    from channel_shown [OF grows(1,4) del(1,3) run(1)] channel_shown [OF grows(3,2) del(2,4) run(2)] e
    show ?thesis by (simp add: traced_ok_def 1(2))
  qed (simp add: traced_ok_def 1(2) e)
qed

interpretation traced: invariant_system traced_init traced_step traced_ok
proof unfold_locales
  fix t
  assume "traced_init t"
  then show "traced_ok t"
    by (auto simp: traced_init_def traced_ok_def duplex_init_def duplex_ok_def link_start_reachable)
      (simp_all add: link_start_def channel_after_def empty_channel_def)
qed (rule traced_ok_step)

text \<open>Runs of one end, while the other rests, are runs of the pair.\<close>

lemma near_run:
  assumes "(link_step custom_codec)\<^sup>*\<^sup>* (Inr (near d)) (Inr w)" "prefix (wire_in w) (wire_out (far d))"
  shows "duplex_step\<^sup>*\<^sup>* d (d\<lparr>near := w\<rparr>)"
  using assms
proof (induction "Inr w :: fault + u32 link" arbitrary: w rule: rtranclp_induct)
  case (step r)
  from step(2) obtain v where v: "r = Inr v" by (cases rule: link_step.cases) auto
  with step(2) link_step_grows have "prefix (wire_in v) (wire_in w)" by blast
  with step v have "duplex_step\<^sup>*\<^sup>* d (d\<lparr>near := v\<rparr>)" by (auto intro: prefix_order.trans)
  moreover have "duplex_step (d\<lparr>near := v\<rparr>) (d\<lparr>near := w\<rparr>)"
    using duplex_step.near_step [of "d\<lparr>near := v\<rparr>" w] step v by simp
  ultimately show ?case by (rule rtranclp.rtrancl_into_rtrancl)
qed simp

lemma far_run:
  assumes "(link_step custom_codec)\<^sup>*\<^sup>* (Inr (far d)) (Inr w)" "prefix (wire_in w) (wire_out (near d))"
  shows "duplex_step\<^sup>*\<^sup>* d (d\<lparr>far := w\<rparr>)"
  using assms
proof (induction "Inr w :: fault + u32 link" arbitrary: w rule: rtranclp_induct)
  case (step r)
  from step(2) obtain v where v: "r = Inr v" by (cases rule: link_step.cases) auto
  with step(2) link_step_grows have "prefix (wire_in v) (wire_in w)" by blast
  with step v have "duplex_step\<^sup>*\<^sup>* d (d\<lparr>far := v\<rparr>)" by (auto intro: prefix_order.trans)
  moreover have "duplex_step (d\<lparr>far := v\<rparr>) (d\<lparr>far := w\<rparr>)"
    using duplex_step.far_step [of "d\<lparr>far := v\<rparr>" w] step v by simp
  ultimately show ?case by (rule rtranclp.rtrancl_into_rtrancl)
qed simp

lemma link_run_steps: "link_run cd es r = Some r' \<Longrightarrow> (link_step cd)\<^sup>*\<^sup>* r r'"
proof (induction cd es r rule: link_run.induct)
  case (3 cd e es w)
  from "3.prems" obtain v where v: "link_exec cd e w = Some v" "link_run cd es v = Some r'"
    by (auto split: option.splits)
  from link_exec_step [OF v(1)] "3.IH" [OF v] show ?case by (rule converse_rtranclp_into_rtranclp)
qed simp_all

lemma link_end_steps: "(link_step cd)\<^sup>*\<^sup>* (Inr w) (Inr (link_end cd es w))"
  using link_run_steps [of cd es "Inr w"] by (auto simp: link_end_def split: option.split sum.split)

text \<open>The client sends its two messages, then the server's connection reads them.\<close>

definition talked :: duplex where
  "talked = \<lparr>near = writer_end, far = reader_end\<rparr>"

lemma talked_reachable:
  "\<exists>d. duplex_init d \<and> duplex_step\<^sup>*\<^sup>* d talked"
proof -
  let ?d = "\<lparr>near = link_start 0 Owner_client True 0, far = link_start 5 Owner_server True 0\<rparr>"
  let ?e = "?d\<lparr>near := writer_end\<rparr>"
  have "wire_in writer_end = []" by (simp add: writer_end_def writer_run_def run_simps)
  then have "duplex_step\<^sup>*\<^sup>* ?d ?e"
    by (intro near_run) (simp_all add: writer_end_def link_end_steps)
  also have "duplex_step\<^sup>*\<^sup>* ?e (?e\<lparr>far := reader_end\<rparr>)"
    by (intro far_run) (simp_all add: writer_end_facts reader_end_facts, simp add: reader_end_def link_end_steps)
  finally have "duplex_step\<^sup>*\<^sup>* ?d talked" by (simp add: talked_def)
  then show ?thesis unfolding duplex_init_def by blast
qed

text \<open>Every execution of the pair has its traces.\<close>

lemma duplex_traced:
  "duplex_step\<^sup>*\<^sup>* d e \<Longrightarrow> \<exists>es fs. traced_step\<^sup>*\<^sup>* \<lparr>pair_of = d, onward = [], homeward = []\<rparr>
     \<lparr>pair_of = e, onward = es, homeward = fs\<rparr>"
proof (induction rule: rtranclp_induct)
  case (step e f)
  then obtain es fs where "traced_step\<^sup>*\<^sup>* \<lparr>pair_of = d, onward = [], homeward = []\<rparr>
    \<lparr>pair_of = e, onward = es, homeward = fs\<rparr>" by blast
  from rtranclp.rtrancl_into_rtrancl [OF this traced_step.intros [OF step(2)]] show ?case by blast
qed blast

text \<open>
  C8: Two connected ends implement two FIFO channels, event by event: whatever either end sends, however
  the network cuts the bytes and whatever fails, the trace of each direction, which lists the messages
  accepted and the messages handed over in the order this happens, is one of the channel. A message is
  handed over only after it was accepted, when it is the oldest one waiting, and what waits at the end
  are the messages accepted and not handed over.
\<close>

theorem duplex_implements_channels:
  assumes "traced_init t0" "traced_step\<^sup>*\<^sup>* t0 t" "duplex_wire_ok (pair_of t)"
  shows "(\<exists>c. channel_run (onward t) empty_channel = Some c \<and>
      waiting c = drop (length (received (far (pair_of t)))) (accepted (near (pair_of t)))) \<and>
    (\<exists>c. channel_run (homeward t) empty_channel = Some c \<and>
      waiting c = drop (length (received (near (pair_of t)))) (accepted (far (pair_of t))))"
  using traced.inv_reachable [OF assms(1,2)] assms(3) by (auto simp: traced_ok_def channel_after_def)

theorem duplex_implements_channels_witness:
  "\<exists>t0 t. traced_init t0 \<and> traced_step\<^sup>*\<^sup>* t0 t \<and> pair_of t = talked \<and>
     (\<exists>c. channel_run (onward t) empty_channel = Some c \<and> waiting c = [])"
proof -
  obtain d where d: "duplex_init d" "duplex_step\<^sup>*\<^sup>* d talked" using talked_reachable by blast
  from duplex_traced [OF d(2)] obtain es fs where
    run: "traced_step\<^sup>*\<^sup>* \<lparr>pair_of = d, onward = [], homeward = []\<rparr> \<lparr>pair_of = talked, onward = es, homeward = fs\<rparr>" by blast
  have i: "traced_init \<lparr>pair_of = d, onward = [], homeward = []\<rparr>" using d(1) by (simp add: traced_init_def)
  have "duplex_wire_ok talked" "length (received (far talked)) = length (accepted (near talked))"
    by (simp_all add: talked_def duplex_wire_ok_def writer_end_facts reader_end_facts wire_ok_def)
      (simp_all add: reader_end_def reader_run_def run_simps Let_def)
  with duplex_implements_channels [OF i run] i run show ?thesis by fastforce
qed

end
