(* ===== verification/Shutdown_Protocol.thy ===== *)
theory Shutdown_Protocol
  imports Asio_Prelude
begin

text \<open>
  The two programs of \<open>src/asio-cookbook/ch2_io\<close> that mark the end of a message by shutting down the
  sending half of their socket: \<open>Communicate\<close> of \<open>socket_shutdown_client.cpp\<close> and
  \<open>ProcessRequest\<close> of \<open>socket_shutdown_server.cpp\<close>, run against each other over the two byte streams of
  a connection, and the retries of \<open>socket_shutdown_client1.cpp\<close>. A composed operation of asio
  (\<open>asio::write\<close>, \<open>asio::read\<close>) transfers its bytes in any pieces. A program that throws destroys its
  socket, which ends the stream it was sending.
\<close>

section \<open>The two programs\<close>

datatype client_at =
    C_writing "byte list"       \<comment> \<open>what \<open>asio::write\<close> has still to send\<close>
  | C_shutting
  | C_reading
  | C_done
  | C_thrown error_code

datatype server_at =
    S_reading
  | S_writing "byte list"
  | S_printing                  \<comment> \<open>about to build \<open>response_string\<close>\<close>
  | S_shutting
  | S_done
  | S_thrown error_code
  | S_fault

record exchange =
  up :: "byte list"             \<comment> \<open>sent by the client and not yet read\<close>
  up_closed :: bool
  down :: "byte list"
  down_closed :: bool
  c_at :: client_at
  c_got :: "byte list"          \<comment> \<open>\<open>response_buf\<close> of the client\<close>
  s_at :: server_at
  s_got :: "byte list"          \<comment> \<open>\<open>request_buf\<close> of the server\<close>
  c_printed :: "byte list list"
  s_printed :: "byte list list"

definition request_buf :: "byte list" where
  "request_buf = [0x48, 0x65, 0x0, 0x6c, 0x6c, 0x6f]"

definition response_buf :: "byte list" where
  "response_buf = [0x48, 0x69, 0x21]"

definition new_exchange :: exchange where
  "new_exchange = \<lparr>up = [], up_closed = False, down = [], down_closed = False, c_at = C_writing request_buf,
     c_got = [], s_at = S_reading, s_got = [], c_printed = [], s_printed = []\<rparr>"

text \<open>What a call on a socket comes to: bytes moved, the end of the stream, an error.\<close>

datatype io = Moved nat | Eof | Failed error_code

definition c_throw :: "error_code \<Rightarrow> exchange \<Rightarrow> exchange" where
  "c_throw e s = s\<lparr>c_at := C_thrown e, up_closed := True\<rparr>"

definition s_throw :: "error_code \<Rightarrow> exchange \<Rightarrow> exchange" where
  "s_throw e s = s\<lparr>s_at := S_thrown e, down_closed := True\<rparr>"

text \<open>The client, call by call; \<open>None\<close> where the call cannot end that way now.\<close>

definition Communicate :: "io \<Rightarrow> exchange \<Rightarrow> exchange option" where
  "Communicate io s =
     (case c_at s of
        C_writing rest \<Rightarrow>
          (case io of
             Moved j \<Rightarrow>
               if 0 < j \<and> j \<le> length rest
               then Some (s\<lparr>up := up s @ take j rest,
                      c_at := (if j = length rest then C_shutting else C_writing (drop j rest))\<rparr>)
               else None
           | Eof \<Rightarrow> None
           | Failed e \<Rightarrow> Some (c_throw e s))
      | C_shutting \<Rightarrow>
          (case io of
             Moved j \<Rightarrow> if j = 0 then Some (s\<lparr>up_closed := True, c_at := C_reading\<rparr>) else None
           | Eof \<Rightarrow> None
           | Failed e \<Rightarrow> Some (c_throw e s))
      | C_reading \<Rightarrow>
          (case io of
             Moved j \<Rightarrow>
               if 0 < j \<and> j \<le> length (down s)
               then Some (s\<lparr>c_got := c_got s @ take j (down s), down := drop j (down s)\<rparr>)
               else None
           | Eof \<Rightarrow>
               if down s = [] \<and> down_closed s
               then Some (s\<lparr>c_printed := c_printed s @ [c_got s], c_at := C_done\<rparr>)
               else None
           | Failed e \<Rightarrow> Some (c_throw e s))
      | _ \<Rightarrow> None)"

text \<open>
  \<open>std::string(response_buf)\<close> of an array without a terminating zero reads on into what lies after it
  in memory, \<open>past\<close>.
\<close>

definition c_string :: "byte list \<Rightarrow> byte list \<Rightarrow> fault + byte list" where
  "c_string buf past =
     (if 0 \<in> set (buf @ past) then Inr (takeWhile (\<lambda>b. b \<noteq> 0) (buf @ past)) else Inl Out_of_bounds)"

text \<open>The server prints the request before it looks at the error that ended the read.\<close>

definition ProcessRequest :: "byte list \<Rightarrow> io \<Rightarrow> exchange \<Rightarrow> exchange option" where
  "ProcessRequest past io s =
     (case s_at s of
        S_reading \<Rightarrow>
          (case io of
             Moved j \<Rightarrow>
               if 0 < j \<and> j \<le> length (up s)
               then Some (s\<lparr>s_got := s_got s @ take j (up s), up := drop j (up s)\<rparr>)
               else None
           | Eof \<Rightarrow>
               if up s = [] \<and> up_closed s
               then Some (s\<lparr>s_printed := s_printed s @ [s_got s], s_at := S_writing response_buf\<rparr>)
               else None
           | Failed e \<Rightarrow> Some (s_throw e (s\<lparr>s_printed := s_printed s @ [s_got s]\<rparr>)))
      | S_writing rest \<Rightarrow>
          (case io of
             Moved j \<Rightarrow>
               if 0 < j \<and> j \<le> length rest
               then Some (s\<lparr>down := down s @ take j rest,
                      s_at := (if j = length rest then S_printing else S_writing (drop j rest))\<rparr>)
               else None
           | Eof \<Rightarrow> None
           | Failed e \<Rightarrow> Some (s_throw e s))
      | S_printing \<Rightarrow>
          if io = Moved 0
          then (case c_string response_buf past of
                  Inl _ \<Rightarrow> Some (s\<lparr>s_at := S_fault\<rparr>)
                | Inr t \<Rightarrow> Some (s\<lparr>s_printed := s_printed s @ [t], s_at := S_shutting\<rparr>))
          else None
      | S_shutting \<Rightarrow>
          (case io of
             Moved j \<Rightarrow> if j = 0 then Some (s\<lparr>down_closed := True, s_at := S_done\<rparr>) else None
           | Eof \<Rightarrow> None
           | Failed e \<Rightarrow> Some (s_throw e s))
      | _ \<Rightarrow> None)"

inductive exchange_step :: "byte list \<Rightarrow> io \<Rightarrow> exchange \<Rightarrow> exchange \<Rightarrow> bool" for past io where
  client: "Communicate io s = Some t \<Longrightarrow> exchange_step past io s t"
| server: "ProcessRequest past io s = Some t \<Longrightarrow> exchange_step past io s t"

definition any_step :: "byte list \<Rightarrow> exchange \<Rightarrow> exchange \<Rightarrow> bool" where
  "any_step past s t \<longleftrightarrow> (\<exists>io. exchange_step past io s t)"

definition exchange_reachable :: "byte list \<Rightarrow> exchange \<Rightarrow> bool" where
  "exchange_reachable past s \<longleftrightarrow> (any_step past)\<^sup>*\<^sup>* new_exchange s"

section \<open>Invariant\<close>

text \<open>How far each program still has to go.\<close>

fun c_rank :: "client_at \<Rightarrow> nat" where
  "c_rank (C_writing rest) = 2 * length rest + 3"
| "c_rank C_shutting = 2"
| "c_rank C_reading = 1"
| "c_rank _ = 0"

fun s_rank :: "server_at \<Rightarrow> nat" where
  "s_rank S_reading = 2 * length response_buf + 4"
| "s_rank (S_writing rest) = 2 * length rest + 3"
| "s_rank S_printing = 2"
| "s_rank S_shutting = 1"
| "s_rank _ = 0"

fun c_left :: "client_at \<Rightarrow> byte list" where
  "c_left (C_writing rest) = rest"
| "c_left _ = []"

fun s_left :: "server_at \<Rightarrow> byte list" where
  "s_left S_reading = response_buf"
| "s_left (S_writing rest) = rest"
| "s_left _ = []"

fun thrown_c :: "client_at \<Rightarrow> bool" where
  "thrown_c (C_thrown _) = True"
| "thrown_c _ = False"

fun thrown_s :: "server_at \<Rightarrow> bool" where
  "thrown_s (S_thrown _) = True"
| "thrown_s _ = False"

fun may_close :: "server_at \<Rightarrow> bool" where
  "may_close S_done = True"
| "may_close (S_thrown _) = True"
| "may_close _ = False"

fun past_reading :: "server_at \<Rightarrow> bool" where
  "past_reading S_reading = False"
| "past_reading (S_thrown _) = False"
| "past_reading _ = True"

text \<open>
  Each stream carries the message from its first byte on, whole unless its sender threw; its end is
  there when the sender has shut it down or thrown.
\<close>

definition carries :: "byte list \<Rightarrow> byte list \<Rightarrow> bool \<Rightarrow> bool" where
  "carries msg xs broken \<longleftrightarrow> (\<exists>lost. xs @ lost = msg \<and> (broken \<or> lost = []))"

fun closed_c :: "client_at \<Rightarrow> bool" where
  "closed_c (C_writing _) = False"
| "closed_c C_shutting = False"
| "closed_c _ = True"

fun printed_by :: "server_at \<Rightarrow> byte list list \<Rightarrow> byte list \<Rightarrow> bool" where
  "printed_by S_reading out got = (out = [])"
| "printed_by (S_writing _) out got = (out = [got])"
| "printed_by S_printing out got = (out = [got])"
| "printed_by S_shutting out got = (\<exists>shown. out = [got, shown])"
| "printed_by S_done out got = (\<exists>shown. out = [got, shown])"
| "printed_by _ out got = True"

definition request_ok :: "exchange \<Rightarrow> bool" where
  "request_ok s \<longleftrightarrow> carries request_buf (s_got s @ up s @ c_left (c_at s)) (thrown_c (c_at s)) \<and>
     closed_c (c_at s) = up_closed s \<and> (past_reading (s_at s) \<longrightarrow> up s = [] \<and> up_closed s) \<and>
     c_at s \<noteq> C_writing []"

definition response_ok :: "exchange \<Rightarrow> bool" where
  "response_ok s \<longleftrightarrow> carries response_buf (c_got s @ down s @ s_left (s_at s)) (thrown_s (s_at s)) \<and>
     may_close (s_at s) = down_closed s \<and> (c_at s = C_done \<longrightarrow> down s = [] \<and> down_closed s) \<and>
     s_at s \<noteq> S_writing []"

definition printed_ok :: "exchange \<Rightarrow> bool" where
  "printed_ok s \<longleftrightarrow> c_printed s = (if c_at s = C_done then [c_got s] else []) \<and>
     printed_by (s_at s) (s_printed s) (s_got s)"

definition exchange_ok :: "exchange \<Rightarrow> bool" where
  "exchange_ok s \<longleftrightarrow> request_ok s \<and> response_ok s \<and> printed_ok s"

lemma carries_cut: "carries msg (xs @ ys @ zs) broken \<Longrightarrow> carries msg (xs @ ys) True"
  by (auto simp: carries_def)

lemma carries_prefix: "carries msg xs broken \<Longrightarrow> prefix xs msg \<and> (\<not> broken \<longrightarrow> xs = msg)"
  by (auto simp: carries_def)

lemma response_not_empty [simp]: "response_buf \<noteq> []"
  by (simp add: response_buf_def)

lemma take_drop_append [simp]: "take j xs @ drop j xs @ ys = xs @ ys"
  by (metis append_assoc append_take_drop_id)

text \<open>What a step of the client can be, and one of the server.\<close>

lemma Communicate_cases:
  assumes "Communicate io s = Some t"
  obtains (sent) rest j where "c_at s = C_writing rest" "0 < j" "j \<le> length rest"
      "t = s\<lparr>up := up s @ take j rest, c_at := (if j = length rest then C_shutting else C_writing (drop j rest))\<rparr>"
    | (shut) "c_at s = C_shutting" "t = s\<lparr>up_closed := True, c_at := C_reading\<rparr>"
    | (read) j where "c_at s = C_reading" "0 < j" "j \<le> length (down s)"
      "t = s\<lparr>c_got := c_got s @ take j (down s), down := drop j (down s)\<rparr>"
    | (eof) "c_at s = C_reading" "down s = []" "down_closed s"
      "t = s\<lparr>c_printed := c_printed s @ [c_got s], c_at := C_done\<rparr>"
    | (throw) e where "t = c_throw e s" "c_rank (c_at s) \<noteq> 0"
  using assms by (cases "c_at s"; cases io) (auto simp: Communicate_def split: if_splits)

lemma ProcessRequest_cases:
  assumes "ProcessRequest past io s = Some t"
  obtains (read) j where "s_at s = S_reading" "0 < j" "j \<le> length (up s)"
      "t = s\<lparr>s_got := s_got s @ take j (up s), up := drop j (up s)\<rparr>"
    | (eof) "s_at s = S_reading" "up s = []" "up_closed s"
      "t = s\<lparr>s_printed := s_printed s @ [s_got s], s_at := S_writing response_buf\<rparr>"
    | (sent) rest j where "s_at s = S_writing rest" "0 < j" "j \<le> length rest"
      "t = s\<lparr>down := down s @ take j rest, s_at := (if j = length rest then S_printing else S_writing (drop j rest))\<rparr>"
    | (overread) "s_at s = S_printing" "t = s\<lparr>s_at := S_fault\<rparr>" "c_string response_buf past = Inl Out_of_bounds"
    | (report) shown where "s_at s = S_printing" "c_string response_buf past = Inr shown"
      "t = s\<lparr>s_printed := s_printed s @ [shown], s_at := S_shutting\<rparr>"
    | (shut) "s_at s = S_shutting" "t = s\<lparr>down_closed := True, s_at := S_done\<rparr>"
    | (throw) e out where "t = s_throw e (s\<lparr>s_printed := out\<rparr>)" "s_rank (s_at s) \<noteq> 0"
proof (cases "s_at s")
  case S_reading
  with assms read eof throw [of _ "s_printed s @ [s_got s]"] show ?thesis
    by (cases io) (auto simp: ProcessRequest_def split: if_splits)
next
  case (S_writing rest)
  with assms sent throw [of _ "s_printed s"] show ?thesis
    by (cases io) (auto simp: ProcessRequest_def split: if_splits)
next
  case S_printing
  with assms overread report show ?thesis
    by (simp add: ProcessRequest_def c_string_def split: if_splits)
next
  case S_shutting
  with assms shut throw [of _ "s_printed s"] show ?thesis
    by (cases io) (auto simp: ProcessRequest_def split: if_splits)
qed (use assms in \<open>simp_all add: ProcessRequest_def\<close>)

lemma Communicate_ok:
  assumes ok: "exchange_ok s" and st: "Communicate io s = Some t"
  shows "exchange_ok t"
  using st
proof (cases rule: Communicate_cases)
  case (sent rest j)
  have "\<not> past_reading (s_at s)" using ok sent(1) by (auto simp: exchange_ok_def request_ok_def)
  with sent ok show ?thesis
    by (cases "j = length rest")
      (simp_all add: exchange_ok_def request_ok_def response_ok_def printed_ok_def)
next
  case (throw e)
  have "carries request_buf (s_got s @ up s) True"
    using ok unfolding exchange_ok_def request_ok_def by (blast intro: carries_cut)
  with throw ok show ?thesis
    by (cases "c_at s") (simp_all add: exchange_ok_def request_ok_def response_ok_def printed_ok_def c_throw_def)
qed (use ok in \<open>simp_all add: exchange_ok_def request_ok_def response_ok_def printed_ok_def\<close>)

lemma ProcessRequest_ok:
  assumes ok: "exchange_ok s" and st: "ProcessRequest past io s = Some t"
  shows "exchange_ok t"
  using st
proof (cases rule: ProcessRequest_cases)
  case (sent rest j)
  have "c_at s \<noteq> C_done" "up s = []" using ok sent(1) by (auto simp: exchange_ok_def response_ok_def request_ok_def)
  with sent ok show ?thesis
    by (cases "j = length rest")
      (simp_all add: exchange_ok_def request_ok_def response_ok_def printed_ok_def)
next
  case (throw e out)
  have "carries response_buf (c_got s @ down s) True"
    using ok unfolding exchange_ok_def response_ok_def by (blast intro: carries_cut)
  with throw ok show ?thesis
    by (cases "s_at s") (auto simp: exchange_ok_def request_ok_def response_ok_def printed_ok_def s_throw_def)
qed (use ok in \<open>auto simp: exchange_ok_def request_ok_def response_ok_def printed_ok_def\<close>)

interpretation exchange: invariant_system "\<lambda>s. s = new_exchange" "any_step past" exchange_ok for past
proof unfold_locales
  show "s = new_exchange \<Longrightarrow> exchange_ok s" for s by (simp add: exchange_ok_def request_ok_def response_ok_def
      printed_ok_def new_exchange_def carries_def request_buf_def)
qed (auto simp: any_step_def elim!: exchange_step.cases intro: Communicate_ok ProcessRequest_ok)

lemma exchange_reachable_ok: "exchange_reachable past s \<Longrightarrow> exchange_ok s"
  using exchange.inv_reachable unfolding exchange_reachable_def by blast

section \<open>What the exchange guarantees\<close>

lemma messages_whole:
  assumes "exchange_reachable past s"
  shows "(c_at s = C_done \<longrightarrow> c_printed s = [c_got s] \<and> prefix (c_got s) response_buf \<and>
      (\<not> thrown_s (s_at s) \<longrightarrow> c_got s = response_buf \<and> s_at s = S_done)) \<and>
    (past_reading (s_at s) \<longrightarrow> prefix (s_got s) request_buf \<and> (\<not> thrown_c (c_at s) \<longrightarrow> s_got s = request_buf))"
proof -
  have ok: "request_ok s" "response_ok s" "printed_ok s"
    using exchange_reachable_ok [OF assms] by (simp_all add: exchange_ok_def)
  have client: "prefix (c_got s) response_buf \<and> (\<not> thrown_s (s_at s) \<longrightarrow> c_got s = response_buf \<and> s_at s = S_done)"
    if "c_at s = C_done"
  proof -
    have "down s = []" "may_close (s_at s)" using ok(2) that by (simp_all add: response_ok_def)
    moreover have "s_left (s_at s) = [] \<and> (\<not> thrown_s (s_at s) \<longrightarrow> s_at s = S_done)"
      using calculation(2) by (cases "s_at s") simp_all
    ultimately show ?thesis using ok(2) carries_prefix by (fastforce simp: response_ok_def)
  qed
  have server: "prefix (s_got s) request_buf \<and> (\<not> thrown_c (c_at s) \<longrightarrow> s_got s = request_buf)"
    if "past_reading (s_at s)"
  proof -
    have "up s = []" "closed_c (c_at s)" using ok(1) that by (simp_all add: request_ok_def)
    moreover have "c_left (c_at s) = []" using calculation(2) by (cases "c_at s") simp_all
    ultimately show ?thesis using ok(1) carries_prefix by (fastforce simp: request_ok_def)
  qed
  show ?thesis using client server ok(3) by (simp add: printed_ok_def)
qed

text \<open>
  C34: When a program takes the message it received for complete, it holds a first part of the other's
  message, and all of it unless the other threw: the end of the stream does not tell the two apart.
\<close>

theorem shutdown_messages_whole:
  assumes "exchange_reachable past s"
  shows "(c_at s = C_done \<longrightarrow> c_printed s = [c_got s] \<and> prefix (c_got s) response_buf \<and>
      (\<not> thrown_s (s_at s) \<longrightarrow> c_got s = response_buf \<and> s_at s = S_done)) \<and>
    (past_reading (s_at s) \<longrightarrow> prefix (s_got s) request_buf \<and> (\<not> thrown_c (c_at s) \<longrightarrow> s_got s = request_buf))"
  by (rule messages_whole [OF assms])

section \<open>The exchange ends\<close>

definition exchange_left :: "exchange \<Rightarrow> nat" where
  "exchange_left s = c_rank (c_at s) + s_rank (s_at s) + length (up s) + length (down s)"

lemma exchange_step_decreases:
  assumes "exchange_step past io s t"
  shows "exchange_left t < exchange_left s"
  using assms
proof cases
  case client
  then show ?thesis
    by (cases rule: Communicate_cases) (auto simp: exchange_left_def c_throw_def)
next
  case server
  then show ?thesis
    by (cases rule: ProcessRequest_cases) (auto simp: exchange_left_def s_throw_def response_buf_def)
qed

interpretation exchange_ends: terminating_system "any_step past" "\<lambda>s. True" exchange_left for past
  by unfold_locales (auto simp: any_step_def dest: exchange_step_decreases)

lemmas any_steps_bounded = exchange_ends.steps_bounded [OF _ TrueI, THEN conjunct2]

text \<open>What the server prints last depends on the memory after its array.\<close>

definition last_print_ok :: "byte list \<Rightarrow> exchange \<Rightarrow> bool" where
  "last_print_ok past s \<longleftrightarrow>
     (s_at s = S_shutting \<or> s_at s = S_done \<longrightarrow>
       0 \<in> set past \<and> last (s_printed s) = response_buf @ takeWhile (\<lambda>b. b \<noteq> 0) past) \<and>
     (s_at s = S_fault \<longrightarrow> 0 \<notin> set past)"

lemma c_string_response:
  "c_string response_buf past =
    (if 0 \<in> set past then Inr (response_buf @ takeWhile (\<lambda>b. b \<noteq> 0) past) else Inl Out_of_bounds)"
  by (simp add: c_string_def response_buf_def)

lemma last_print_ok_step:
  assumes "last_print_ok past s" "any_step past s t"
  shows "last_print_ok past t"
proof -
  obtain io where "exchange_step past io s t" using assms(2) by (auto simp: any_step_def)
  then show ?thesis
  proof cases
    case client
    then have "s_at t = s_at s \<and> s_printed t = s_printed s"
      by (cases rule: Communicate_cases) (simp_all add: c_throw_def)
    with assms(1) show ?thesis by (simp add: last_print_ok_def)
  next
    case server
    then show ?thesis using assms(1)
      by (cases rule: ProcessRequest_cases)
        (auto simp: last_print_ok_def c_string_response s_throw_def split: if_splits)
  qed
qed

interpretation last_print: invariant_system "\<lambda>s. s = new_exchange" "any_step past" "last_print_ok past" for past
  by unfold_locales (simp add: last_print_ok_def new_exchange_def, rule last_print_ok_step)

text \<open>
  The text the server prints as its response is followed by whatever lies after the array in memory
  up to the next zero byte; where there is none the server never gets as far as ending its stream.
\<close>

theorem shutdown_server_overread:
  assumes "exchange_reachable past s" "s_at s = S_done"
  shows "0 \<in> set past \<and> last (s_printed s) = response_buf @ takeWhile (\<lambda>b. b \<noteq> 0) past"
  using last_print.inv_reachable [of new_exchange past s] assms
  by (simp add: exchange_reachable_def last_print_ok_def)

text \<open>
  The exchange ends: no run has more than twenty-five steps, and unless one of the programs threw,
  something other than an error can happen until both have the whole message of the other.
\<close>

definition can_go_on :: "byte list \<Rightarrow> exchange \<Rightarrow> bool" where
  "can_go_on past s \<longleftrightarrow> (\<exists>io t. (\<forall>e. io \<noteq> Failed e) \<and> exchange_step past io s t)"

lemma can_go_onI:
  "Communicate (Moved j) s = Some t \<Longrightarrow> can_go_on past s" "Communicate Eof s = Some t \<Longrightarrow> can_go_on past s"
  "ProcessRequest past (Moved j) s = Some t \<Longrightarrow> can_go_on past s"
  "ProcessRequest past Eof s = Some t \<Longrightarrow> can_go_on past s"
  unfolding can_go_on_def by (blast intro: exchange_step.intros)+

lemma server_goes_on:
  assumes ok: "exchange_ok s" and c: "c_at s = C_reading" and th: "\<not> thrown_s (s_at s)"
    and f: "s_at s \<noteq> S_fault" and o: "\<not> down_closed s"
  shows "can_go_on past s"
proof (cases "s_at s")
  case S_reading
  show ?thesis
  proof (cases "up s = []")
    case True
    then have "ProcessRequest past Eof s \<noteq> None"
      using S_reading c ok by (simp add: ProcessRequest_def exchange_ok_def request_ok_def)
    then show ?thesis using can_go_onI(4) by blast
  next
    case False
    then have "ProcessRequest past (Moved (length (up s))) s \<noteq> None"
      using S_reading by (simp add: ProcessRequest_def)
    then show ?thesis using can_go_onI(3) by blast
  qed
next
  case (S_writing rest)
  then have "ProcessRequest past (Moved (length rest)) s \<noteq> None"
    using ok by (auto simp: ProcessRequest_def exchange_ok_def response_ok_def)
  then show ?thesis using can_go_onI(3) by blast
next
  case S_printing
  then have "ProcessRequest past (Moved 0) s \<noteq> None" by (simp add: ProcessRequest_def split: sum.split)
  then show ?thesis using can_go_onI(3) by blast
next
  case S_shutting
  then have "ProcessRequest past (Moved 0) s \<noteq> None" by (simp add: ProcessRequest_def)
  then show ?thesis using can_go_onI(3) by blast
qed (use th f o ok in \<open>auto simp: exchange_ok_def response_ok_def\<close>)

lemma client_goes_on:
  assumes ok: "exchange_ok s" and th: "\<not> thrown_c (c_at s)" "\<not> thrown_s (s_at s)"
    and f: "s_at s \<noteq> S_fault" and n: "c_at s \<noteq> C_done"
  shows "can_go_on past s"
proof (cases "c_at s")
  case (C_writing rest)
  then have "Communicate (Moved (length rest)) s \<noteq> None"
    using ok by (auto simp: Communicate_def exchange_ok_def request_ok_def)
  then show ?thesis using can_go_onI(1) by blast
next
  case C_shutting
  then have "Communicate (Moved 0) s \<noteq> None" by (simp add: Communicate_def)
  then show ?thesis using can_go_onI(1) by blast
next
  case C_reading
  consider "down s \<noteq> []" | "down s = []" "down_closed s" | "\<not> down_closed s" by blast
  then show ?thesis
  proof cases
    case 1
    then have "Communicate (Moved (length (down s))) s \<noteq> None" using C_reading by (simp add: Communicate_def)
    then show ?thesis using can_go_onI(1) by blast
  next
    case 2
    then have "Communicate Eof s \<noteq> None" using C_reading by (simp add: Communicate_def)
    then show ?thesis using can_go_onI(2) by blast
  next
    case 3
    then show ?thesis by (rule server_goes_on [OF ok C_reading th(2) f])
  qed
qed (use th n in auto)

text \<open>
  C28: The exchange ends: no run has more than twenty-five steps, and unless one of the programs threw,
  something other than an error can happen until both are done. Then each has the whole message of the
  other, the client printed the response, and the server printed the request and, after its response,
  what lies behind the response in memory up to the first zero byte. Where there is no zero byte in
  \<open>past\<close>, the memory behind \<open>response_buf\<close>, the run may also end in the server's reading past it.
\<close>

theorem shutdown_exchange_completes:
  assumes "(any_step past ^^ n) new_exchange s"
  shows "n \<le> 25 \<and> (can_go_on past s \<or> thrown_c (c_at s) \<or> thrown_s (s_at s) \<or>
    s_at s = S_fault \<and> 0 \<notin> set past \<or>
    c_at s = C_done \<and> s_at s = S_done \<and> c_got s = response_buf \<and> s_got s = request_buf \<and>
      c_printed s = [response_buf] \<and> s_printed s = [request_buf, response_buf @ takeWhile (\<lambda>b. b \<noteq> 0) past])"
proof -
  have r: "exchange_reachable past s"
    using assms(1) unfolding exchange_reachable_def by (rule relpowp_imp_rtranclp)
  note ok = exchange_reachable_ok [OF r]
  have lp: "last_print_ok past s"
    using last_print.inv_reachable [of new_exchange past s] r by (simp add: exchange_reachable_def)
  then have f: "s_at s = S_fault \<Longrightarrow> 0 \<notin> set past" by (simp add: last_print_ok_def)
  have ended: "c_got s = response_buf \<and> s_at s = S_done \<and> c_printed s = [response_buf] \<and> s_got s = request_buf \<and>
      s_printed s = [request_buf, response_buf @ takeWhile (\<lambda>b. b \<noteq> 0) past]"
    if c: "c_at s = C_done" and th: "\<not> thrown_s (s_at s)"
  proof -
    note whole = messages_whole [OF r]
    have s: "s_at s = S_done" "c_got s = response_buf" "c_printed s = [response_buf]" using whole c th by simp_all
    then have g: "s_got s = request_buf" using whole c by simp
    obtain shown where "s_printed s = [s_got s, shown]"
      using ok s(1) by (auto simp: exchange_ok_def printed_ok_def)
    with lp s g show ?thesis by (simp add: last_print_ok_def)
  qed
  have "can_go_on past s \<or> thrown_c (c_at s) \<or> thrown_s (s_at s) \<or> s_at s = S_fault \<and> 0 \<notin> set past \<or> c_at s = C_done"
    using client_goes_on [OF ok] f by blast
  moreover have "exchange_left new_exchange = 25"
    by (simp add: exchange_left_def new_exchange_def request_buf_def response_buf_def)
  ultimately show ?thesis using any_steps_bounded [OF assms(1)] ended by auto
qed

section \<open>A run of the programs\<close>

text \<open>The calls of the client (\<open>True\<close>) and of the server, in the order they end.\<close>

fun run_exchange :: "byte list \<Rightarrow> (bool \<times> io) list \<Rightarrow> exchange \<Rightarrow> exchange option" where
  "run_exchange past [] s = Some s"
| "run_exchange past ((c, x) # xs) s =
     (case (if c then Communicate x s else ProcessRequest past x s) of
        None \<Rightarrow> None
      | Some t \<Rightarrow> run_exchange past xs t)"

lemma run_exchange_steps: "run_exchange past xs s = Some t \<Longrightarrow> (any_step past ^^ length xs) s t"
proof (induction xs arbitrary: s)
  case (Cons x xs)
  obtain c y where x: "x = (c, y)" by force
  then obtain u where u: "(if c then Communicate y s else ProcessRequest past y s) = Some u"
    "run_exchange past xs u = Some t" using Cons.prems by (auto split: option.splits)
  then have "any_step past s u"
    unfolding any_step_def by (cases c) (auto intro: exchange_step.intros)
  with Cons.IH [OF u(2)] show ?case by (simp only: list.size add_0_right add_Suc_right relpowp_Suc_I2)
qed simp

definition whole_run :: "(bool \<times> io) list" where
  "whole_run = [(True, Moved 4), (False, Moved 3), (True, Moved 2), (True, Moved 0), (False, Moved 3), (False, Eof),
     (False, Moved 3), (True, Moved 3), (False, Moved 0), (False, Moved 0), (True, Eof)]"

definition exchanged :: exchange where
  "exchanged = the (run_exchange [0x2a, 0] whole_run new_exchange)"

lemmas run_exchange_simps =
  whole_run_def new_exchange_def request_buf_def response_buf_def Communicate_def ProcessRequest_def
  c_string_def c_throw_def s_throw_def

lemma exchanged_run:
  "run_exchange [0x2a, 0] whole_run new_exchange = Some exchanged"
  "s_at exchanged = S_done" "c_at exchanged = C_done"
  by (simp_all add: exchanged_def run_exchange_simps)

lemma exchanged_steps: "(any_step [0x2a, 0] ^^ 11) new_exchange exchanged"
proof -
  have "length whole_run = 11" by (simp add: whole_run_def)
  with run_exchange_steps [OF exchanged_run(1)] show ?thesis by (simp only:)
qed

lemma exchanged_reachable: "exchange_reachable [0x2a, 0] exchanged"
  unfolding exchange_reachable_def by (rule relpowp_imp_rtranclp [OF exchanged_steps])

theorem shutdown_messages_whole_witness:
  "c_got exchanged = response_buf \<and> s_got exchanged = request_buf"
  using shutdown_messages_whole [OF exchanged_reachable] by (simp add: exchanged_run)

theorem shutdown_server_overread_witness:
  "last (s_printed exchanged) = [0x48, 0x69, 0x21, 0x2a]"
  using shutdown_server_overread [OF exchanged_reachable exchanged_run(2)] by (simp add: response_buf_def)

lemma exchanged_stuck: "\<not> can_go_on [0x2a, 0] exchanged"
  using exchanged_run(2,3)
  by (auto simp: can_go_on_def Communicate_def ProcessRequest_def elim!: exchange_step.cases)

theorem shutdown_exchange_completes_witness:
  "c_printed exchanged = [response_buf] \<and> s_printed exchanged = [request_buf, [0x48, 0x69, 0x21, 0x2a]]"
  using shutdown_exchange_completes [OF exchanged_steps] exchanged_stuck exchanged_run(2,3) by (simp add: response_buf_def)

text \<open>
  The end of the stream does not tell a complete message from a sender that gave up: the server
  throws at its first write, and the client prints an empty response as the whole one.
\<close>

definition given_up :: exchange where
  "given_up = the (run_exchange [0] [(True, Moved 6), (True, Moved 0), (False, Moved 6), (False, Eof),
     (False, Failed \<lparr>ec_value = 104, ec_category = 0\<rparr>), (True, Eof)] new_exchange)"

theorem shutdown_truncation_unnoticed:
  "exchange_reachable [0] given_up \<and> c_at given_up = C_done \<and> c_printed given_up = [[]] \<and> thrown_s (s_at given_up)"
proof -
  have "run_exchange [0] [(True, Moved 6), (True, Moved 0), (False, Moved 6), (False, Eof),
     (False, Failed \<lparr>ec_value = 104, ec_category = 0\<rparr>), (True, Eof)] new_exchange = Some given_up"
    by (simp add: given_up_def run_exchange_simps)
  from run_exchange_steps [OF this] have "exchange_reachable [0] given_up"
    unfolding exchange_reachable_def by (rule relpowp_imp_rtranclp)
  then show ?thesis by (simp add: given_up_def run_exchange_simps)
qed

section \<open>Connecting again\<close>

text \<open>
  \<open>ConnCallback\<close> of \<open>socket_shutdown_client1.cpp\<close>: after any error it waits and starts another
  attempt with a new socket; \<open>result k\<close> is the error code of attempt \<open>k\<close>. The result is what was
  printed and the attempt whose socket \<open>Communicate\<close> got.
\<close>

partial_function (option) ConnCallback :: "(error_code \<Rightarrow> string) \<Rightarrow> error_code \<Rightarrow> (nat \<Rightarrow> error_code) \<Rightarrow> nat \<Rightarrow>
    string list \<Rightarrow> (string list \<times> nat) option" where
  "ConnCallback message aborted result k out =
     (let ec = result k
      in if ec_value ec \<noteq> 0
         then let line = (if ec = aborted then ''Operation cancelled!''
                          else ''In async_connect! Error code = '' @ show_int (ec_value ec) @ ''. Message: '' @ message ec)
              in ConnCallback message aborted result (k + 1) (out @ [line, ''Retry connect''])
         else Some (out @ [''Connected''], k))"

lemma ConnCallback_from:
  assumes "\<not> failed (result (k + n))" "\<And>j. j < n \<Longrightarrow> failed (result (k + j))"
  shows "\<exists>out'. ConnCallback message aborted result k out = Some (out' @ [''Connected''], k + n) \<and>
    length out' = length out + 2 * n"
  using assms
proof (induction n arbitrary: k out)
  case 0
  then show ?case by (subst ConnCallback.simps) (simp add: failed_def)
next
  case (Suc n)
  have "failed (result k)" using Suc.prems(2) [of 0] by simp
  moreover have "failed (result (k + 1 + j))" if "j < n" for j using Suc.prems(2) [of "Suc j"] that by simp
  ultimately show ?case
    using Suc.IH [of "k + 1"] Suc.prems(1) by (subst ConnCallback.simps) (fastforce simp: failed_def Let_def)
qed

text \<open>
  The client communicates over the socket of the first attempt that succeeds, after as many retries
  as attempts failed before it.
\<close>

theorem connect_retries_until_success:
  assumes "\<not> failed (result k)"
  shows "\<exists>out. ConnCallback message aborted result 0 [] = Some (out @ [''Connected''], LEAST k. \<not> failed (result k)) \<and>
    length out = 2 * (LEAST k. \<not> failed (result k))"
proof -
  let ?n = "LEAST k. \<not> failed (result k)"
  have "\<not> failed (result (0 + ?n))" using LeastI [of "\<lambda>k. \<not> failed (result k)", OF assms] by simp
  moreover have "failed (result (0 + j))" if "j < ?n" for j using not_less_Least [OF that] by simp
  ultimately obtain out where "ConnCallback message aborted result 0 [] = Some (out @ [''Connected''], 0 + ?n)"
    "length out = length ([] :: string list) + 2 * ?n"
    using ConnCallback_from [of result 0 ?n message aborted "[]"] by blast
  then show ?thesis unfolding add_0 list.size by blast
qed

theorem connect_retries_until_success_witness:
  "\<exists>out. ConnCallback (\<lambda>_. ''refused'') \<lparr>ec_value = 125, ec_category = 0\<rparr>
      (\<lambda>k. if k < 3 then \<lparr>ec_value = 111, ec_category = 0\<rparr> else no_error) 0 [] = Some (out @ [''Connected''], 3)"
proof -
  let ?r = "\<lambda>k :: nat. if k < 3 then \<lparr>ec_value = 111, ec_category = 0\<rparr> else no_error"
  have "(LEAST k. \<not> failed (?r k)) = 3"
    by (rule Least_equality) (auto simp: failed_def no_error_def not_less split: if_splits)
  with connect_retries_until_success [of ?r 3] show ?thesis by (auto simp: failed_def no_error_def)
qed

end
