(* ===== verification/Web_Fetch.thy ===== *)
theory Web_Fetch
  imports Asio_Prelude
begin

text \<open>
  The first experiments of \<open>src/one_lone_coder\<close>: \<open>simple_example.cpp\<close>, which sends an HTTP request
  and prints what is available once, and \<open>simple_example1.cpp\<close>, which reads asynchronously into a
  buffer of the program. What the calls of asio return is an argument of the first; the second is a
  step relation in which a read may complete at any time, also between two iterations of the loop of
  a handler: \<open>async_read_some\<close> is free to read at once.
\<close>

section \<open>One read\<close>

definition request_get :: string where
  "request_get = ''GET /index.html HTTP/1.1'' @ [CHR 0x0D, newline] @ ''Host: example.com'' @ [CHR 0x0D, newline] @
     ''Connection: close'' @ [CHR 0x0D, newline, CHR 0x0D, newline]"

text \<open>\<open>read_some\<close> into the vector of \<open>bytes\<close> characters that \<open>std::vector<char>(bytes)\<close> made zero.\<close>

definition read_into :: "nat \<Rightarrow> string \<Rightarrow> string" where
  "read_into bytes got = (let n = min (length got) bytes in take n got @ replicate (bytes - n) (CHR 0x00))"

text \<open>
  \<open>main\<close>, as the lines it prints: \<open>connected\<close> and \<open>written\<close> are what \<open>connect\<close> and \<open>write_some\<close> give,
  \<open>bytes\<close> the value of \<open>available\<close> after the wait, \<open>got\<close> what \<open>read_some\<close> put into the buffer (nothing
  when it failed: its error is not looked at).
\<close>

definition fetch_main :: "(error_code \<Rightarrow> string) \<Rightarrow> error_code \<Rightarrow> bool \<Rightarrow> error_code \<times> nat \<Rightarrow> nat \<Rightarrow> string \<Rightarrow> string list" where
  "fetch_main message connected is_open written bytes got =
     (if ec_value connected = 0 then [''Connected '']
      else [''Error Code :'' @ show_int (ec_value connected) @ '' Failed to connect to address: '' @ [newline] @ message connected]) @
     (if is_open
      then [''Socket Open''] @
        (let (ec, bytes_written) = written
         in if ec_value ec = 0
            then [''Write '' @ show_nat bytes_written @ '' bytes in size '' @ show_nat (length request_get)]
            else [''Error Code :'' @ show_int (ec_value ec) @ '' Failed to write: '' @ [newline] @ message ec]) @
        [''Bytes Available: '' @ show_nat bytes] @
        (if bytes > 0 then [read_into bytes got] else [])
      else [])"

text \<open>
  What it prints of the answer has always the announced length: the bytes read, and zero characters
  where the read gave fewer or failed.
\<close>

theorem fetch_prints_announced_length:
  assumes "0 < bytes"
  shows "last (fetch_main message connected True written bytes got) = read_into bytes got \<and>
    length (read_into bytes got) = bytes \<and> take (length got) (read_into bytes got) = take bytes got \<and>
    (length got < bytes \<longrightarrow> last (read_into bytes got) = CHR 0x00)"
  using assms by (cases written) (auto simp: fetch_main_def read_into_def Let_def min_def)

theorem fetch_prints_announced_length_witness:
  "last (fetch_main (\<lambda>_. []) no_error True (no_error, 63) 3 ''ok'') = ''ok'' @ [CHR 0x00]"
  using fetch_prints_announced_length [of 3 "\<lambda>_. []" no_error "(no_error, 63)" "''ok''"]
  by (simp add: read_into_def min_def)

section \<open>Reads that multiply\<close>

text \<open>
  \<open>handler\<close> is the handler being run: the number of bytes it was given and the index of its loop;
  \<open>ready\<close> are the handlers of reads that have completed. \<open>incoming\<close> collects what the socket
  delivered and \<open>shown\<close> what the loops printed.
\<close>

record grabber =
  vBuffer :: string
  reads_pending :: nat
  ready :: "(error_code \<times> nat) list"
  handler :: "(nat \<times> nat) option"
  incoming :: string
  shown :: string
  begun :: nat              \<comment> \<open>handlers begun\<close>

definition BUFFER_SIZE :: nat where "BUFFER_SIZE = 20 * 1024"

definition GrabSomeData :: "grabber \<Rightarrow> grabber" where
  "GrabSomeData g = g\<lparr>reads_pending := reads_pending g + 1\<rparr>"

definition new_grabber :: grabber where
  "new_grabber = GrabSomeData \<lparr>vBuffer = replicate BUFFER_SIZE (CHR 0x00), reads_pending = 0, ready = [],
     handler = None, incoming = [], shown = [], begun = 0\<rparr>"

text \<open>A read completes: its bytes are at the start of the buffer, whatever was there.\<close>

definition read_completes :: "error_code \<Rightarrow> string \<Rightarrow> grabber \<Rightarrow> grabber option" where
  "read_completes ec bs g =
     (if 0 < reads_pending g \<and> length bs \<le> length (vBuffer g) \<and> (failed ec \<longrightarrow> bs = [])
      then Some (g\<lparr>vBuffer := bs @ drop (length bs) (vBuffer g), reads_pending := reads_pending g - 1,
             ready := ready g @ [(ec, length bs)], incoming := incoming g @ bs\<rparr>)
      else None)"

definition begin_read_handler :: "grabber \<Rightarrow> grabber option" where
  "begin_read_handler g =
     (case (handler g, ready g) of
        (None, (ec, len) # rest) \<Rightarrow>
          Some (g\<lparr>ready := rest, handler := (if failed ec then None else Some (len, 0)), begun := begun g + 1\<rparr>)
      | _ \<Rightarrow> None)"

text \<open>One iteration: print a character, start another read.\<close>

definition iterate :: "grabber \<Rightarrow> grabber option" where
  "iterate g =
     (case handler g of
        None \<Rightarrow> None
      | Some (len, i) \<Rightarrow>
          if i < len
          then Some (GrabSomeData (g\<lparr>shown := shown g @ [vBuffer g ! i], handler := Some (len, i + 1)\<rparr>))
          else Some (g\<lparr>handler := None\<rparr>))"

inductive grab_step :: "grabber \<Rightarrow> grabber \<Rightarrow> bool" where
  completes: "read_completes ec bs g = Some h \<Longrightarrow> grab_step g h"
| begins: "begin_read_handler g = Some h \<Longrightarrow> grab_step g h"
| iterates: "iterate g = Some h \<Longrightarrow> grab_step g h"

definition grab_reachable :: "grabber \<Rightarrow> bool" where
  "grab_reachable g \<longleftrightarrow> grab_step\<^sup>*\<^sup>* new_grabber g"

text \<open>Every character printed has started a read; the indices stay in the buffer.\<close>

definition grab_ok :: "grabber \<Rightarrow> bool" where
  "grab_ok g \<longleftrightarrow> length (vBuffer g) = BUFFER_SIZE \<and>
     reads_pending g + length (ready g) + begun g = 1 + length (shown g) \<and>
     list_all (\<lambda>(ec, len). len \<le> BUFFER_SIZE) (ready g) \<and>
     (\<forall>len i. handler g = Some (len, i) \<longrightarrow> i \<le> len \<and> len \<le> BUFFER_SIZE)"

lemma grab_ok_step: "grab_ok g \<Longrightarrow> grab_step g h \<Longrightarrow> grab_ok h"
  by (erule grab_step.cases)
    (auto simp: grab_ok_def read_completes_def begin_read_handler_def iterate_def GrabSomeData_def
      split: if_splits option.splits list.splits prod.splits)

interpretation grab: invariant_system "\<lambda>g. g = new_grabber" grab_step grab_ok
  by unfold_locales (simp add: new_grabber_def GrabSomeData_def grab_ok_def, rule grab_ok_step)

text \<open>
  The reads multiply: the reads in flight, with those whose handlers wait, are one more than the
  characters printed less the handlers begun. The buffer is never read outside its bounds.
\<close>

theorem grab_reads_multiply:
  assumes "grab_reachable g"
  shows "reads_pending g + length (ready g) + begun g = 1 + length (shown g) \<and>
    (case handler g of Some (len, i) \<Rightarrow> i < len \<longrightarrow> i < length (vBuffer g) | None \<Rightarrow> True)"
  using grab.inv_reachable [of new_grabber g] assms
  by (auto simp: grab_reachable_def grab_ok_def split: option.split)

text \<open>
  All reads share one buffer: a read started by the first iteration overwrites the second character
  before it is printed. The socket delivered \<open>abXY\<close> and the program prints \<open>aY\<close>.
\<close>

definition overwritten :: grabber where
  "overwritten = the (Option.bind (read_completes no_error ''ab'' new_grabber) (\<lambda>g.
     Option.bind (begin_read_handler g) (\<lambda>g. Option.bind (iterate g) (\<lambda>g.
     Option.bind (read_completes no_error ''XY'' g) iterate))))"

lemma overwritten_steps:
  "Option.bind (read_completes no_error ''ab'' new_grabber) (\<lambda>g.
     Option.bind (begin_read_handler g) (\<lambda>g. Option.bind (iterate g) (\<lambda>g.
     Option.bind (read_completes no_error ''XY'' g) iterate))) = Some overwritten"
  "shown overwritten = ''aY''" "incoming overwritten = ''abXY''" "reads_pending overwritten = 1"
  by (simp_all add: overwritten_def read_completes_def new_grabber_def GrabSomeData_def begin_read_handler_def
      iterate_def BUFFER_SIZE_def)

lemma overwritten_reachable: "grab_reachable overwritten"
proof -
  obtain g1 g2 g3 g4 where "read_completes no_error ''ab'' new_grabber = Some g1" "begin_read_handler g1 = Some g2"
    "iterate g2 = Some g3" "read_completes no_error ''XY'' g3 = Some g4" "iterate g4 = Some overwritten"
    using overwritten_steps(1) by (auto simp: bind_eq_Some_conv)
  then have "grab_step new_grabber g1" "grab_step g1 g2" "grab_step g2 g3" "grab_step g3 g4" "grab_step g4 overwritten"
    by (blast intro: grab_step.intros)+
  then show ?thesis unfolding grab_reachable_def by (meson rtranclp.rtrancl_refl rtranclp.rtrancl_into_rtrancl)
qed

theorem grab_loses_data:
  "grab_reachable overwritten \<and> shown overwritten = ''aY'' \<and> incoming overwritten = ''abXY''"
  by (simp add: overwritten_reachable overwritten_steps)

theorem grab_reads_multiply_witness:
  "reads_pending overwritten + length (ready overwritten) + begun overwritten = 3"
  using grab_reads_multiply [OF overwritten_reachable] overwritten_steps(2) by simp

end
