(* ===== verification/Timers.thy ===== *)
theory Timers
  imports Asio_Prelude
begin

text \<open>
  Timers: \<open>src/etc/dens_timer.cpp\<close>, whose handler waits again until another thread cancels the timer,
  and \<open>src/asio-cookbook/ch6_etc/timer_example.cpp\<close>, in which the handler of one timer cancels another.
  Time is a count of nanoseconds. A timer is armed with its time of expiry; once it has expired or
  been cancelled its handler waits to be run, with the error it will get, and a cancel has no effect
  on it any more.
\<close>

type_synonym nanoseconds = nat

definition seconds :: "nat \<Rightarrow> nanoseconds" where
  "seconds n = n * 1000000000"

datatype timer =
    Armed nanoseconds      \<comment> \<open>waits until then\<close>
  | Due error_code         \<comment> \<open>its handler waits to be run with this error\<close>
  | Unarmed

text \<open>\<open>cancel\<close>, as asio documents it: a wait not completed yet completes with \<open>operation_aborted\<close>.\<close>

fun timer_cancel :: "error_code \<Rightarrow> timer \<Rightarrow> timer" where
  "timer_cancel aborted (Armed _) = Due aborted"
| "timer_cancel aborted t = t"

section \<open>The periodic timer\<close>

record ticker =
  clock :: nanoseconds
  tm :: timer
  in_handler :: bool        \<comment> \<open>the handler has printed and is about to wait again\<close>
  printed :: "nat list"     \<comment> \<open>the seconds printed\<close>
  cancelled :: bool         \<comment> \<open>printed that the timer is cancelled\<close>
  cancel_left :: bool       \<comment> \<open>the thread has still to call \<open>cancel\<close>\<close>

text \<open>The program's clock starts at \<open>begin\<close>, here 0.\<close>

definition async_wait :: "ticker \<Rightarrow> ticker" where
  "async_wait k = k\<lparr>tm := Armed (clock k + seconds 1)\<rparr>"

definition ticker_main :: ticker where
  "ticker_main = async_wait \<lparr>clock = 0, tm = Unarmed, in_handler = False, printed = [], cancelled = False,
     cancel_left = True\<rparr>"

text \<open>The handler, up to its call of \<open>async_wait\<close>.\<close>

definition wait_handler :: "error_code \<Rightarrow> error_code \<Rightarrow> ticker \<Rightarrow> ticker" where
  "wait_handler aborted error k =
     (if error = aborted then k\<lparr>tm := Unarmed, cancelled := True\<rparr>
      else let elapsed = clock k div seconds 1
           in k\<lparr>tm := Unarmed, printed := printed k @ [elapsed], in_handler := True\<rparr>)"

inductive tick_step :: "error_code \<Rightarrow> ticker \<Rightarrow> ticker \<Rightarrow> bool" for aborted where
  passes: "tick_step aborted k (k\<lparr>clock := clock k + d\<rparr>)"
| expires: "tm k = Armed t \<Longrightarrow> t \<le> clock k \<Longrightarrow> tick_step aborted k (k\<lparr>tm := Due no_error\<rparr>)"
| handles: "tm k = Due ec \<Longrightarrow> tick_step aborted k (wait_handler aborted ec k)"
| waits: "in_handler k \<Longrightarrow> tick_step aborted k (async_wait (k\<lparr>in_handler := False\<rparr>))"
| cancels: "cancel_left k \<Longrightarrow> seconds 4 \<le> clock k \<Longrightarrow>
    tick_step aborted k (k\<lparr>tm := timer_cancel aborted (tm k), cancel_left := False\<rparr>)"

definition tick_reachable :: "error_code \<Rightarrow> ticker \<Rightarrow> bool" where
  "tick_reachable aborted k \<longleftrightarrow> (tick_step aborted)\<^sup>*\<^sup>* ticker_main k"

text \<open>
  Each number printed is at least its position, and no more than the seconds passed; the timer is
  armed, due or about to be armed until the cancellation is printed.
\<close>

definition ticker_ok :: "error_code \<Rightarrow> ticker \<Rightarrow> bool" where
  "ticker_ok aborted k \<longleftrightarrow>
     (\<forall>i < length (printed k). i + 1 \<le> printed k ! i \<and> printed k ! i \<le> clock k div seconds 1) \<and> sorted (printed k) \<and>
     seconds (length (printed k)) \<le> clock k \<and>
     (case tm k of
        Armed t \<Rightarrow> seconds (length (printed k) + 1) \<le> t \<and> \<not> in_handler k \<and> \<not> cancelled k
      | Due ec \<Rightarrow> (ec = aborted \<and> \<not> cancel_left k \<or> ec = no_error \<and> seconds (length (printed k) + 1) \<le> clock k) \<and>
          \<not> in_handler k \<and> \<not> cancelled k
      | Unarmed \<Rightarrow> in_handler k \<noteq> cancelled k) \<and>
     (cancelled k \<longrightarrow> \<not> cancel_left k)"

lemma seconds_mono: "seconds n \<le> t \<Longrightarrow> n \<le> t div seconds 1"
  by (simp add: seconds_def less_eq_div_iff_mult_less_eq)

lemma ticker_ok_handler:
  assumes ok: "ticker_ok aborted k" and d: "tm k = Due ec" and a: "failed aborted"
  shows "ticker_ok aborted (wait_handler aborted ec k)"
proof (cases "ec = aborted")
  case True
  moreover have "aborted \<noteq> no_error" using a by auto
  ultimately show ?thesis using ok d by (auto simp: ticker_ok_def wait_handler_def)
next
  case False
  let ?e = "clock k div seconds 1"
  have le: "seconds (length (printed k) + 1) \<le> clock k" using ok d False by (simp add: ticker_ok_def)
  have "length (printed k) + 1 \<le> ?e" by (rule seconds_mono [OF le])
  moreover have "\<forall>x \<in> set (printed k). x \<le> ?e" using ok by (auto simp: ticker_ok_def in_set_conv_nth)
  ultimately show ?thesis using ok d False le
    by (auto simp: ticker_ok_def wait_handler_def nth_append sorted_append less_Suc_eq)
qed

lemma ticker_ok_step:
  assumes ok: "ticker_ok aborted k" and a: "failed aborted" and st: "tick_step aborted k l"
  shows "ticker_ok aborted l"
  using st
proof cases
  case (passes d)
  have "clock k div seconds 1 \<le> (clock k + d) div seconds 1" by (simp add: div_le_mono)
  with passes ok show ?thesis by (auto simp: ticker_ok_def split: timer.splits intro: order_trans)
next
  case (expires t)
  with ok show ?thesis by (simp add: ticker_ok_def)
next
  case (handles ec)
  with ticker_ok_handler [OF ok _ a] show ?thesis by simp
next
  case waits
  with ok show ?thesis
    by (cases "tm k") (auto simp: ticker_ok_def async_wait_def, simp_all add: seconds_def)
next
  case cancels
  with ok show ?thesis by (cases "tm k") (auto simp: ticker_ok_def)
qed

interpretation ticking: invariant_system "\<lambda>k. k = ticker_main" "tick_step aborted"
    "\<lambda>k. failed aborted \<longrightarrow> ticker_ok aborted k" for aborted
proof unfold_locales
  show "failed aborted \<longrightarrow> ticker_ok aborted k" if "k = ticker_main" for k
    using that by (simp add: ticker_ok_def ticker_main_def async_wait_def seconds_def)
qed (blast intro: ticker_ok_step)

lemma ticker_reachable_ok: "failed aborted \<Longrightarrow> tick_reachable aborted k \<Longrightarrow> ticker_ok aborted k"
  using ticking.inv_reachable unfolding tick_reachable_def by blast

text \<open>
  The numbers printed never decrease, the \<open>n\<close>-th is at least \<open>n\<close>, and none is ahead of the clock:
  each round waits a whole second, and what its handler adds is kept.
\<close>

theorem timer_prints_seconds:
  assumes "failed aborted" "tick_reachable aborted k"
  shows "sorted (printed k) \<and>
    (\<forall>i < length (printed k). i + 1 \<le> printed k ! i \<and> printed k ! i \<le> clock k div seconds 1)"
  using ticker_reachable_ok [OF assms] by (simp add: ticker_ok_def)

section \<open>The cancel of the other thread\<close>

text \<open>A cancel that finds the timer armed ends the program: nothing more is printed.\<close>

definition stopping :: "error_code \<Rightarrow> nat list \<Rightarrow> ticker \<Rightarrow> bool" where
  "stopping aborted out k \<longleftrightarrow> printed k = out \<and> \<not> in_handler k \<and>
     (tm k = Due aborted \<or> tm k = Unarmed \<and> cancelled k)"

lemma stopping_step:
  assumes "stopping aborted out k" "tick_step aborted k l"
  shows "stopping aborted out l"
  using assms(2,1) by cases (auto simp: stopping_def wait_handler_def)

interpretation stopped: invariant_system "stopping aborted out" "tick_step aborted" "stopping aborted out"
  for aborted out
  by unfold_locales (auto intro: stopping_step)

theorem timer_cancel_stops:
  assumes "failed aborted" "tick_reachable aborted k" "tm k = Armed t"
    and "(tick_step aborted)\<^sup>*\<^sup>* (k\<lparr>tm := timer_cancel aborted (tm k), cancel_left := False\<rparr>) l"
  shows "printed l = printed k \<and> (tm l = Due aborted \<or> tm l = Unarmed \<and> cancelled l)"
proof -
  have "stopping aborted (printed k) (k\<lparr>tm := timer_cancel aborted (tm k), cancel_left := False\<rparr>)"
    using ticker_reachable_ok [OF assms(1,2)] assms(3) by (simp add: stopping_def ticker_ok_def)
  from stopped.inv_reachable [OF this assms(4)] show ?thesis by (simp add: stopping_def)
qed

text \<open>
  A cancel that comes while the handler is due, or running, has no effect, and there is no other: the
  program never ends.
\<close>

definition ticks_on :: "error_code \<Rightarrow> ticker \<Rightarrow> bool" where
  "ticks_on aborted k \<longleftrightarrow> failed aborted \<and> \<not> cancel_left k \<and> \<not> cancelled k \<and> tm k \<noteq> Due aborted \<and>
     (tm k = Unarmed \<longrightarrow> in_handler k)"

lemma ticks_on_step:
  assumes "ticks_on aborted k" "tick_step aborted k l"
  shows "ticks_on aborted l"
  using assms(2,1) by cases (auto simp: ticks_on_def wait_handler_def async_wait_def)

interpretation endless: invariant_system "ticks_on aborted" "tick_step aborted" "ticks_on aborted" for aborted
  by unfold_locales (auto intro: ticks_on_step)

text \<open>
  A cancel that comes while no wait is armed, after one expired and before its handler waits again, is
  lost: the cancellation is never printed and the program always waits or is about to.
\<close>

theorem timer_missed_cancel_never_ends:
  assumes "failed aborted" "tick_reachable aborted k" "cancel_left k" "\<forall>t. tm k \<noteq> Armed t"
    and "(tick_step aborted)\<^sup>*\<^sup>* (k\<lparr>tm := timer_cancel aborted (tm k), cancel_left := False\<rparr>) l"
  shows "\<not> cancelled l \<and> (tm l = Unarmed \<longrightarrow> in_handler l)"
proof -
  have "aborted \<noteq> no_error" using assms(1) by auto
  then have "ticks_on aborted (k\<lparr>tm := timer_cancel aborted (tm k), cancel_left := False\<rparr>)"
    using ticker_reachable_ok [OF assms(1,2)] assms(1,3,4)
    by (cases "tm k") (auto simp: ticks_on_def ticker_ok_def)
  from endless.inv_reachable [OF this assms(5)] show ?thesis by (simp add: ticks_on_def)
qed

text \<open>The cancel four seconds after the start finds the fourth wait due, or not yet.\<close>

definition aborted_code :: error_code where
  "aborted_code = \<lparr>ec_value = 125, ec_category = 0\<rparr>"

definition after_rounds :: "nat \<Rightarrow> ticker" where
  "after_rounds n = \<lparr>clock = seconds n, tm = Armed (seconds (n + 1)), in_handler = False, printed = [1..<n + 1],
     cancelled = False, cancel_left = True\<rparr>"

lemma after_rounds_reachable: "tick_reachable aborted_code (after_rounds n)"
proof (induction n)
  case 0
  show ?case by (simp add: tick_reachable_def after_rounds_def ticker_main_def async_wait_def seconds_def)
next
  case (Suc n)
  let ?k = "after_rounds n" and ?e = "seconds (n + 1)"
  let ?k1 = "?k\<lparr>clock := clock ?k + seconds 1\<rparr>"
  let ?k2 = "?k1\<lparr>tm := Due no_error\<rparr>"
  let ?k3 = "wait_handler aborted_code no_error ?k2"
  have "tick_step aborted_code ?k ?k1" by (rule tick_step.passes)
  moreover have "tick_step aborted_code ?k1 ?k2"
    by (rule tick_step.expires [of _ ?e]) (simp_all add: after_rounds_def seconds_def)
  moreover have "tick_step aborted_code ?k2 ?k3" by (rule tick_step.handles) simp
  moreover have "tick_step aborted_code ?k3 (async_wait (?k3\<lparr>in_handler := False\<rparr>))"
    by (rule tick_step.waits) (simp add: wait_handler_def aborted_code_def no_error_def Let_def)
  moreover have "async_wait (?k3\<lparr>in_handler := False\<rparr>) = after_rounds (Suc n)"
    by (simp add: after_rounds_def wait_handler_def async_wait_def aborted_code_def no_error_def Let_def seconds_def)
  ultimately show ?case using Suc unfolding tick_reachable_def
    by (metis (no_types, lifting) rtranclp.rtrancl_into_rtrancl)
qed

theorem timer_prints_seconds_witness: "sorted (printed (after_rounds 3)) \<and> printed (after_rounds 3) ! 2 \<ge> 3"
proof -
  have "failed aborted_code" by (simp add: failed_def aborted_code_def)
  from timer_prints_seconds [OF this after_rounds_reachable, of 3] show ?thesis
    by (auto simp: after_rounds_def)
qed

theorem timer_cancel_stops_witness:
  "printed ((after_rounds 4)\<lparr>tm := Due aborted_code, cancel_left := False\<rparr>) = printed (after_rounds 4)"
  using timer_cancel_stops [of aborted_code "after_rounds 4" "seconds 5"] after_rounds_reachable
  by (simp add: failed_def aborted_code_def after_rounds_def)

definition missed :: ticker where
  "missed = (after_rounds 3)\<lparr>clock := seconds 4, tm := Due no_error\<rparr>"

theorem timer_missed_cancel_never_ends_witness: "\<not> cancelled (missed\<lparr>cancel_left := False\<rparr>)"
proof -
  let ?k1 = "(after_rounds 3)\<lparr>clock := clock (after_rounds 3) + seconds 1\<rparr>"
  have "tick_step aborted_code (after_rounds 3) ?k1" by (rule tick_step.passes)
  moreover have "tick_step aborted_code ?k1 (?k1\<lparr>tm := Due no_error\<rparr>)"
    by (rule tick_step.expires [of _ "seconds 4"]) (simp_all add: after_rounds_def seconds_def)
  moreover have "?k1\<lparr>tm := Due no_error\<rparr> = missed" by (simp add: missed_def after_rounds_def seconds_def)
  ultimately have r: "tick_reachable aborted_code missed"
    using after_rounds_reachable [of 3] unfolding tick_reachable_def
    by (metis (no_types, lifting) rtranclp.rtrancl_into_rtrancl)
  have m: "failed aborted_code" "cancel_left missed" "tm missed = Due no_error"
    by (simp_all add: failed_def aborted_code_def missed_def after_rounds_def)
  have eq: "missed\<lparr>tm := timer_cancel aborted_code (tm missed), cancel_left := False\<rparr> = missed\<lparr>cancel_left := False\<rparr>"
    by (simp add: missed_def)
  have "(tick_step aborted_code)\<^sup>*\<^sup>* (missed\<lparr>tm := timer_cancel aborted_code (tm missed), cancel_left := False\<rparr>)
      (missed\<lparr>cancel_left := False\<rparr>)"
    unfolding eq by (rule rtranclp.rtrancl_refl)
  with timer_missed_cancel_never_ends [OF m(1) r m(2)] m(3) show ?thesis by (metis timer.distinct(1))
qed

section \<open>Two timers\<close>

text \<open>
  \<open>timer_example.cpp\<close>: one thread, timers of two and five seconds; asio completes waits in the order
  of their expiry. The handlers print; the first then cancels the second timer.
\<close>

record two_timers =
  now :: nanoseconds
  t1 :: timer
  t2 :: timer
  lines :: "string list"

definition timer_line :: "(error_code \<Rightarrow> string) \<Rightarrow> error_code \<Rightarrow> error_code \<Rightarrow> string" where
  "timer_line message aborted ec =
     (if ec_value ec = 0 then ''Timer #2 has expired!''
      else if ec = aborted then ''Timer #2 has been cancelled!''
      else ''Error occured! Error code = '' @ show_int (ec_value ec) @ ''. Message: '' @ message ec)"

definition two_timers_main :: two_timers where
  "two_timers_main = \<lparr>now = 0, t1 = Armed (seconds 2), t2 = Armed (seconds 5), lines = []\<rparr>"

definition handler1 :: "(error_code \<Rightarrow> string) \<Rightarrow> error_code \<Rightarrow> error_code \<Rightarrow> two_timers \<Rightarrow> two_timers" where
  "handler1 message aborted ec w =
     w\<lparr>t1 := Unarmed, lines := lines w @ [timer_line message aborted ec], t2 := timer_cancel aborted (t2 w)\<rparr>"

definition handler2 :: "(error_code \<Rightarrow> string) \<Rightarrow> error_code \<Rightarrow> error_code \<Rightarrow> two_timers \<Rightarrow> two_timers" where
  "handler2 message aborted ec w =
     w\<lparr>t2 := Unarmed, lines := lines w @ [timer_line message aborted ec]\<rparr>"

inductive two_step :: "(error_code \<Rightarrow> string) \<Rightarrow> error_code \<Rightarrow> two_timers \<Rightarrow> two_timers \<Rightarrow> bool" for message aborted where
  passes: "two_step message aborted w (w\<lparr>now := now w + d\<rparr>)"
| expires1: "t1 w = Armed t \<Longrightarrow> t \<le> now w \<Longrightarrow> two_step message aborted w (w\<lparr>t1 := Due no_error\<rparr>)"
| expires2: "t2 w = Armed t \<Longrightarrow> t \<le> now w \<Longrightarrow> \<forall>u. t1 w \<noteq> Armed u \<Longrightarrow>
    two_step message aborted w (w\<lparr>t2 := Due no_error\<rparr>)"
| handles1: "t1 w = Due ec \<Longrightarrow> two_step message aborted w (handler1 message aborted ec w)"
| handles2: "t2 w = Due ec \<Longrightarrow> \<forall>ec. t1 w \<noteq> Due ec \<Longrightarrow> two_step message aborted w (handler2 message aborted ec w)"

definition two_ok :: "(error_code \<Rightarrow> string) \<Rightarrow> error_code \<Rightarrow> two_timers \<Rightarrow> bool" where
  "two_ok message aborted w \<longleftrightarrow>
     (case t1 w of
        Armed t \<Rightarrow> t = seconds 2 \<and> t2 w = Armed (seconds 5) \<and> lines w = []
      | Due ec \<Rightarrow> ec = no_error \<and> lines w = [] \<and>
          (t2 w = Armed (seconds 5) \<or> t2 w = Due no_error \<and> seconds 5 \<le> now w)
      | Unarmed \<Rightarrow>
          (\<forall>t. t2 w \<noteq> Armed t) \<and>
          (case t2 w of
             Due ec \<Rightarrow> (ec = aborted \<or> ec = no_error \<and> seconds 5 \<le> now w) \<and> lines w = [timer_line message aborted no_error]
           | _ \<Rightarrow> lines w = [timer_line message aborted no_error, timer_line message aborted aborted] \<or>
               lines w = [timer_line message aborted no_error, timer_line message aborted no_error] \<and> seconds 5 \<le> now w))"

lemma two_ok_step:
  assumes "two_ok message aborted w" "two_step message aborted w v"
  shows "two_ok message aborted v"
  using assms(2,1)
  by cases (auto simp: two_ok_def handler1_def handler2_def split: timer.splits)

interpretation two: invariant_system "\<lambda>w. w = two_timers_main" "two_step message aborted" "two_ok message aborted"
  for message aborted
  by unfold_locales (simp add: two_ok_def two_timers_main_def, rule two_ok_step)

text \<open>
  When both timers are through, two lines were printed, both about \<open>Timer #2\<close>: that it has expired,
  and that it was cancelled, unless the first handler was more than three seconds late.
\<close>

theorem two_timers_lines:
  assumes "failed aborted" "(two_step message aborted)\<^sup>*\<^sup>* two_timers_main w" "t1 w = Unarmed" "t2 w = Unarmed"
  shows "lines w = [''Timer #2 has expired!'', ''Timer #2 has been cancelled!''] \<or>
    lines w = [''Timer #2 has expired!'', ''Timer #2 has expired!''] \<and> seconds 5 \<le> now w"
  using two.inv_reachable [OF refl assms(2)] assms(1,3,4)
  by (auto simp: two_ok_def timer_line_def failed_def no_error_def)

theorem two_timers_lines_witness:
  "\<exists>w. (two_step (\<lambda>_. []) aborted_code)\<^sup>*\<^sup>* two_timers_main w \<and>
    (lines w = [''Timer #2 has expired!'', ''Timer #2 has been cancelled!''] \<or>
     lines w = [''Timer #2 has expired!'', ''Timer #2 has expired!''] \<and> seconds 5 \<le> now w)"
proof -
  let ?w1 = "two_timers_main\<lparr>now := now two_timers_main + seconds 2\<rparr>"
  let ?w2 = "?w1\<lparr>t1 := Due no_error\<rparr>"
  let ?w3 = "handler1 (\<lambda>_. []) aborted_code no_error ?w2"
  let ?w4 = "handler2 (\<lambda>_. []) aborted_code aborted_code ?w3"
  have "two_step (\<lambda>_. []) aborted_code two_timers_main ?w1" by (rule two_step.passes)
  moreover have "two_step (\<lambda>_. []) aborted_code ?w1 ?w2"
    by (rule two_step.expires1 [of _ "seconds 2"]) (simp_all add: two_timers_main_def)
  moreover have "two_step (\<lambda>_. []) aborted_code ?w2 ?w3" by (rule two_step.handles1) simp
  moreover have "two_step (\<lambda>_. []) aborted_code ?w3 ?w4"
    by (rule two_step.handles2) (simp_all add: handler1_def two_timers_main_def)
  ultimately have r: "(two_step (\<lambda>_. []) aborted_code)\<^sup>*\<^sup>* two_timers_main ?w4"
    by (meson converse_rtranclp_into_rtranclp r_into_rtranclp)
  moreover have "failed aborted_code" by (simp add: failed_def aborted_code_def)
  moreover have "t1 ?w4 = Unarmed" "t2 ?w4 = Unarmed" by (simp_all add: handler1_def handler2_def)
  ultimately show ?thesis using two_timers_lines [of aborted_code "\<lambda>_. []" ?w4] by blast
qed

end
