(* ===== verification/Line_Server.thy ===== *)
theory Line_Server
  imports Asio_Prelude
begin

text \<open>
  The server of \<open>src/etc/dens_asyn_server.cpp\<close>: it accepts for ever, each session reads up to a newline
  once, and prints its buffer. Neither handler looks at its error. The object a handler keeps alive by
  \<open>shared_from_this\<close> is an entry of \<open>line_sessions\<close>; the stream \<open>std::cout\<close> has the state that
  inserting an empty buffer changes.
\<close>

section \<open>State\<close>

record line_session =
  is_connected :: bool          \<comment> \<open>the socket came from an accept that succeeded\<close>
  stream_buf :: string
  reading :: bool               \<comment> \<open>the read is in flight; after it the session is gone\<close>

record line_server =
  socket_ready :: bool          \<comment> \<open>\<open>socket\<close> holds a socket for the accept\<close>
  accepts_pending :: nat
  line_sessions :: "line_session list"
  cout_good :: bool
  cout_text :: "string list"

definition new_line_server :: line_server where
  "new_line_server = \<lparr>socket_ready = False, accepts_pending = 0, line_sessions = [], cout_good = True, cout_text = []\<rparr>"

text \<open>\<open>std::cout << rdbuf\<close>: a stream that is not good prints nothing; inserting nothing sets \<open>failbit\<close>.\<close>

definition insert_rdbuf :: "string \<Rightarrow> line_server \<Rightarrow> line_server" where
  "insert_rdbuf text s =
     (if cout_good s
      then if text = [] then s\<lparr>cout_good := False\<rparr> else s\<lparr>cout_text := cout_text s @ [text]\<rparr>
      else s)"

section \<open>Operations\<close>

definition line_async_accept :: "line_server \<Rightarrow> line_server" where
  "line_async_accept s = s\<lparr>socket_ready := True, accepts_pending := accepts_pending s + 1\<rparr>"

definition line_start :: "line_session \<Rightarrow> line_session" where
  "line_start x = x\<lparr>reading := True\<rparr>"

text \<open>The handler of the accept: the socket moves into a session, whatever the error.\<close>

definition line_accepted :: "error_code \<Rightarrow> line_server \<Rightarrow> line_server" where
  "line_accepted error s =
     line_async_accept (s\<lparr>line_sessions := line_sessions s @
       [line_start \<lparr>is_connected = (\<not> failed error), stream_buf = [], reading = False\<rparr>], socket_ready := False\<rparr>)"

text \<open>The handler of the read, which has put \<open>bs\<close> into the buffer; printing consumes it.\<close>

definition line_read_done :: "nat \<Rightarrow> string \<Rightarrow> line_server \<Rightarrow> line_server" where
  "line_read_done i bs s =
     (let x = line_sessions s ! i
      in insert_rdbuf (stream_buf x @ bs)
           (s\<lparr>line_sessions := (line_sessions s)[i := x\<lparr>stream_buf := [], reading := False\<rparr>]\<rparr>))"

text \<open>A read succeeds with a newline among what it got; one on a socket not connected fails empty.\<close>

inductive line_step :: "line_server \<Rightarrow> line_server \<Rightarrow> bool" where
  accepted: "0 < accepts_pending s \<Longrightarrow>
    line_step s (line_accepted error (s\<lparr>accepts_pending := accepts_pending s - 1\<rparr>))"
| read: "i < length (line_sessions s) \<Longrightarrow> reading (line_sessions s ! i) \<Longrightarrow>
    (failed error \<or> newline \<in> set bs) \<Longrightarrow> (is_connected (line_sessions s ! i) \<or> failed error \<and> bs = []) \<Longrightarrow>
    line_step s (line_read_done i bs s)"

definition line_reachable :: "line_server \<Rightarrow> bool" where
  "line_reachable s \<longleftrightarrow> line_step\<^sup>*\<^sup>* (line_async_accept new_line_server) s"

section \<open>Invariant\<close>

definition line_ok :: "line_server \<Rightarrow> bool" where
  "line_ok s \<longleftrightarrow> accepts_pending s = 1 \<and> socket_ready s \<and>
     list_all (\<lambda>x. stream_buf x = []) (line_sessions s) \<and>
     length (cout_text s) + length (filter reading (line_sessions s)) \<le> length (line_sessions s)"

lemma filter_reading_stop:
  "i < length xs \<Longrightarrow> reading (xs ! i) \<Longrightarrow> \<not> reading x \<Longrightarrow>
    Suc (length (filter reading (xs[i := x]))) = length (filter reading xs)"
proof (induction xs arbitrary: i)
  case (Cons y ys)
  then show ?case by (cases i) simp_all
qed simp

lemma line_ok_step:
  assumes ok: "line_ok s" and st: "line_step s t"
  shows "line_ok t"
  using st
proof cases
  case (accepted error)
  with ok show ?thesis
    by (simp add: line_ok_def line_accepted_def line_async_accept_def line_start_def)
next
  case (read i error bs)
  let ?x = "(line_sessions s ! i)\<lparr>stream_buf := [], reading := False\<rparr>"
  have "Suc (length (filter reading ((line_sessions s)[i := ?x]))) = length (filter reading (line_sessions s))"
    by (rule filter_reading_stop) (use read in simp_all)
  moreover have "list_all (\<lambda>x. stream_buf x = []) ((line_sessions s)[i := ?x])"
    using ok set_update_subset_insert [of "line_sessions s" i ?x] by (auto simp: line_ok_def list_all_iff)
  ultimately show ?thesis using ok read(1)
    by (auto simp: line_ok_def line_read_done_def insert_rdbuf_def Let_def)
qed

interpretation lines: invariant_system "\<lambda>s. s = line_async_accept new_line_server" line_step line_ok
  by unfold_locales (simp add: line_ok_def line_async_accept_def new_line_server_def, rule line_ok_step)

lemma line_reachable_ok: "line_reachable s \<Longrightarrow> line_ok s"
  using lines.inv_reachable unfolding line_reachable_def by blast

text \<open>
  The server never stops accepting, whatever became of the accepts and the sessions before, and no
  session prints more than once.
\<close>

theorem line_server_accepts_for_ever:
  assumes "line_reachable s"
  shows "accepts_pending s = 1 \<and> socket_ready s \<and>
    length (cout_text s) + length (filter reading (line_sessions s)) \<le> length (line_sessions s)"
  using line_reachable_ok [OF assms] by (simp add: line_ok_def)

text \<open>
  A client that leaves without sending anything silences the server: its empty buffer sets
  \<open>failbit\<close> of \<open>std::cout\<close>, and nothing any other client sends is printed after that.
\<close>

lemma silent_step: "\<not> cout_good s \<and> cout_text s = out \<Longrightarrow> line_step s t \<Longrightarrow> \<not> cout_good t \<and> cout_text t = out"
  by (erule line_step.cases)
    (auto simp: line_accepted_def line_async_accept_def line_read_done_def insert_rdbuf_def Let_def)

interpretation silent: invariant_system "\<lambda>s. \<not> cout_good s \<and> cout_text s = out" line_step
    "\<lambda>s. \<not> cout_good s \<and> cout_text s = out" for out
  by unfold_locales (assumption, rule silent_step)

text \<open>
  A client that sends nothing silences the server: once an empty buffer was inserted, nothing that
  any client sends is printed.
\<close>

theorem line_server_silenced:
  assumes "line_reachable s" "i < length (line_sessions s)" "reading (line_sessions s ! i)"
    and "line_step\<^sup>*\<^sup>* (line_read_done i [] s) t"
  shows "cout_text t = cout_text s"
proof -
  have "stream_buf (line_sessions s ! i) = []"
    using line_reachable_ok [OF assms(1)] assms(2) by (simp add: line_ok_def list_all_length)
  then have "\<not> cout_good (line_read_done i [] s) \<and> cout_text (line_read_done i [] s) = cout_text s"
    by (simp add: line_read_done_def insert_rdbuf_def Let_def)
  from silent.inv_reachable [OF this assms(4)] show ?thesis by blast
qed

text \<open>Two clients: the first leaves, the second sends a line.\<close>

definition two_lines :: line_server where
  "two_lines = line_accepted no_error ((line_accepted no_error new_line_server)\<lparr>accepts_pending := 0\<rparr>)"

lemma two_lines_reachable: "line_reachable two_lines"
proof -
  let ?s = "line_async_accept new_line_server"
  let ?a = "line_accepted no_error (?s\<lparr>accepts_pending := accepts_pending ?s - 1\<rparr>)"
  have "line_step ?s ?a"
    by (rule line_step.accepted) (simp add: line_async_accept_def)
  moreover have "line_step ?a (line_accepted no_error (?a\<lparr>accepts_pending := accepts_pending ?a - 1\<rparr>))"
    by (rule line_step.accepted) (simp add: line_accepted_def line_async_accept_def)
  moreover have "line_accepted no_error (?a\<lparr>accepts_pending := accepts_pending ?a - 1\<rparr>) = two_lines"
    by (simp add: two_lines_def line_accepted_def line_async_accept_def new_line_server_def)
  ultimately show ?thesis unfolding line_reachable_def by (metis converse_rtranclp_into_rtranclp r_into_rtranclp)
qed

lemma two_lines_sessions:
  "line_sessions two_lines = replicate 2 \<lparr>is_connected = True, stream_buf = [], reading = True\<rparr>" "cout_text two_lines = []"
  by (simp_all add: two_lines_def line_accepted_def line_async_accept_def line_start_def new_line_server_def
      numeral_2_eq_2)

theorem line_server_accepts_for_ever_witness: "accepts_pending two_lines = 1"
  using line_server_accepts_for_ever [OF two_lines_reachable] by simp

theorem line_server_silenced_witness:
  "cout_text (line_read_done 1 (''hi'' @ [newline]) (line_read_done 0 [] two_lines)) = []"
proof -
  have "line_step (line_read_done 0 [] two_lines) (line_read_done 1 (''hi'' @ [newline]) (line_read_done 0 [] two_lines))"
    by (rule line_step.read [of _ _ no_error])
      (simp_all add: line_read_done_def insert_rdbuf_def two_lines_sessions Let_def)
  then have "line_step\<^sup>*\<^sup>* (line_read_done 0 [] two_lines)
      (line_read_done 1 (''hi'' @ [newline]) (line_read_done 0 [] two_lines))" by (rule r_into_rtranclp)
  with line_server_silenced [OF two_lines_reachable, of 0] show ?thesis by (simp add: two_lines_sessions)
qed

end
