(* ===== verification/Chat_Room.thy ===== *)
theory Chat_Room
  imports Chat_Server
begin

text \<open>
  What the chat server promises its clients: a room. The specification keeps, for every session ever
  made, the messages addressed to it; joining, speaking and leaving are its steps. The server of
  theory \<open>Chat_Server\<close>, with what each session has written recorded beside it, implements it: what a
  session has written and still has to write is what the room addressed to it. So any two clients see
  the same messages in the same order from the moment both are there.
\<close>

section \<open>The specification\<close>

record room =
  members :: "nat list"
  feed :: "string list list"    \<comment> \<open>for each session, the messages addressed to it\<close>

definition empty_room :: room where
  "empty_room = \<lparr>members = [], feed = []\<rparr>"

definition addressed :: "string \<Rightarrow> nat list \<Rightarrow> string list list \<Rightarrow> string list list" where
  "addressed m is fs = map (\<lambda>(i, f). if i \<in> set is then f @ [m] else f) (enumerate 0 fs)"

definition greeting :: string where "greeting = ''Welcome to chat'' @ crlf"
definition newcomer :: string where "newcomer = ''We have a newcomer'' @ crlf"
definition one_less :: string where "one_less = ''We are one less'' @ crlf"

inductive room_step :: "room \<Rightarrow> room \<Rightarrow> bool" where
  joins: "room_step r (r\<lparr>members := members r @ [length (feed r)],
    feed := addressed newcomer (members r) (feed r) @ [[greeting]]\<rparr>)"
| speaks: "room_step r (r\<lparr>feed := addressed m (members r) (feed r)\<rparr>)"
| leaves: "i \<in> set (members r) \<Longrightarrow>
    room_step r (r\<lparr>members := remove1 i (members r), feed := addressed one_less (remove1 i (members r)) (feed r)\<rparr>)"

lemma addressed_length [simp]: "length (addressed m is fs) = length fs"
  by (simp add: addressed_def)

lemma addressed_nth [simp]: "i < length fs \<Longrightarrow> addressed m is fs ! i = (if i \<in> set is then fs ! i @ [m] else fs ! i)"
  by (simp add: addressed_def nth_enumerate_eq)

text \<open>
  Members that are together in the room have seen the same since the later one came: after its
  greeting, everything it was told is the end of what the earlier one was told.
\<close>

definition room_ok :: "room \<Rightarrow> bool" where
  "room_ok r \<longleftrightarrow> distinct (members r) \<and> (\<forall>i \<in> set (members r). i < length (feed r)) \<and>
     (\<forall>i < length (feed r). \<exists>f. feed r ! i = greeting # f) \<and>
     (\<forall>i \<in> set (members r). \<forall>j \<in> set (members r). i < j \<longrightarrow> suffix (tl (feed r ! j)) (feed r ! i))"

lemma room_okD:
  assumes "room_ok r"
  shows "distinct (members r)" "i \<in> set (members r) \<Longrightarrow> i < length (feed r)"
    "i < length (feed r) \<Longrightarrow> \<exists>f. feed r ! i = greeting # f"
    "i \<in> set (members r) \<Longrightarrow> j \<in> set (members r) \<Longrightarrow> i < j \<Longrightarrow> suffix (tl (feed r ! j)) (feed r ! i)"
  using assms by (auto simp: room_ok_def)

lemma suffix_snoc_same: "suffix xs ys \<Longrightarrow> suffix (xs @ [m]) (ys @ [m])"
  by (auto simp: suffix_def)

lemma room_ok_addressed:
  assumes "room_ok r" "distinct is" "set is \<subseteq> set (members r)"
  shows "room_ok (r\<lparr>members := is, feed := addressed m is (feed r)\<rparr>)"
proof -
  note ok = room_okD [OF assms(1)]
  have "\<exists>f. addressed m is (feed r) ! i = greeting # f" if "i < length (feed r)" for i
    using ok(3) [OF that] that by auto
  moreover have "suffix (tl (addressed m is (feed r) ! j)) (addressed m is (feed r) ! i)"
    if "i \<in> set is" "j \<in> set is" "i < j" for i j
  proof -
    have ij: "i \<in> set (members r)" "j \<in> set (members r)" using that assms(3) by auto
    from ok(3) [OF ok(2) [OF ij(2)]] obtain f where f: "feed r ! j = greeting # f" by blast
    from ok(4) [OF ij that(3)] f have "suffix (f @ [m]) (feed r ! i @ [m])" by (simp add: suffix_snoc_same)
    then show ?thesis using f ok(2) [OF ij(1)] ok(2) [OF ij(2)] that by simp
  qed
  ultimately show ?thesis using assms ok(2) by (auto simp: room_ok_def)
qed

lemma room_ok_step:
  assumes "room_ok r" "room_step r r'"
  shows "room_ok r'"
  using assms(2)
proof cases
  case joins
  let ?fs = "addressed newcomer (members r) (feed r)" and ?n = "length (feed r)"
  have "room_ok (r\<lparr>members := members r, feed := ?fs\<rparr>)"
    by (rule room_ok_addressed [OF assms(1)]) (use room_okD(1) [OF assms(1)] in simp_all)
  note ok = room_okD [OF this, simplified]
  have "suffix (tl ((?fs @ [[greeting]]) ! j)) ((?fs @ [[greeting]]) ! i)"
    if "i \<in> insert ?n (set (members r))" "j \<in> insert ?n (set (members r))" "i < j" for i j
  proof (cases "j = ?n")
    case True
    then show ?thesis by (simp add: nth_append)
  next
    case False
    then show ?thesis using that ok(2) [of j] ok(2) [of i] ok(4) [of i j] by (auto simp: nth_append)
  qed
  moreover have "\<exists>f. (?fs @ [[greeting]]) ! i = greeting # f" if "i < Suc ?n" for i
    using ok(3) [of i] that by (cases "i = ?n") (auto simp: nth_append less_Suc_eq)
  ultimately show ?thesis using joins ok(1,2) by (fastforce simp: room_ok_def less_Suc_eq)
next
  case (speaks m)
  with room_ok_addressed [OF assms(1), of "members r" m] room_okD(1) [OF assms(1)] show ?thesis by simp
next
  case (leaves i)
  with room_ok_addressed [OF assms(1), of "remove1 i (members r)" one_less] room_okD(1) [OF assms(1)]
  show ?thesis by (auto dest: notin_set_remove1)
qed

interpretation room: invariant_system "\<lambda>r. r = empty_room" room_step room_ok
  by unfold_locales (simp add: empty_room_def room_ok_def, rule room_ok_step)

section \<open>The server, watched\<close>

record watched =
  chat :: chat_server
  written :: "string list list"    \<comment> \<open>for each session, the messages whose writes succeeded\<close>

definition watch_start :: watched where
  "watch_start = \<lparr>chat = chat_start, written = []\<rparr>"

text \<open>The handlers of the server; on every execution they end without a fault (\<open>chat_write_discipline\<close>).\<close>

inductive watched_step :: "watched \<Rightarrow> watched \<Rightarrow> bool" where
  accept: "accepting (chat w) \<Longrightarrow> on_accept ec (chat w) = Inr s \<Longrightarrow>
    watched_step w (w\<lparr>chat := s, written := written w @ [[]]\<rparr>)"
| read: "op_pending i Read_op (chat w) \<Longrightarrow> on_read i ec peer bs (finish_op i Read_op (chat w)) = Inr s \<Longrightarrow>
    watched_step w (w\<lparr>chat := s\<rparr>)"
| wrote: "op_pending i (Write_op m) (chat w) \<Longrightarrow> on_write i ec (finish_op i (Write_op m) (chat w)) = Inr s \<Longrightarrow>
    watched_step w (w\<lparr>chat := s, written := (if failed ec then written w else (written w)[i := written w ! i @ [m]])\<rparr>)"

definition watched_reachable :: "watched \<Rightarrow> bool" where
  "watched_reachable w \<longleftrightarrow> watched_step\<^sup>*\<^sup>* watch_start w"

lemma watched_step_chat: "watched_step w v \<Longrightarrow> chat_step (Inr (chat w)) (Inr (chat v))"
  by (erule watched_step.cases) (metis chat_step.intros watched.select_convs watched.surjective
      watched.update_convs)+

section \<open>What the handlers do to the queues\<close>

definition queues :: "chat_server \<Rightarrow> string list list" where
  "queues s = map outgoing (chat_sessions s)"

lemma queues_length [simp]: "length (queues s) = length (chat_sessions s)"
  by (simp add: queues_def)

lemma queues_update:
  "queues (s\<lparr>chat_sessions := (chat_sessions s)[i := c]\<rparr>) = (queues s)[i := outgoing c]"
  by (simp add: queues_def map_update)

lemma queues_same: "outgoing c = outgoing (chat_sessions s ! i) \<Longrightarrow> (queues s)[i := outgoing c] = queues s"
  by (cases "i < length (chat_sessions s)") (simp_all add: queues_def list_update_same_conv list_update_beyond)

lemma server_post_queues:
  assumes "distinct (clients s)" "list_all (\<lambda>i. i < length (chat_sessions s)) (clients s)"
    and "server_post m s = Inr s'"
  shows "queues s' = addressed m (clients s) (queues s) \<and> clients s' = clients s"
proof -
  from post_each_eq [OF assms(1,2), of m] assms(3) have s': "clients s' = clients s"
    "length (chat_sessions s') = length (chat_sessions s)"
    "\<forall>i < length (chat_sessions s). chat_sessions s' ! i =
      (if i \<in> set (clients s) then posted_to m (chat_sessions s ! i) else chat_sessions s ! i)"
    by (auto simp: server_post_def)
  then have "queues s' = addressed m (clients s) (queues s)"
    by (intro nth_equalityI) (simp_all add: queues_def)
  then show ?thesis using s'(1) by simp
qed

lemma on_error_queues:
  assumes "distinct (clients s)" "list_all (\<lambda>i. i < length (chat_sessions s)) (clients s)"
    and "on_error i s = Inr s'"
  shows "clients s' = remove1 i (clients s) \<and>
    queues s' = (if i \<in> set (clients s) then addressed one_less (remove1 i (clients s)) (queues s) else queues s)"
proof (cases "i \<in> set (clients s)")
  case True
  let ?s = "s\<lparr>clients := remove1 i (clients s)\<rparr>"
  have "list_all (\<lambda>i. i < length (chat_sessions ?s)) (clients ?s)"
    using assms(2) by (auto simp: list_all_iff dest: notin_set_remove1)
  from server_post_queues [OF _ this, of one_less s'] True assms(1,3) show ?thesis
    by (simp add: on_error_def one_less_def queues_def)
next
  case False
  then show ?thesis using assms(3) by (simp add: on_error_def remove1_idem)
qed

section \<open>The simulation\<close>

definition room_of :: "watched \<Rightarrow> room" where
  "room_of w = \<lparr>members = clients (chat w), feed = map2 (@) (written w) (queues (chat w))\<rparr>"

definition in_room :: "watched \<Rightarrow> room \<Rightarrow> bool" where
  "in_room w r \<longleftrightarrow> chat_ok (chat w) \<and> length (written w) = length (chat_sessions (chat w)) \<and> r = room_of w"

lemma map2_addressed:
  "length ws = length qs \<Longrightarrow> map2 (@) ws (addressed m is qs) = addressed m is (map2 (@) ws qs)"
  by (rule nth_equalityI) simp_all

lemma chat_okD:
  "chat_ok s \<Longrightarrow> distinct (clients s)" "chat_ok s \<Longrightarrow> list_all (\<lambda>i. i < length (chat_sessions s)) (clients s)"
  by (simp_all add: chat_ok_def)

lemma finish_op_queues [simp]:
  "queues (finish_op i p s) = queues s" "clients (finish_op i p s) = clients s"
  "length (chat_sessions (finish_op i p s)) = length (chat_sessions s)"
  by (simp_all add: finish_op_def queues_update queues_same)

text \<open>A session that leaves, or has left already.\<close>

lemma error_simulated:
  assumes ok: "chat_ok (chat w)" "length (written w) = length (chat_sessions (chat w))"
    and s: "queues s = queues (chat w)" "clients s = clients (chat w)"
    and e: "on_error i s = Inr s'" and ok': "chat_ok s'"
  shows "\<exists>r. room_step\<^sup>*\<^sup>* (room_of w) r \<and> in_room (w\<lparr>chat := s'\<rparr>) r"
proof -
  have len: "length (chat_sessions s) = length (chat_sessions (chat w))"
    using arg_cong [OF s(1), of length] by simp
  have eff: "clients s' = remove1 i (clients s)"
    "queues s' = (if i \<in> set (clients s) then addressed one_less (remove1 i (clients s)) (queues s) else queues s)"
    using on_error_queues [OF _ _ e] chat_okD [OF ok(1)] s(2) len by simp_all
  have "length (queues s') = length (queues s)" unfolding eff(2) by simp
  then have in': "in_room (w\<lparr>chat := s'\<rparr>) (room_of (w\<lparr>chat := s'\<rparr>))"
    using ok(2) ok' len by (simp add: in_room_def)
  show ?thesis
  proof (cases "i \<in> set (clients s)")
    case True
    then have "room_step (room_of w) (room_of (w\<lparr>chat := s'\<rparr>))"
      using room_step.leaves [of i "room_of w"] s eff ok(2) by (simp add: room_of_def map2_addressed)
    with in' show ?thesis by blast
  next
    case False
    then have "room_of (w\<lparr>chat := s'\<rparr>) = room_of w" using s eff by (simp add: room_of_def remove1_idem)
    with in' show ?thesis by auto
  qed
qed

lemma read_simulated:
  assumes ok: "chat_ok (chat w)" "length (written w) = length (chat_sessions (chat w))"
    and p: "op_pending i Read_op (chat w)" and r: "on_read i ec peer bs (finish_op i Read_op (chat w)) = Inr s'"
    and ok': "chat_ok s'"
  shows "\<exists>r. room_step\<^sup>*\<^sup>* (room_of w) r \<and> in_room (w\<lparr>chat := s'\<rparr>) r"
proof (cases "failed ec")
  case True
  let ?f = "finish_op i Read_op (chat w)"
  let ?c = "(chat_sessions ?f ! i)\<lparr>streambuf := streambuf (chat_sessions ?f ! i) @ bs, socket_open := False\<rparr>"
  have "on_error i (?f\<lparr>chat_sessions := (chat_sessions ?f)[i := ?c]\<rparr>) = Inr s'"
    using r True by (simp add: on_read_def Let_def)
  moreover have "queues (?f\<lparr>chat_sessions := (chat_sessions ?f)[i := ?c]\<rparr>) = queues (chat w)"
    unfolding queues_update using queues_same [of ?c ?f i] by simp
  ultimately show ?thesis using error_simulated [OF ok _ _ _ ok'] by simp
next
  case False
  let ?f = "finish_op i Read_op (chat w)"
  let ?m = "peer @ '': '' @ streambuf (chat_sessions ?f ! i) @ bs"
  let ?s = "?f\<lparr>chat_sessions := (chat_sessions ?f)[i := (chat_sessions ?f ! i)\<lparr>streambuf := []\<rparr>]\<rparr>"
  obtain s2 where s2: "server_post ?m ?s = Inr s2"
    "s' = s2\<lparr>chat_sessions := (chat_sessions s2)[i := async_read (chat_sessions s2 ! i)]\<rparr>"
    using r False by (auto simp: on_read_def Let_def rbind_Inr_iff)
  have q: "queues ?s = queues (chat w)"
    unfolding queues_update using queues_same [of "(chat_sessions ?f ! i)\<lparr>streambuf := []\<rparr>" ?f i] by simp
  have "queues s2 = addressed ?m (clients (chat w)) (queues (chat w)) \<and> clients s2 = clients (chat w)"
    using server_post_queues [OF _ _ s2(1)] chat_okD [OF ok(1)] q by simp
  moreover have "queues s' = queues s2" unfolding s2(2) queues_update by (simp add: queues_same async_read_def)
  moreover have "clients s' = clients s2" by (simp add: s2(2))
  ultimately have eff: "queues s' = addressed ?m (clients (chat w)) (queues (chat w))" "clients s' = clients (chat w)"
    by simp_all
  have "length (queues s') = length (queues (chat w))" unfolding eff(1) by simp
  then have "in_room (w\<lparr>chat := s'\<rparr>) (room_of (w\<lparr>chat := s'\<rparr>))" using ok(2) ok' by (simp add: in_room_def)
  moreover have "room_step (room_of w) (room_of (w\<lparr>chat := s'\<rparr>))"
    using room_step.speaks [of "room_of w" ?m] eff ok(2) by (simp add: room_of_def map2_addressed)
  ultimately show ?thesis by blast
qed

text \<open>A write that succeeded takes the message off the queue, and the room has addressed nothing to anyone.\<close>

lemma write_effect:
  assumes ok: "chat_ok (chat w)" "length (written w) = length (chat_sessions (chat w))"
    and p: "op_pending i (Write_op m) (chat w)" and r: "on_write i ec (finish_op i (Write_op m) (chat w)) = Inr s'"
    and ec: "\<not> failed ec"
  shows "\<exists>rest. queues (chat w) ! i = m # rest \<and> queues s' = (queues (chat w))[i := rest]"
    "clients s' = clients (chat w)"
    "room_of (w\<lparr>chat := s', written := (written w)[i := written w ! i @ [m]]\<rparr>) = room_of w"
proof -
  let ?f = "finish_op i (Write_op m) (chat w)"
  have i: "i < length (chat_sessions (chat w))" using p by (simp add: op_pending_def)
  obtain rest where out: "outgoing (chat_sessions (chat w) ! i) = m # rest"
    using session_ok_in_flight [OF chat_ok_session [OF ok(1) i], of m] p by (auto simp: op_pending_def)
  have o: "outgoing (chat_sessions ?f ! i) = m # rest" using out i by (simp add: finish_op_def)
  obtain c where c: "s' = ?f\<lparr>chat_sessions := (chat_sessions ?f)[i := c]\<rparr>" "outgoing c = rest"
    using r ec o
    by (auto simp: on_write_def with_session_def async_write_def Let_def rbind_Inr_iff split: if_splits list.splits)
  have q: "queues s' = (queues (chat w))[i := rest]" unfolding c(1) queues_update by (simp add: c(2))
  have qi: "queues (chat w) ! i = m # rest" using i out by (simp add: queues_def)
  show "\<exists>rest. queues (chat w) ! i = m # rest \<and> queues s' = (queues (chat w))[i := rest]" using q qi by blast
  show "clients s' = clients (chat w)" by (simp add: c(1))
  have "map2 (@) ((written w)[i := written w ! i @ [m]]) ((queues (chat w))[i := rest]) =
      map2 (@) (written w) (queues (chat w))"
    by (rule nth_equalityI) (auto simp: nth_update_if ok(2) qi)
  then show "room_of (w\<lparr>chat := s', written := (written w)[i := written w ! i @ [m]]\<rparr>) = room_of w"
    using q c(1) by (simp add: room_of_def)
qed

lemma write_simulated:
  assumes ok: "chat_ok (chat w)" "length (written w) = length (chat_sessions (chat w))"
    and p: "op_pending i (Write_op m) (chat w)" and r: "on_write i ec (finish_op i (Write_op m) (chat w)) = Inr s'"
    and ok': "chat_ok s'"
  shows "\<exists>r. room_step\<^sup>*\<^sup>* (room_of w) r \<and>
    in_room (w\<lparr>chat := s', written := (if failed ec then written w else (written w)[i := written w ! i @ [m]])\<rparr>) r"
proof (cases "failed ec")
  case True
  let ?f = "finish_op i (Write_op m) (chat w)"
  let ?c = "(chat_sessions ?f ! i)\<lparr>socket_open := False\<rparr>"
  have "on_error i (?f\<lparr>chat_sessions := (chat_sessions ?f)[i := ?c]\<rparr>) = Inr s'"
    using r True by (simp add: on_write_def Let_def)
  moreover have "queues (?f\<lparr>chat_sessions := (chat_sessions ?f)[i := ?c]\<rparr>) = queues (chat w)"
    unfolding queues_update using queues_same [of ?c ?f i] by simp
  ultimately have "\<exists>r. room_step\<^sup>*\<^sup>* (room_of w) r \<and> in_room (w\<lparr>chat := s'\<rparr>) r"
    using error_simulated [OF ok _ _ _ ok'] by simp
  then show ?thesis using True by simp
next
  case False
  let ?v = "w\<lparr>chat := s', written := (written w)[i := written w ! i @ [m]]\<rparr>"
  note e = write_effect [OF ok p r False]
  then obtain rest where "queues s' = (queues (chat w))[i := rest]" by blast
  then have "length (queues s') = length (queues (chat w))" by (simp del: queues_length)
  then have "in_room ?v (room_of ?v)" using ok(2) ok' by (simp add: in_room_def)
  then show ?thesis using False e(3) by auto
qed

lemma accept_simulated:
  assumes ok: "chat_ok (chat w)" "length (written w) = length (chat_sessions (chat w))"
    and r: "on_accept ec (chat w) = Inr s'" and ok': "chat_ok s'"
  shows "\<exists>r. room_step\<^sup>*\<^sup>* (room_of w) r \<and> in_room (w\<lparr>chat := s', written := written w @ [[]]\<rparr>) r"
proof -
  let ?s = "chat w" and ?n = "length (chat_sessions (chat w))"
  let ?c = "posted_to greeting (new_chat_session (\<not> failed ec))"
  let ?s2 = "?s\<lparr>chat_sessions := chat_sessions ?s @ [?c], accepting := False\<rparr>"
  have w1: "with_session ?n (session_post greeting) (?s\<lparr>chat_sessions := chat_sessions ?s @ [new_chat_session (\<not> failed ec)],
      accepting := False\<rparr>) = Inr ?s2"
    by (simp add: with_session_def session_post_eq)
  have "rbind (server_post newcomer ?s2) (\<lambda>s3. Inr (s3\<lparr>clients := clients s3 @ [?n],
      chat_sessions := (chat_sessions s3)[?n := async_read (chat_sessions s3 ! ?n)], accepting := True\<rparr>)) = Inr s'"
    using r w1 by (simp add: on_accept_def Let_def greeting_def newcomer_def)
  then obtain s3 where s3: "server_post newcomer ?s2 = Inr s3"
    "s' = s3\<lparr>clients := clients s3 @ [?n],
       chat_sessions := (chat_sessions s3)[?n := async_read (chat_sessions s3 ! ?n)], accepting := True\<rparr>"
    by (elim rbind_InrE) simp
  have q2: "queues ?s2 = queues ?s @ [[greeting]]" by (simp add: queues_def new_chat_session_def)
  have d: "distinct (clients ?s2)" "list_all (\<lambda>i. i < length (chat_sessions ?s2)) (clients ?s2)"
    using chat_okD [OF ok(1)] by (auto simp: list_all_iff)
  have nin: "?n \<notin> set (clients ?s)" using chat_okD(2) [OF ok(1)] by (auto simp: list_all_iff)
  have e: "queues s3 = addressed newcomer (clients ?s) (queues ?s @ [[greeting]])" "clients s3 = clients ?s"
    using server_post_queues [OF d s3(1)] q2 by simp_all
  have q: "queues s' = queues s3" using queues_update [of s3 ?n "async_read (chat_sessions s3 ! ?n)"]
      queues_same [of "async_read (chat_sessions s3 ! ?n)" s3 ?n]
    by (simp add: s3(2) queues_def async_read_def)
  have a: "addressed newcomer (clients ?s) (queues ?s @ [[greeting]]) = addressed newcomer (clients ?s) (queues ?s) @ [[greeting]]"
    by (rule nth_equalityI) (auto simp: nth_append nin less_Suc_eq)
  let ?v = "w\<lparr>chat := s', written := written w @ [[]]\<rparr>"
  have "room_of ?v = \<lparr>members = clients ?s @ [?n],
      feed = addressed newcomer (clients ?s) (map2 (@) (written w) (queues ?s)) @ [[greeting]]\<rparr>"
    using q e a ok(2) s3(2) by (simp add: room_of_def map2_addressed)
  then have "room_step (room_of w) (room_of ?v)"
    using room_step.joins [of "room_of w"] ok(2) by (simp add: room_of_def)
  moreover have "length (queues s') = Suc ?n" unfolding q e(1) by simp
  then have "in_room ?v (room_of ?v)" using ok(2) ok' by (simp add: in_room_def)
  ultimately show ?thesis by blast
qed

interpretation chat_room: simulation "\<lambda>w. w = watch_start" watched_step "\<lambda>r. r = empty_room" room_step in_room
proof unfold_locales
  show "w = watch_start \<Longrightarrow> \<exists>r. r = empty_room \<and> in_room w r" for w
    by (simp add: in_room_def room_of_def watch_start_def chat_start_def empty_room_def chat_ok_def queues_def)
next
  fix w r v
  assume rel: "in_room w r" and st: "watched_step w v"
  then have ok: "chat_ok (chat w)" "length (written w) = length (chat_sessions (chat w))" "r = room_of w"
    by (simp_all add: in_room_def)
  have ok': "chat_ok (chat v)"
    using chat_side_step [OF _ watched_step_chat [OF st]] ok(1) by (simp add: chat_side_def)
  from st show "\<exists>r'. room_step\<^sup>*\<^sup>* r r' \<and> in_room v r'"
    by cases (use ok ok' in \<open>simp_all add: accept_simulated read_simulated write_simulated\<close>)
qed

section \<open>Catching up\<close>

text \<open>Only writes complete, without an error.\<close>

inductive delivers_next :: "watched \<Rightarrow> watched \<Rightarrow> bool" where
  delivered: "op_pending i (Write_op m) (chat w) \<Longrightarrow> \<not> failed ec \<Longrightarrow>
    on_write i ec (finish_op i (Write_op m) (chat w)) = Inr s \<Longrightarrow>
    delivers_next w (w\<lparr>chat := s, written := (written w)[i := written w ! i @ [m]]\<rparr>)"

definition backlog :: "watched \<Rightarrow> nat" where
  "backlog w = sum_list (map length (queues (chat w)))"

definition watched_ok :: "watched \<Rightarrow> bool" where
  "watched_ok w \<longleftrightarrow> chat_ok (chat w) \<and> length (written w) = length (chat_sessions (chat w))"

lemma delivers_effect:
  assumes ok: "watched_ok w" and st: "delivers_next w v"
  shows "watched_ok v" "backlog v < backlog w" "room_of v = room_of w"
proof -
  from st obtain i m ec s where v: "op_pending i (Write_op m) (chat w)" "\<not> failed ec"
    "on_write i ec (finish_op i (Write_op m) (chat w)) = Inr s"
    "v = w\<lparr>chat := s, written := (written w)[i := written w ! i @ [m]]\<rparr>" by cases
  have o: "chat_ok (chat w)" "length (written w) = length (chat_sessions (chat w))" using ok by (simp_all add: watched_ok_def)
  note e = write_effect [OF o v(1,3,2)]
  then obtain rest where q: "queues (chat w) ! i = m # rest" "queues s = (queues (chat w))[i := rest]" by blast
  have "i < length (queues (chat w))" using v(1) by (simp add: op_pending_def)
  then show "backlog v < backlog w"
    using sum_list_decrease [of i "queues (chat w)" length rest] q by (simp add: backlog_def v(4))
  show "room_of v = room_of w" using e(3) by (simp add: v(4))
  show "watched_ok v" using on_write_ok [OF o(1) v(1), of ec] v(2-4) o(2) by (auto simp: watched_ok_def)
qed

interpretation catching_up: terminating_system delivers_next watched_ok backlog
  by unfold_locales (rule delivers_effect(1,2), assumption+)+

lemma catching_up_room: "(delivers_next ^^ n) w v \<Longrightarrow> watched_ok w \<Longrightarrow> room_of v = room_of w"
proof (induction n arbitrary: v)
  case (Suc n)
  then obtain u where u: "(delivers_next ^^ n) w u" "delivers_next u v" by auto
  with Suc.prems(2) have "watched_ok u" using catching_up.steps_bounded by blast
  with u Suc delivers_effect(3) show ?case by metis
qed simp

text \<open>A client that waits for a message has its write in flight.\<close>

lemma nothing_to_deliver:
  assumes ok: "watched_ok w" and stuck: "\<not> (\<exists>v. delivers_next w v)" and i: "i \<in> set (clients (chat w))"
  shows "outgoing (chat_sessions (chat w) ! i) = []"
proof (cases "outgoing (chat_sessions (chat w) ! i)")
  case (Cons m rest)
  have o: "chat_ok (chat w)" using ok by (simp add: watched_ok_def)
  then have len: "i < length (chat_sessions (chat w))" using i by (simp add: chat_ok_def list_all_iff)
  from chat_ok_session [OF o len] i Cons
  have "Write_op m \<in> set (filter is_write_op (started_ops (chat_sessions (chat w) ! i)))" by (simp add: session_ok_def)
  then have p: "op_pending i (Write_op m) (chat w)" using len by (simp add: op_pending_def)
  from on_write_ok [OF o p, of no_error] obtain s where
    "on_write i no_error (finish_op i (Write_op m) (chat w)) = Inr s" by blast
  with stuck p show ?thesis using delivers_next.delivered not_failed_no_error by blast
qed

section \<open>Properties\<close>

lemma watched_reachable_room:
  assumes "watched_reachable w"
  shows "room_step\<^sup>*\<^sup>* empty_room (room_of w)" "in_room w (room_of w)"
proof -
  from chat_room.rel_reachable [OF refl] assms have "\<exists>r. room_step\<^sup>*\<^sup>* empty_room r \<and> in_room w r"
    unfolding watched_reachable_def by blast
  then obtain r where "room_step\<^sup>*\<^sup>* empty_room r" "in_room w r" by blast
  then show "room_step\<^sup>*\<^sup>* empty_room (room_of w)" "in_room w (room_of w)" by (simp_all add: in_room_def)
qed

lemma room_of_feed:
  "in_room w r \<Longrightarrow> i < length (chat_sessions (chat w)) \<Longrightarrow>
    feed r ! i = written w ! i @ outgoing (chat_sessions (chat w) ! i)"
  by (simp add: in_room_def room_of_def queues_def)

text \<open>
  C10: The chat server implements the room: on every execution its clients are the members of a room
  that took steps of the specification only, and what a session has written, followed by what is in
  its queue, is exactly what the room addressed to it, for sessions that left as well.
\<close>

theorem chat_implements_room:
  assumes "watched_reachable w"
  shows "\<exists>r. room_step\<^sup>*\<^sup>* empty_room r \<and> members r = clients (chat w) \<and>
    feed r = map2 (\<lambda>ms c. ms @ outgoing c) (written w) (chat_sessions (chat w))"
proof -
  have "map2 (@) (written w) (queues (chat w)) = map2 (\<lambda>ms c. ms @ outgoing c) (written w) (chat_sessions (chat w))"
    by (rule nth_equalityI) (simp_all add: queues_def)
  then show ?thesis using watched_reachable_room(1) [OF assms] by (auto simp: room_of_def)
qed

text \<open>
  C16: Clients agree on the conversation: of two that are both connected, the one that came later was
  greeted first, and everything it was told since is the end of what the other was told.
\<close>

theorem chat_clients_agree:
  assumes "watched_reachable w" "i \<in> set (clients (chat w))" "j \<in> set (clients (chat w))" "i < j"
  shows "\<exists>heard. written w ! j @ outgoing (chat_sessions (chat w) ! j) = greeting # heard \<and>
    suffix heard (written w ! i @ outgoing (chat_sessions (chat w) ! i))"
proof -
  note r = watched_reachable_room [OF assms(1)]
  note ok = room_okD [OF room.inv_reachable [OF refl r(1)]]
  have m: "members (room_of w) = clients (chat w)" by (simp add: room_of_def)
  have "i < length (chat_sessions (chat w))" "j < length (chat_sessions (chat w))"
    using r(2) assms(2,3) by (auto simp: in_room_def chat_ok_def list_all_iff)
  note feeds = room_of_feed [OF r(2) this(1)] room_of_feed [OF r(2) this(2)]
  from ok(3) ok(2) assms(3) m obtain heard where h: "feed (room_of w) ! j = greeting # heard" by metis
  have "suffix (tl (feed (room_of w) ! j)) (feed (room_of w) ! i)" using ok(4) [of i j] assms(2-4) m by simp
  then show ?thesis using h by (intro exI [of _ heard]) (simp add: feeds [symmetric])
qed

text \<open>
  C11: Everyone catches up: when nobody joins, speaks or fails any more, at most \<open>backlog\<close> further writes
  complete, and then every client has been sent all the room addressed to it: what it had been sent
  before and what was in its queue.
\<close>

theorem chat_catches_up:
  assumes "watched_reachable w" "(delivers_next ^^ n) w v"
  shows "n \<le> backlog w \<and> clients (chat v) = clients (chat w) \<and> ((\<exists>u. delivers_next v u) \<or>
    (\<forall>i \<in> set (clients (chat w)). written v ! i = written w ! i @ outgoing (chat_sessions (chat w) ! i)))"
proof -
  have r: "in_room w (room_of w)" using watched_reachable_room(2) [OF assms(1)] .
  then have w: "watched_ok w" by (simp add: watched_ok_def in_room_def)
  from catching_up.steps_bounded [OF assms(2) w] have v: "watched_ok v" and n: "n \<le> backlog w" by simp_all
  have same: "room_of v = room_of w" by (rule catching_up_room [OF assms(2) w])
  then have c: "clients (chat v) = clients (chat w)" by (simp add: room_of_def)
  have rv: "in_room v (room_of v)" using v by (simp add: watched_ok_def in_room_def)
  have "written v ! i = written w ! i @ outgoing (chat_sessions (chat w) ! i)"
    if stuck: "\<not> (\<exists>u. delivers_next v u)" and i: "i \<in> set (clients (chat w))" for i
  proof -
    have "i < length (chat_sessions (chat w))" "i < length (chat_sessions (chat v))"
      using w v i c by (simp_all add: watched_ok_def chat_ok_def list_all_iff)
    with room_of_feed [OF r] room_of_feed [OF rv] same nothing_to_deliver [OF v stuck] i c show ?thesis by fastforce
  qed
  with n c show ?thesis by blast
qed

text \<open>Two clients join, and the first one says something.\<close>

definition chatted :: chat_server where
  "chatted = (case on_read 0 no_error ''a'' ''hi'' (finish_op 0 Read_op chat_room) of Inr s \<Rightarrow> s | Inl _ \<Rightarrow> chat_start)"

lemma chatted_run: "on_read 0 no_error ''a'' ''hi'' (finish_op 0 Read_op chat_room) = Inr chatted"
proof -
  have "chat_ok chat_room" using chat_reachable_ok [OF chat_room_reachable] by simp
  from on_read_ok [OF finish_read_ok [OF this], of 0 0 no_error "''a''" "''hi''"] show ?thesis
    by (auto simp: chatted_def chat_room_facts)
qed

lemma chatted_facts:
  "clients chatted = [0, 1]"
  "map outgoing (chat_sessions chatted) = [[greeting, newcomer, ''a: hi''], [greeting, ''a: hi'']]"
  by (simp_all add: chatted_def chat_room_def two_chatters_def on_accept_def on_read_def finish_op_def chat_start_def
      new_chat_session_def server_post_def with_session_def session_post_def async_write_def async_read_def
      greeting_def newcomer_def Let_def)

lemma chatted_reachable: "watched_reachable \<lparr>chat = chatted, written = [[], []]\<rparr>"
proof -
  obtain s where s: "on_accept no_error chat_start = Inr s" "chat_ok s" "accepting s"
    by (simp add: on_accept_def chat_start_def new_chat_session_def chat_ok_def session_ok_def
      server_post_def with_session_def session_post_def async_write_def async_read_def Let_def)
  obtain t where t: "on_accept no_error s = Inr t" using on_accept_ok [OF s(2)] by blast
  have "watched_step watch_start \<lparr>chat = s, written = [[]]\<rparr>"
    using watched_step.accept [of watch_start no_error s] s(1) by (simp add: watch_start_def chat_start_def)
  moreover have "watched_step \<lparr>chat = s, written = [[]]\<rparr> \<lparr>chat = chat_room, written = [[], []]\<rparr>"
    using watched_step.accept [of "\<lparr>chat = s, written = [[]]\<rparr>" no_error t] s(3) t chat_room_eq [OF s(1) t] by simp
  moreover have "op_pending 0 Read_op chat_room" by (simp add: op_pending_def chat_room_facts)
  then have "watched_step \<lparr>chat = chat_room, written = [[], []]\<rparr> \<lparr>chat = chatted, written = [[], []]\<rparr>"
    using watched_step.read [of 0 "\<lparr>chat = chat_room, written = [[], []]\<rparr>" no_error "''a''" "''hi''" chatted] chatted_run
    by simp
  ultimately show ?thesis unfolding watched_reachable_def
    by (meson converse_rtranclp_into_rtranclp rtranclp.rtrancl_refl)
qed

theorem chat_implements_room_witness:
  "\<exists>r. room_step\<^sup>*\<^sup>* empty_room r \<and> members r = [0, 1] \<and> feed r ! 1 = [greeting, ''a: hi'']"
proof -
  obtain x y where xy: "chat_sessions chatted = [x, y]" "outgoing y = [greeting, ''a: hi'']"
    using chatted_facts(2) by (auto simp: map_eq_Cons_conv)
  from chat_implements_room [OF chatted_reachable] show ?thesis using xy by (auto simp: chatted_facts(1))
qed

theorem chat_clients_agree_witness:
  "suffix [''a: hi''] [greeting, newcomer, ''a: hi'']"
proof -
  obtain x y where xy: "chat_sessions chatted = [x, y]" "outgoing y = [greeting, ''a: hi'']"
    "outgoing x = [greeting, newcomer, ''a: hi'']"
    using chatted_facts(2) by (auto simp: map_eq_Cons_conv)
  from chat_clients_agree [OF chatted_reachable, of 0 1] show ?thesis
    using xy by (simp add: chatted_facts(1))
qed

theorem chat_catches_up_witness:
  "\<exists>n v. (delivers_next ^^ n) \<lparr>chat = chatted, written = [[], []]\<rparr> v \<and> n \<le> 5 \<and>
     written v ! 0 = [greeting, newcomer, ''a: hi''] \<and> written v ! 1 = [greeting, ''a: hi'']"
proof -
  let ?w = "\<lparr>chat = chatted, written = [[], []]\<rparr>"
  obtain x y where xy: "chat_sessions chatted = [x, y]" "outgoing y = [greeting, ''a: hi'']"
    "outgoing x = [greeting, newcomer, ''a: hi'']"
    using chatted_facts(2) by (auto simp: map_eq_Cons_conv)
  have "watched_ok ?w" using watched_reachable_room(2) [OF chatted_reachable] by (simp add: watched_ok_def in_room_def)
  then obtain n v where v: "(delivers_next ^^ n) ?w v" "\<not> (\<exists>u. delivers_next v u)" using catching_up.run_to_end by blast
  from chat_catches_up [OF chatted_reachable v(1)] v(2) xy show ?thesis
    by (intro exI [of _ n] exI [of _ v]) (simp add: v(1) chatted_facts(1) backlog_def queues_def)
qed

end
