(* ===== verification/Server_Race.thy ===== *)
theory Server_Race
  imports Custom_Server
begin

text \<open>
  The loop of \<open>MessageAllClients\<close> iteration by iteration, against the handler of the accept, which
  runs in asio's thread without a lock. \<open>push_back\<close> invalidates every iterator of a \<open>std::deque\<close>, so
  the range-based \<open>for\<close> of the main thread goes on with dangling ones. Shown: a broadcast during which
  the accept handler does not run does what theory \<open>Net_Server\<close> says in one step; the handler of the
  example server, which approves every client, leads from any state that waits for a client to a use of
  a dangling iterator.
\<close>

section \<open>The loop\<close>

text \<open>
  The loop's iterators are the position and the number of elements the deque had when they were taken.
  Neither the loop nor the callbacks of the example server add or remove an element before the loop is
  over: when the deque has another number of elements, one was pushed and the iterators are invalid.
\<close>

datatype loop_at =
    Not_iterating
  | At nat nat bool      \<comment> \<open>position, end, \<open>bInvalidClientExists\<close>\<close>

record 't racing =
  srv :: "'t server"
  loop :: loop_at

definition begin_loop :: "'t racing \<Rightarrow> 't racing" where
  "begin_loop r = r\<lparr>loop := At 0 (length (m_deqConnections (srv r))) False\<rparr>"

text \<open>One iteration, or the end of the loop with the removal of the dead clients.\<close>

definition iteration :: "'t callbacks \<Rightarrow> 't message \<Rightarrow> nat option \<Rightarrow> 't racing \<Rightarrow> fault + 't racing" where
  "iteration cb m pIgnoreClient r =
     (case loop r of
        Not_iterating \<Rightarrow> Inr r
      | At i n bad \<Rightarrow>
          let s = srv r
          in if length (m_deqConnections s) \<noteq> n then Inl Use_after_free
             else if i < n
             then let client = m_deqConnections s ! i
                  in if reachable_client client s
                     then if client \<noteq> pIgnoreClient
                          then rbind (invoke client (Send m) s) (\<lambda>s1. Inr (r\<lparr>srv := s1, loop := At (i + 1) n bad\<rparr>))
                          else Inr (r\<lparr>loop := At (i + 1) n bad\<rparr>)
                     else rbind (OnClientDisconnect cb client s) (\<lambda>s1.
                            Inr (r\<lparr>srv := s1\<lparr>m_deqConnections := (m_deqConnections s1)[i := None]\<rparr>,
                                   loop := At (i + 1) n True\<rparr>))
             else Inr (r\<lparr>srv := (if bad then s\<lparr>m_deqConnections := erase_all None (m_deqConnections s)\<rparr> else s),
                         loop := Not_iterating\<rparr>))"

text \<open>The handler of the accept in asio's thread.\<close>

definition accept_beside :: "'t callbacks \<Rightarrow> (error_code \<Rightarrow> string) \<Rightarrow> 't \<Rightarrow> error_code \<Rightarrow> string option \<Rightarrow>
    't racing \<Rightarrow> fault + 't racing" where
  "accept_beside cb describe z ec peer r =
     rbind (accept_handler cb describe z ec peer ((srv r)\<lparr>accepts := accepts (srv r) - 1\<rparr>)) (\<lambda>s.
       Inr (r\<lparr>srv := s\<rparr>))"

inductive race_step :: "'t callbacks \<Rightarrow> (error_code \<Rightarrow> string) \<Rightarrow> 't \<Rightarrow> 't message \<Rightarrow> nat option \<Rightarrow>
    fault + 't racing \<Rightarrow> fault + 't racing \<Rightarrow> bool" for cb describe z m ign where
  begins: "loop r = Not_iterating \<Longrightarrow> race_step cb describe z m ign (Inr r) (Inr (begin_loop r))"
| iterates: "loop r \<noteq> Not_iterating \<Longrightarrow> race_step cb describe z m ign (Inr r) (iteration cb m ign r)"
| accepted: "0 < accepts (srv r) \<Longrightarrow> race_step cb describe z m ign (Inr r) (accept_beside cb describe z ec peer r)"

section \<open>A broadcast of its own\<close>

lemma message_clients_append:
  "message_clients cb m ign (is @ js) bad s =
     rbind (message_clients cb m ign is bad s) (\<lambda>(bad', s'). message_clients cb m ign js bad' s')"
proof (induction "is" arbitrary: bad s)
  case (Cons i "is")
  show ?case
    by (cases "invoke (m_deqConnections s ! i) (Send m) s"; cases "OnClientDisconnect cb (m_deqConnections s ! i) s")
      (simp_all add: Cons.IH Let_def)
qed simp

text \<open>Steps of the main thread only.\<close>

fun iterations :: "'t callbacks \<Rightarrow> 't message \<Rightarrow> nat option \<Rightarrow> nat \<Rightarrow> 't racing \<Rightarrow> fault + 't racing" where
  "iterations cb m ign 0 r = Inr r"
| "iterations cb m ign (Suc k) r = rbind (iteration cb m ign r) (iterations cb m ign k)"

text \<open>An iteration is a round of the loop of \<open>MessageAllClients\<close>.\<close>

context server_callbacks
begin

lemma iteration_round:
  assumes "loop r = At i n bad" "length (m_deqConnections (srv r)) = n" "i < n"
    "valid_ref (srv r) (m_deqConnections (srv r) ! i)"
  shows "\<exists>b s1. iteration cb m ign r = Inr (r\<lparr>srv := s1, loop := At (i + 1) n b\<rparr>) \<and>
    message_clients cb m ign [i] bad (srv r) = Inr (b, s1) \<and> length (m_deqConnections s1) = n \<and>
    drop (i + 1) (m_deqConnections s1) = drop (i + 1) (m_deqConnections (srv r)) \<and> valid_ref s1 = valid_ref (srv r)"
proof -
  let ?p = "m_deqConnections (srv r) ! i"
  note it = iteration_def [of cb m ign r, unfolded assms(1), simplified]
  show ?thesis
  proof (cases "reachable_client ?p (srv r)")
    case True
    then show ?thesis using assms by (simp add: it Let_def invoke_valid valid_ref_def [abs_def])
  next
    case False
    obtain s1 where s1: "OnClientDisconnect cb ?p (srv r) = Inr s1" "objects s1 = objects (srv r)"
      "m_deqConnections s1 = m_deqConnections (srv r)"
      using disconnect_logs [OF assms(4)] by blast
    with False assms show ?thesis by (auto simp: it Let_def valid_ref_def [abs_def])
  qed
qed

lemma iterations_from:
  assumes "loop r = At i n bad" "length (m_deqConnections (srv r)) = n" "i \<le> n"
    "list_all (valid_ref (srv r)) (drop i (m_deqConnections (srv r)))"
  shows "iterations cb m ign (Suc (n - i)) r =
    rbind (message_clients cb m ign [i..<n] bad (srv r)) (\<lambda>(bad', s).
      Inr (r\<lparr>srv := (if bad' then s\<lparr>m_deqConnections := erase_all None (m_deqConnections s)\<rparr> else s),
             loop := Not_iterating\<rparr>))"
  using assms
proof (induction "n - i" arbitrary: i bad r)
  case 0
  then show ?case by (simp add: iteration_def Let_def)
next
  case (Suc k)
  then have lt: "i < n" by simp
  then have up: "[i..<n] = i # [Suc i..<n]" and d: "n - i = Suc (n - Suc i)" by (simp_all add: upt_rec)
  have dr: "drop i (m_deqConnections (srv r)) = m_deqConnections (srv r) ! i # drop (Suc i) (m_deqConnections (srv r))"
    using lt Suc.prems(2) by (simp add: Cons_nth_drop_Suc)
  then have v: "valid_ref (srv r) (m_deqConnections (srv r) ! i)" using Suc.prems(4) by simp
  obtain b s1 where s1: "iteration cb m ign r = Inr (r\<lparr>srv := s1, loop := At (Suc i) n b\<rparr>)"
    "message_clients cb m ign [i] bad (srv r) = Inr (b, s1)" "length (m_deqConnections s1) = n"
    "drop (Suc i) (m_deqConnections s1) = drop (Suc i) (m_deqConnections (srv r))" "valid_ref s1 = valid_ref (srv r)"
    using iteration_round [OF Suc.prems(1,2) lt v, of m ign] by auto
  have mc: "message_clients cb m ign [i..<n] bad (srv r) = message_clients cb m ign [Suc i..<n] b s1"
    using s1(2) message_clients_append [of cb m ign "[i]" "[Suc i..<n]" bad "srv r"] unfolding up by simp
  have "list_all (valid_ref s1) (drop (Suc i) (m_deqConnections s1))" using Suc.prems(4) s1(4,5) dr by simp
  then have "iterations cb m ign (Suc (n - Suc i)) (r\<lparr>srv := s1, loop := At (Suc i) n b\<rparr>) =
      rbind (message_clients cb m ign [Suc i..<n] b s1) (\<lambda>(bad', s).
        Inr (r\<lparr>srv := (if bad' then s\<lparr>m_deqConnections := erase_all None (m_deqConnections s)\<rparr> else s),
               loop := Not_iterating\<rparr>))"
    using Suc.hyps(1) [of "Suc i" "r\<lparr>srv := s1, loop := At (Suc i) n b\<rparr>" b] Suc.hyps(2) s1(3) lt by simp
  then show ?case unfolding d mc iterations.simps(2) [of cb m ign "Suc (n - Suc i)"] s1(1)
    by (simp del: iterations.simps)
qed

end

text \<open>
  A broadcast during which the accept handler does not run has, iteration by iteration, the effect of
  \<open>MessageAllClients\<close> as one step.
\<close>

theorem broadcast_alone:
  assumes "server_callbacks cb" "refs_ok (srv r)"
  shows "iterations cb m ign (length (m_deqConnections (srv r)) + 1) (begin_loop r) =
     rbind (MessageAllClients cb m ign (srv r)) (\<lambda>s. Inr (r\<lparr>srv := s, loop := Not_iterating\<rparr>))"
  using server_callbacks.iterations_from [OF assms(1), of "begin_loop r" 0 "length (m_deqConnections (srv r))" False m ign] assms(2)
  by (simp add: begin_loop_def MessageAllClients_def refs_ok_def rbind_assoc del: iterations.simps)
    (auto intro!: arg_cong [where f = "rbind _"])

section \<open>A broadcast and an accept\<close>

text \<open>\<open>CustomServer\<close> approves every client.\<close>

lemma custom_accept_pushes:
  "\<exists>r1. accept_beside custom_callbacks describe z no_error (Some address) r = Inr r1 \<and> loop r1 = loop r \<and>
     length (m_deqConnections (srv r1)) = Suc (length (m_deqConnections (srv r)))"
proof -
  let ?s = "(srv r)\<lparr>accepts := accepts (srv r) - 1\<rparr>"
  let ?s2 = "with_new z (say (''[SERVER] New Connection: '' @ address) ?s)"
  have "valid_ref ?s2 (Some (length (objects ?s)))" by (simp add: valid_ref_def with_new_def say_def)
  from custom_connect_posts [OF this] obtain s3 where
    s3: "custom_OnClientConnect (Some (length (objects ?s))) ?s2 = Inr (True, s3)" "objects_post ?s2 s3"
      "m_deqConnections s3 = m_deqConnections ?s2"
    by (auto simp: custom_OnClientConnect_def rbind_Inr_iff)
  have "length (objects s3) = length (objects ?s2)" using s3(2) by (simp add: objects_post_def list_all2_lengthD)
  then have l: "length (objects ?s) < length (objects s3)" by (simp add: with_new_def say_def)
  have "\<not> failed no_error" by simp
  from accept_approved [OF refl this, of custom_callbacks ?s z address s3 describe] s3(1) l show ?thesis
    by (simp add: accept_beside_def WaitForClientConnection_def approve_def s3(3) with_new_def)
qed

text \<open>
  So the example server can fail whenever a broadcast and a new client come together: from every
  state in which it waits for a client there is an execution in which the loop uses a dangling iterator.
\<close>

theorem custom_broadcast_race:
  assumes "0 < accepts s"
  shows "(race_step custom_callbacks describe z m ign)\<^sup>*\<^sup>*
    (Inr \<lparr>srv = s, loop = Not_iterating\<rparr>) (Inl Use_after_free)"
proof -
  let ?r = "begin_loop \<lparr>srv = s, loop = Not_iterating\<rparr>"
  obtain r1 where r1: "accept_beside custom_callbacks describe z no_error (Some []) ?r = Inr r1" "loop r1 = loop ?r"
    "length (m_deqConnections (srv r1)) = Suc (length (m_deqConnections (srv ?r)))"
    using custom_accept_pushes [of describe z "[]" ?r] by blast
  have l: "loop ?r = At 0 (length (m_deqConnections s)) False" by (simp add: begin_loop_def)
  let ?R = "race_step custom_callbacks describe z m ign"
  have it: "iteration custom_callbacks m ign r1 = Inl Use_after_free"
    using l r1(2,3) by (simp add: iteration_def begin_loop_def Let_def)
  have "?R\<^sup>*\<^sup>* (Inr \<lparr>srv = s, loop = Not_iterating\<rparr>) (Inr ?r)"
    by (rule r_into_rtranclp, rule race_step.begins) simp
  also have "?R (Inr ?r) (Inr r1)"
    using race_step.accepted [of ?r custom_callbacks describe z m ign no_error "Some []"] assms r1(1)
    by (simp add: begin_loop_def)
  also have "?R (Inr r1) (iteration custom_callbacks m ign r1)"
    by (rule race_step.iterates) (simp add: r1(2) l)
  finally show ?thesis by (simp only: it)
qed

theorem custom_broadcast_race_witness:
  "(race_step custom_callbacks (\<lambda>_. []) 0 (new_message 4) None)\<^sup>*\<^sup>*
    (Inr \<lparr>srv = two_clients_end, loop = Not_iterating\<rparr>) (Inl Use_after_free)"
  by (rule custom_broadcast_race) (simp add: two_clients_end_eq(4))

end
