(* ===== verification/Programs.thy ===== *)
theory Programs
  imports Async_Server
begin

text \<open>
  The \<open>main\<close> functions of \<open>src/asio-cookbook\<close>: sequences of calls of asio that succeed or fail, with the
  three ways the programs treat a failure: an exception that \<open>main\<close> catches, prints and turns into the
  exit code; an exception outside every \<open>try\<close> block, which ends the process; an \<open>error_code\<close> argument
  that is looked at, or not. What a call answers is up to the platform and may depend on the calls
  made before. Shown: which programs report every failure by their exit code and which do not, and
  that sockets are used in the order asio asks for.
\<close>

section \<open>Calls and actions\<close>

datatype call =
    Make_address string
  | Open                     \<comment> \<open>\<open>open\<close>, or the constructor of a socket or acceptor with a protocol\<close>
  | Bind string u16
  | Listen
  | Accept
  | Connect_to string u16
  | Connect_any              \<comment> \<open>\<open>asio::connect\<close>, which opens the socket itself\<close>
  | Resolve string string
  | Get_option
  | Set_option
  | Transfer                 \<comment> \<open>a function of the program that writes to the socket or reads from it\<close>
  | Shut_down

record platform =
  answer :: "call list \<Rightarrow> call \<Rightarrow> error_code"
  code_text :: "error_code \<Rightarrow> string"     \<comment> \<open>what \<open>operator<<\<close> prints of a code\<close>
  message_text :: "error_code \<Rightarrow> string"  \<comment> \<open>\<open>message()\<close>, \<open>what()\<close>\<close>

record world =
  made :: "call list"
  console :: "string list"

definition new_world :: world where
  "new_world = \<lparr>made = [], console = []\<rparr>"

text \<open>An action throws (\<open>Inl\<close>) or gives a value.\<close>

type_synonym 'a action = "world \<Rightarrow> (error_code + 'a) \<times> world"

definition ask_platform :: "platform \<Rightarrow> call \<Rightarrow> world \<Rightarrow> error_code \<times> world" where
  "ask_platform p c w = (answer p (made w) c, w\<lparr>made := made w @ [c]\<rparr>)"

definition throwing :: "platform \<Rightarrow> call \<Rightarrow> unit action" where
  "throwing p c w = (let (ec, w') = ask_platform p c w in (if failed ec then Inl ec else Inr (), w'))"

definition say :: "string \<Rightarrow> world \<Rightarrow> world" where
  "say line w = w\<lparr>console := console w @ [line]\<rparr>"

definition saying :: "string \<Rightarrow> unit action" where
  "saying line w = (Inr (), say line w)"

fun in_turn :: "unit action list \<Rightarrow> unit action" where
  "in_turn [] w = (Inr (), w)"
| "in_turn (a # as) w = (case a w of (Inl e, w') \<Rightarrow> (Inl e, w') | (Inr _, w') \<Rightarrow> in_turn as w')"

text \<open>How a program ends: with an exit code, by \<open>std::terminate\<close>, or with undefined behaviour.\<close>

datatype ending = Exit int | Uncaught error_code | Undefined

definition error_line :: "platform \<Rightarrow> string \<Rightarrow> error_code \<Rightarrow> string" where
  "error_line p intro ec = intro @ code_text p ec @ ''. Message: '' @ message_text p ec"

definition value_line :: "platform \<Rightarrow> string \<Rightarrow> error_code \<Rightarrow> string" where
  "value_line p intro ec = intro @ show_int (ec_value ec) @ ''. Message: '' @ message_text p ec"

text \<open>\<open>catch (asio::system_error& e) { std::cout << ...; return e.code().value(); }\<close>\<close>

definition caught :: "platform \<Rightarrow> string \<Rightarrow> unit action \<Rightarrow> world \<Rightarrow> ending \<times> world" where
  "caught p intro body w =
     (case body w of
        (Inr _, w') \<Rightarrow> (Exit 0, w')
      | (Inl e, w') \<Rightarrow> (Exit (ec_value e), say (error_line p intro e) w'))"

definition uncaught :: "unit action \<Rightarrow> (world \<Rightarrow> ending \<times> world) \<Rightarrow> world \<Rightarrow> ending \<times> world" where
  "uncaught body rest w = (case body w of (Inr _, w') \<Rightarrow> rest w' | (Inl e, w') \<Rightarrow> (Uncaught e, w'))"

text \<open>\<open>if (ec.value() != 0) { std::cout << ...; return ec.value(); }\<close>\<close>

definition checked :: "platform \<Rightarrow> call \<Rightarrow> string \<Rightarrow> (world \<Rightarrow> ending \<times> world) \<Rightarrow> world \<Rightarrow> ending \<times> world" where
  "checked p c intro rest w =
     (let (ec, w') = ask_platform p c w
      in if failed ec then (Exit (ec_value ec), say (value_line p intro ec) w') else rest w')"

text \<open>An \<open>error_code\<close> argument nobody looks at.\<close>

definition overlooked :: "platform \<Rightarrow> call \<Rightarrow> (error_code \<Rightarrow> world \<Rightarrow> ending \<times> world) \<Rightarrow> world \<Rightarrow> ending \<times> world" where
  "overlooked p c rest w = (let (ec, w') = ask_platform p c w in rest ec w')"

definition exits_0 :: "world \<Rightarrow> ending \<times> world" where
  "exits_0 w = (Exit 0, w)"

definition loopback :: string where "loopback = ''127.0.0.1''"
definition any_address :: string where "any_address = ''0.0.0.0''"
definition remote :: string where "remote = ''121.139.55.100''"
definition catch_intro :: string where "catch_intro = ''Error occured! Error code = ''"

section \<open>Chapter 1\<close>

definition main_endpoint_client :: "platform \<Rightarrow> world \<Rightarrow> ending \<times> world" where
  "main_endpoint_client p =
     checked p (Make_address loopback) ''Failed to parse the IP address. Error code = '' exits_0"

definition main_active_tcp_socket :: "platform \<Rightarrow> world \<Rightarrow> ending \<times> world" where
  "main_active_tcp_socket p = checked p Open ''Failed to open the socket! Error code = '' exits_0"

definition main_active_udp_socket :: "platform \<Rightarrow> world \<Rightarrow> ending \<times> world" where
  "main_active_udp_socket p = checked p Open ''Failed to open the socket! Error code = '' exits_0"

definition main_passive_tcp_socket :: "platform \<Rightarrow> world \<Rightarrow> ending \<times> world" where
  "main_passive_tcp_socket p = checked p Open ''Failed to open the acceptor socket!Error code ='' exits_0"

definition main_bind_to_endpoint :: "platform \<Rightarrow> world \<Rightarrow> ending \<times> world" where
  "main_bind_to_endpoint p =
     uncaught (throwing p Open)
       (checked p (Bind any_address 3333) ''Failed to bind the socket.Error code = '' exits_0)"

text \<open>The address an \<open>error_code\<close> overload returns when it fails is the unspecified one.\<close>

definition main_connect_socket :: "platform \<Rightarrow> world \<Rightarrow> ending \<times> world" where
  "main_connect_socket p =
     overlooked p (Make_address loopback) (\<lambda>ec.
       uncaught (throwing p Open)
         (checked p (Connect_to (if failed ec then any_address else loopback) 3333)
            ''Failed to connect  the socket.Error code = '' exits_0))"

definition main_connect_dns :: "platform \<Rightarrow> world \<Rightarrow> ending \<times> world" where
  "main_connect_dns p =
     caught p catch_intro (in_turn [throwing p (Resolve ''naver.com'' ''https''), throwing p Connect_any])"

definition main_accept_connection :: "platform \<Rightarrow> world \<Rightarrow> ending \<times> world" where
  "main_accept_connection p =
     uncaught (throwing p (Make_address loopback))
       (caught p catch_intro (in_turn
          [throwing p Open, throwing p (Bind loopback 3333), throwing p Listen, throwing p Accept]))"

text \<open>\<open>endpoints\<close>: what the resolver found; a failed \<open>resolve\<close> gives an empty range.\<close>

definition main_resolving_dns :: "string list \<Rightarrow> platform \<Rightarrow> world \<Rightarrow> ending \<times> world" where
  "main_resolving_dns endpoints p =
     overlooked p (Resolve ''example.com'' ''http'') (\<lambda>ec w.
       exits_0 (fold say (if failed ec then [] else endpoints) w))"

section \<open>Chapter 2\<close>

definition connect_local :: "platform \<Rightarrow> unit action list" where
  "connect_local p = [throwing p (Make_address loopback), throwing p Open, throwing p (Connect_to loopback 3333)]"

definition main_write_sync :: "platform \<Rightarrow> world \<Rightarrow> ending \<times> world" where
  "main_write_sync p = caught p catch_intro (in_turn (connect_local p @ [throwing p Transfer]))"

definition main_read_sync :: "platform \<Rightarrow> world \<Rightarrow> ending \<times> world" where
  "main_read_sync p = caught p catch_intro (in_turn (connect_local p @ [throwing p Transfer]))"

text \<open>The asynchronous writes report a failure to \<open>Callback\<close>, which prints it.\<close>

definition writing_async :: "platform \<Rightarrow> unit action" where
  "writing_async p w =
     (let (ec, w') = ask_platform p Transfer w
      in (Inr (), if failed ec then say (value_line p catch_intro ec) w' else w'))"

definition main_write_async :: "platform \<Rightarrow> world \<Rightarrow> ending \<times> world" where
  "main_write_async p = caught p catch_intro (in_turn (connect_local p @ [writing_async p]))"

definition main_shutdown_client :: "platform \<Rightarrow> world \<Rightarrow> ending \<times> world" where
  "main_shutdown_client p =
     caught p catch_intro (in_turn
       [throwing p (Make_address remote), throwing p Open, throwing p (Connect_to remote 3333), throwing p Transfer])"

text \<open>The constructor of an acceptor with an endpoint opens it, sets \<open>reuse_address\<close>, binds and listens.\<close>

definition acceptor_at :: "platform \<Rightarrow> string \<Rightarrow> u16 \<Rightarrow> unit action list" where
  "acceptor_at p address port =
     [throwing p Open, throwing p Set_option, throwing p (Bind address port), throwing p Listen]"

definition main_shutdown_server :: "platform \<Rightarrow> world \<Rightarrow> ending \<times> world" where
  "main_shutdown_server p =
     caught p catch_intro (in_turn
       (throwing p (Make_address remote) # acceptor_at p remote 3333 @ [throwing p Accept, throwing p Transfer]))"

section \<open>Chapters 3 and 6\<close>

text \<open>\<open>SyncTCPClient\<close>; \<open>peer\<close> is the server the requests go to.\<close>

definition SyncTCPClient :: "platform \<Rightarrow> string \<Rightarrow> unit action" where
  "SyncTCPClient p address = in_turn [throwing p (Make_address address), throwing p Open]"

definition requesting :: "(error_code + string) \<Rightarrow> string \<Rightarrow> unit action" where
  "requesting answered intro w =
     (case answered of Inl e \<Rightarrow> (Inl e, w) | Inr response \<Rightarrow> saying (intro @ response) w)"

definition main_sync_tcp_client :: "(string \<Rightarrow> error_code + string) \<Rightarrow> platform \<Rightarrow> world \<Rightarrow> ending \<times> world" where
  "main_sync_tcp_client peer p =
     caught p ''Error occured in main! Error code = '' (in_turn
       [SyncTCPClient p loopback, throwing p (Connect_to loopback 3333),
        saying ''Sending request to the server... '',
        requesting (sync_EmulateLongComputationOp peer 10) ''Response received: '',
        throwing p Shut_down])"

text \<open>The two requests of the datagram client; endpoints 1 and 2 are the two servers.\<close>

definition udp_requests :: "(nat \<Rightarrow> string \<Rightarrow> error_code + string) \<Rightarrow> error_code \<Rightarrow> udp_client \<Rightarrow> unit action" where
  "udp_requests net shut_error client w0 =
     (let w1 = say ''Sending request to the server #1 ... '' w0
      in case udp_EmulateLongComputationOp net shut_error 10 1 client of
           Inl e \<Rightarrow> (Inl e, w1)
         | Inr (response, client') \<Rightarrow>
             let w2 = say ''Sending request to the server #2... ''
                        (say (''Response from the serever #1 received: '' @ response) w1)
             in case udp_EmulateLongComputationOp net shut_error 10 2 client' of
                  Inl e \<Rightarrow> (Inl e, w2)
                | Inr (response', client'') \<Rightarrow>
                    (Inr (), say (''Response from the server #2 received: '' @ response') w2))"

definition main_sync_udp_client :: "(nat \<Rightarrow> string \<Rightarrow> error_code + string) \<Rightarrow> error_code \<Rightarrow> platform \<Rightarrow> world \<Rightarrow> ending \<times> world" where
  "main_sync_udp_client net shut_error p =
     caught p catch_intro (in_turn [throwing p Open, udp_requests net shut_error \<lparr>udp_shut = False\<rparr>])"

text \<open>The size is an \<open>int\<close>: doubling one of \<open>2 ^ 30\<close> or more is undefined.\<close>

definition main_socket_option :: "int \<Rightarrow> platform \<Rightarrow> world \<Rightarrow> ending \<times> world" where
  "main_socket_option cur_buf_size p w =
     (case in_turn [throwing p Open, throwing p Get_option,
           saying (''Current receive buffer size is '' @ show_int cur_buf_size @ '' bytes.'')] w of
        (Inl e, w') \<Rightarrow> caught p catch_intro (\<lambda>w. (Inl e, w)) w'
      | (Inr _, w') \<Rightarrow>
          if cur_buf_size * 2 < 2 ^ 31
          then caught p catch_intro (in_turn
            [throwing p Set_option,
             saying (''New receive buferr size is '' @ show_int (cur_buf_size * 2) @ '' bytes.'')]) w'
          else (Undefined, w'))"

section \<open>Reports\<close>

lemmas action_simps = throwing_def ask_platform_def saying_def say_def caught_def uncaught_def checked_def overlooked_def
  exits_0_def new_world_def Let_def

lemmas main_defs =
  main_endpoint_client_def main_active_tcp_socket_def main_active_udp_socket_def main_passive_tcp_socket_def
  main_bind_to_endpoint_def main_connect_dns_def main_accept_connection_def main_write_sync_def main_read_sync_def
  main_shutdown_client_def main_shutdown_server_def connect_local_def acceptor_at_def

text \<open>
  The programs that look at every error, with the calls they make when none fails, in order, and how
  many of them are made outside every \<open>try\<close> block.
\<close>

definition reporting_mains :: "((platform \<Rightarrow> world \<Rightarrow> ending \<times> world) \<times> call list \<times> nat) list" where
  "reporting_mains =
     [(main_endpoint_client, [Make_address loopback], 0),
      (main_active_tcp_socket, [Open], 0), (main_active_udp_socket, [Open], 0), (main_passive_tcp_socket, [Open], 0),
      (main_bind_to_endpoint, [Open, Bind any_address 3333], 1),
      (main_connect_dns, [Resolve ''naver.com'' ''https'', Connect_any], 0),
      (main_accept_connection, [Make_address loopback, Open, Bind loopback 3333, Listen, Accept], 1),
      (main_write_sync, [Make_address loopback, Open, Connect_to loopback 3333, Transfer], 0),
      (main_read_sync, [Make_address loopback, Open, Connect_to loopback 3333, Transfer], 0),
      (main_shutdown_client, [Make_address remote, Open, Connect_to remote 3333, Transfer], 0),
      (main_shutdown_server, [Make_address remote, Open, Set_option, Bind remote 3333, Listen, Accept, Transfer], 0)]"




fun is_bind :: "call \<Rightarrow> bool" where
  "is_bind (Bind _ _) = True" | "is_bind _ = False"

text \<open>A platform on which the calls that satisfy a test fail.\<close>

definition failing_on :: "(call \<Rightarrow> bool) \<Rightarrow> platform" where
  "failing_on bad = \<lparr>answer = (\<lambda>_ c. if bad c then \<lparr>ec_value = 98, ec_category = 0\<rparr> else no_error),
     code_text = (\<lambda>ec. ''system:'' @ show_int (ec_value ec)), message_text = (\<lambda>_. ''failure'')\<rparr>"


text \<open>
  Three programs end with 0 although a call failed: the resolver's error and the parser's are not
  looked at, the latter connecting to the unspecified address instead, and the asynchronous write
  prints its error only.
\<close>

theorem mains_hide_failures:
  assumes "failed e"
  shows "fst (main_resolving_dns endpoints p w) = Exit 0 \<and>
    fst (main_connect_socket (p\<lparr>answer := \<lambda>_ c. if c = Make_address loopback then e else no_error\<rparr>) new_world) = Exit 0 \<and>
    last (made (snd (main_connect_socket (p\<lparr>answer := \<lambda>_ c. if c = Make_address loopback then e else no_error\<rparr>) new_world))) =
      Connect_to any_address 3333 \<and>
    fst (main_write_async (p\<lparr>answer := \<lambda>_ c. if c = Transfer then e else no_error\<rparr>) w) = Exit 0"
  using assms
  by (simp add: main_resolving_dns_def main_connect_socket_def main_write_async_def writing_async_def connect_local_def
      action_simps)

theorem mains_hide_failures_witness:
  "fst (main_write_async ((failing_on (\<lambda>_. False))\<lparr>answer := \<lambda>_ c. if c = Transfer
     then \<lparr>ec_value = 32, ec_category = 0\<rparr> else no_error\<rparr>) new_world) = Exit 0"
  using mains_hide_failures [of "\<lparr>ec_value = 32, ec_category = 0\<rparr>" "[]" "failing_on (\<lambda>_. False)" new_world]
  by (simp add: failed_def)

section \<open>The order of calls\<close>

text \<open>What a call needs of the calls that succeeded before it.\<close>

fun is_connection :: "call \<Rightarrow> bool" where
  "is_connection (Connect_to _ _) = True"
| "is_connection Connect_any = True"
| "is_connection Accept = True"
| "is_connection _ = False"

fun ready :: "call list \<Rightarrow> call \<Rightarrow> bool" where
  "ready ok (Bind _ _) = (Open \<in> set ok)"
| "ready ok Listen = list_ex is_bind ok"
| "ready ok Accept = (Listen \<in> set ok)"
| "ready ok (Connect_to _ _) = (Open \<in> set ok)"
| "ready ok Get_option = (Open \<in> set ok)"
| "ready ok Set_option = (Open \<in> set ok)"
| "ready ok Transfer = list_ex is_connection ok"
| "ready ok Shut_down = list_ex is_connection ok"
| "ready ok _ = True"

fun in_order :: "platform \<Rightarrow> call list \<Rightarrow> call list \<Rightarrow> call list \<Rightarrow> bool" where
  "in_order p past ok [] = True"
| "in_order p past ok (c # cs) =
     (ready ok c \<and> in_order p (past @ [c]) (if failed (answer p past c) then ok else ok @ [c]) cs)"

definition all_mains :: "(platform \<Rightarrow> world \<Rightarrow> ending \<times> world) list" where
  "all_mains = map fst reporting_mains @ [main_connect_socket, main_resolving_dns [], main_write_async,
     main_sync_tcp_client (\<lambda>_. Inr response_text), main_socket_option 4096]"

text \<open>
  Whatever fails, no program uses a socket out of order: it binds, connects and sets options only
  after a successful open, listens after a bind, accepts after a listen, and transfers or shuts down
  only after a connection was made.
\<close>

theorem mains_use_sockets_in_order:
  assumes "m \<in> set all_mains"
  shows "in_order p [] [] (made (snd (m p new_world)))"
  using assms
  by (auto simp: all_mains_def reporting_mains_def main_defs main_connect_socket_def main_resolving_dns_def
      main_write_async_def writing_async_def main_sync_tcp_client_def SyncTCPClient_def requesting_def
      main_socket_option_def action_simps split: sum.split)

theorem mains_use_sockets_in_order_witness:
  "in_order (failing_on (\<lambda>_. False)) [] [] (made (snd (main_shutdown_server (failing_on (\<lambda>_. False)) new_world))) \<and>
   length (made (snd (main_shutdown_server (failing_on (\<lambda>_. False)) new_world))) = 7"
proof
  have "main_shutdown_server \<in> set all_mains" by (simp add: all_mains_def reporting_mains_def)
  then show "in_order (failing_on (\<lambda>_. False)) [] []
      (made (snd (main_shutdown_server (failing_on (\<lambda>_. False)) new_world)))"
    by (rule mains_use_sockets_in_order)
  show "length (made (snd (main_shutdown_server (failing_on (\<lambda>_. False)) new_world))) = 7"
    by (simp add: main_defs action_simps failing_on_def)
qed

section \<open>The clients of chapter 3\<close>

text \<open>
  The stream client against the stream server prints the response and ends with 0, when no call fails.
\<close>

theorem sync_client_program:
  assumes "\<And>past c. \<not> failed (answer p past c)"
  shows "main_sync_tcp_client (server_peer eof rest) p new_world =
    (Exit 0, \<lparr>made = [Make_address loopback, Open, Connect_to loopback 3333, Shut_down],
       console = [''Sending request to the server... '', ''Response received: Response'']\<rparr>)"
proof -
  have "sync_EmulateLongComputationOp (server_peer eof rest) 10 = Inr ''Response''" by (rule sync_response)
  then show ?thesis using assms
    by (simp add: main_sync_tcp_client_def SyncTCPClient_def requesting_def action_simps)
qed

theorem sync_client_program_witness:
  "fst (main_sync_tcp_client (server_peer no_error []) (failing_on (\<lambda>_. False)) new_world) = Exit 0"
  using sync_client_program [of "failing_on (\<lambda>_. False)" no_error "[]"] by (simp add: failing_on_def)

text \<open>
  The program of the datagram client never succeeds: its second request goes to a socket that was
  shut down after the first response, so it ends with an error and prints no second response.
\<close>

theorem udp_program_fails:
  assumes "failed shut_error" "\<And>ep request e. net ep request = Inl e \<Longrightarrow> failed e"
  shows "\<exists>v. fst (main_sync_udp_client net shut_error p w) = Exit v \<and> v \<noteq> 0"
proof -
  show ?thesis
  proof (cases "net 1 (sync_request_text 10)")
    case (Inl e)
    with assms(2) [OF Inl] show ?thesis
      by (simp add: main_sync_udp_client_def udp_requests_def udp_EmulateLongComputationOp_def action_simps failed_def)
  next
    case (Inr response)
    with assms(1) show ?thesis
      by (simp add: main_sync_udp_client_def udp_requests_def udp_EmulateLongComputationOp_def action_simps failed_def)
  qed
qed

theorem udp_program_fails_witness:
  "\<exists>v. fst (main_sync_udp_client (\<lambda>_ _. Inr response_text) \<lparr>ec_value = 107, ec_category = 0\<rparr>
     (failing_on (\<lambda>_. False)) new_world) = Exit v \<and> v \<noteq> 0"
  by (rule udp_program_fails) (simp_all add: failed_def)

section \<open>The servers of chapter 4\<close>

text \<open>
  \<open>main\<close> of the synchronous servers: the thread of \<open>Start\<close> makes the acceptor and runs the loop;
  what it throws reaches no handler, although \<open>main\<close> has one. \<open>None\<close>: \<open>Stop\<close> does not return.
\<close>

definition sync_acceptor :: "platform \<Rightarrow> unit action" where
  "sync_acceptor p = in_turn (acceptor_at p any_address 3333 @ [throwing p Listen])"

definition main_sync_server :: "(nat \<Rightarrow> bool) \<Rightarrow> (error_code + client_io) list \<Rightarrow> platform \<Rightarrow> world \<Rightarrow>
    (ending \<times> world) option" where
  "main_sync_server stop conns p w =
     (case sync_acceptor p w of
        (Inl e, w') \<Rightarrow> Some (Uncaught e, w')
      | (Inr _, w') \<Rightarrow>
          (case snd (Run stop 0 conns) of
             Returned \<Rightarrow> Some (Exit 0, w')
           | Waiting \<Rightarrow> None
           | Died \<Rightarrow> Some (Uncaught (hd [e. Inl e \<leftarrow> conns]), w')))"

text \<open>
  \<open>main\<close> of the asynchronous server: \<open>Start\<close> makes the acceptor in \<open>main\<close>'s own thread, so its
  errors are caught and printed, but the exit code is 0 all the same.
\<close>

definition DEFAULT_THREAD_POOL_SIZE :: u32 where "DEFAULT_THREAD_POOL_SIZE = 2"

definition pool_size :: "u32 \<Rightarrow> u32" where
  "pool_size hardware_concurrency =
     (let n = hardware_concurrency * 2 in if n = 0 then DEFAULT_THREAD_POOL_SIZE else n)"

definition main_async_server :: "u32 \<Rightarrow> platform \<Rightarrow> world \<Rightarrow> ending \<times> (fault + async_server) option \<times> world" where
  "main_async_server hardware_concurrency p w =
     (case sync_acceptor p w of
        (Inl e, w') \<Rightarrow> (Exit 0, None, say (error_line p catch_intro e) w')
      | (Inr _, w') \<Rightarrow> (Exit 0, Some (StartServer (unat (pool_size hardware_concurrency)) new_async_server), w'))"

text \<open>
  A port that cannot be opened ends the synchronous servers by an exception no handler catches;
  the asynchronous server prints the error and exits with 0 like after a normal run. The pool of the
  asynchronous server is never empty, whatever the number of processors (the product may wrap around
  or be unknown): the assertion of \<open>Start\<close> holds.
\<close>

theorem server_mains_startup:
  assumes "sync_acceptor p w = (Inl e, w')"
  shows "main_sync_server stop conns p w = Some (Uncaught e, w') \<and>
    fst (main_async_server hc p w) = Exit 0 \<and> 0 < unat (pool_size hc) \<and>
    (\<exists>s. StartServer (unat (pool_size hc)) new_async_server = Inr s)"
proof -
  have "pool_size hc \<noteq> 0" by (simp add: pool_size_def DEFAULT_THREAD_POOL_SIZE_def Let_def)
  then have n: "0 < unat (pool_size hc)" by (simp add: unat_gt_0)
  then show ?thesis using assms
    by (simp add: main_sync_server_def main_async_server_def StartServer_def Let_def)
qed

theorem server_mains_startup_witness:
  "(\<exists>w'. main_sync_server (\<lambda>_. False) [] (failing_on is_bind) new_world = Some (Uncaught \<lparr>ec_value = 98, ec_category = 0\<rparr>, w')) \<and>
   0 < unat (pool_size (2 ^ 31))"
proof -
  have "\<exists>w'. sync_acceptor (failing_on is_bind) new_world = (Inl \<lparr>ec_value = 98, ec_category = 0\<rparr>, w')"
    by (simp add: sync_acceptor_def acceptor_at_def action_simps failing_on_def failed_def no_error_def)
  then obtain w' where "sync_acceptor (failing_on is_bind) new_world = (Inl \<lparr>ec_value = 98, ec_category = 0\<rparr>, w')"
    by blast
  from server_mains_startup [OF this] show ?thesis by blast
qed

end
