(* ===== verification/Cancel_Connect.thy ===== *)
theory Cancel_Connect
  imports Asio_Prelude
begin

text \<open>
  Programs of \<open>src/asio-cookbook/ch2_io\<close> without a peer: \<open>cancel_async_operation.cpp\<close>, in which one
  thread cancels the connect another one waits for, and the two programs that show buffers.
\<close>

section \<open>Cancelling a connect\<close>

datatype connect_at =
    In_progress
  | Completed error_code     \<comment> \<open>its handler waits to be run\<close>
  | Reported

datatype worker_at = Worker_starting | Worker_running | Worker_ended

datatype main_at =
    Before_cancel
  | Joining_worker
  | Ended
  | Terminated               \<comment> \<open>a joinable thread was destroyed\<close>

record cancelling =
  connect :: connect_at
  worker :: worker_at
  main :: main_at
  said :: "string list"
  in_time :: bool            \<comment> \<open>the cancel found the connect in progress\<close>

text \<open>\<open>main\<close> up to the start of the thread; the socket was made without an error.\<close>

definition cancelling_start :: cancelling where
  "cancelling_start = \<lparr>connect = In_progress, worker = Worker_starting, main = Before_cancel, said = [], in_time = False\<rparr>"

text \<open>The handler of the connect.\<close>

definition connect_line :: "(error_code \<Rightarrow> string) \<Rightarrow> error_code \<Rightarrow> error_code \<Rightarrow> string" where
  "connect_line message aborted ec =
     (if ec_value ec \<noteq> 0
      then if ec = aborted then ''Operation cancelled!''
           else ''Error occured in async_connect! Error code = '' @ show_int (ec_value ec) @ ''. Message: '' @ message ec
      else ''Connected'')"

definition connect_handler :: "(error_code \<Rightarrow> string) \<Rightarrow> error_code \<Rightarrow> error_code \<Rightarrow> cancelling \<Rightarrow> cancelling" where
  "connect_handler message aborted ec s =
     s\<lparr>connect := Reported, said := said s @ [connect_line message aborted ec]\<rparr>"

text \<open>\<open>sock->cancel()\<close>: an operation in progress completes with \<open>operation_aborted\<close>.\<close>

definition cancel_connect :: "error_code \<Rightarrow> cancelling \<Rightarrow> cancelling" where
  "cancel_connect aborted s =
     (case connect s of
        In_progress \<Rightarrow> s\<lparr>connect := Completed aborted, in_time := True, main := Joining_worker\<rparr>
      | _ \<Rightarrow> s\<lparr>main := Joining_worker\<rparr>)"

text \<open>An exception of \<open>cancel\<close> unwinds \<open>main\<close> past the thread, which has not been joined.\<close>

inductive cancel_step :: "(error_code \<Rightarrow> string) \<Rightarrow> error_code \<Rightarrow> cancelling \<Rightarrow> cancelling \<Rightarrow> bool" for message aborted where
  worker_starts: "worker s = Worker_starting \<Longrightarrow> main s \<noteq> Terminated \<Longrightarrow>
    cancel_step message aborted s (s\<lparr>worker := Worker_running, said := said s @ [''Run()'']\<rparr>)"
| completes: "connect s = In_progress \<Longrightarrow> main s \<noteq> Terminated \<Longrightarrow> cancel_step message aborted s (s\<lparr>connect := Completed ec\<rparr>)"
| handles: "worker s = Worker_running \<Longrightarrow> connect s = Completed ec \<Longrightarrow> main s \<noteq> Terminated \<Longrightarrow>
    cancel_step message aborted s (connect_handler message aborted ec s)"
| worker_ends: "worker s = Worker_running \<Longrightarrow> connect s = Reported \<Longrightarrow> main s \<noteq> Terminated \<Longrightarrow>
    cancel_step message aborted s (s\<lparr>worker := Worker_ended\<rparr>)"
| cancels: "main s = Before_cancel \<Longrightarrow> cancel_step message aborted s (cancel_connect aborted s)"
| cancel_throws: "main s = Before_cancel \<Longrightarrow> cancel_step message aborted s (s\<lparr>main := Terminated\<rparr>)"
| joins: "main s = Joining_worker \<Longrightarrow> worker s = Worker_ended \<Longrightarrow> cancel_step message aborted s (s\<lparr>main := Ended\<rparr>)"

definition cancel_ok :: "(error_code \<Rightarrow> string) \<Rightarrow> error_code \<Rightarrow> cancelling \<Rightarrow> bool" where
  "cancel_ok message aborted s \<longleftrightarrow>
     (worker s = Worker_starting \<longrightarrow> said s = []) \<and>
     (worker s \<noteq> Worker_starting \<and> connect s \<noteq> Reported \<longrightarrow> said s = [''Run()'']) \<and>
     (connect s = Reported \<longrightarrow> worker s \<noteq> Worker_starting \<and> (\<exists>ec. said s = [''Run()'', connect_line message aborted ec] \<and>
        (in_time s \<longrightarrow> ec = aborted))) \<and>
     (worker s = Worker_ended \<longrightarrow> connect s = Reported) \<and>
     (in_time s \<longrightarrow> connect s = Completed aborted \<or> connect s = Reported) \<and>
     (main s = Ended \<longrightarrow> worker s = Worker_ended)"

lemma cancel_ok_step:
  assumes "cancel_ok message aborted s" "cancel_step message aborted s t"
  shows "cancel_ok message aborted t"
  using assms(2,1)
  by cases (auto simp: cancel_ok_def connect_handler_def cancel_connect_def split: connect_at.splits)

interpretation cancelling: invariant_system "\<lambda>s. s = cancelling_start" "cancel_step message aborted"
  "cancel_ok message aborted" for message aborted
  by unfold_locales (simp add: cancel_ok_def cancelling_start_def, rule cancel_ok_step)

text \<open>Every step is a step towards the end.\<close>

fun connect_left :: "connect_at \<Rightarrow> nat" where
  "connect_left In_progress = 2" | "connect_left (Completed _) = 1" | "connect_left Reported = 0"

fun worker_left :: "worker_at \<Rightarrow> nat" where
  "worker_left Worker_starting = 2" | "worker_left Worker_running = 1" | "worker_left Worker_ended = 0"

fun main_left :: "main_at \<Rightarrow> nat" where
  "main_left Before_cancel = 2" | "main_left Joining_worker = 1" | "main_left _ = 0"

definition cancelling_left :: "cancelling \<Rightarrow> nat" where
  "cancelling_left s = connect_left (connect s) + worker_left (worker s) + main_left (main s)"

lemma cancel_step_decreases: "cancel_step message aborted s t \<Longrightarrow> cancelling_left t < cancelling_left s"
  by (erule cancel_step.cases)
    (auto simp: cancelling_left_def connect_handler_def cancel_connect_def split: connect_at.splits)

interpretation cancelling_ends: terminating_system "cancel_step message aborted" "\<lambda>s. True" cancelling_left
  for message aborted
  by unfold_locales (auto dest: cancel_step_decreases)

lemmas cancel_steps_left = cancelling_ends.steps_bounded [OF _ TrueI, THEN conjunct2]

lemma cancel_progress:
  assumes "cancel_ok message aborted s" "main s \<noteq> Ended" "main s \<noteq> Terminated"
  shows "\<exists>t. cancel_step message aborted s t"
proof (cases "main s")
  case Before_cancel
  then show ?thesis using cancel_step.cancels by blast
next
  case Joining_worker
  then show ?thesis
    using cancel_step.worker_starts [of s] cancel_step.completes [of s] cancel_step.handles [of s]
      cancel_step.worker_ends [of s] cancel_step.joins [of s]
    by (cases "worker s"; cases "connect s") auto
qed (use assms in auto)

text \<open>
  In every interleaving of the threads the program is done after at most six steps, and until then
  something can happen. Unless the cancel throws, which ends the process, it has then printed
  \<open>Run()\<close> and one line for the connect: that it was cancelled, if the cancel came in time.
\<close>

theorem cancel_program_ends:
  assumes "(cancel_step message aborted ^^ n) cancelling_start s" "failed aborted"
  shows "n \<le> 6 \<and> ((\<exists>t. cancel_step message aborted s t) \<or> main s = Terminated \<or>
    main s = Ended \<and> (\<exists>ec. said s = [''Run()'', connect_line message aborted ec]) \<and>
      (in_time s \<longrightarrow> said s = [''Run()'', ''Operation cancelled!'']))"
proof -
  have "cancel_ok message aborted s"
    using cancelling.inv_reachable [OF refl relpowp_imp_rtranclp [OF assms(1)]] .
  moreover from this have "main s = Ended \<Longrightarrow> (\<exists>ec. said s = [''Run()'', connect_line message aborted ec]) \<and>
      (in_time s \<longrightarrow> said s = [''Run()'', ''Operation cancelled!''])"
    using assms(2) by (auto simp: cancel_ok_def connect_line_def failed_def)
  ultimately show ?thesis
    using cancel_steps_left [OF assms(1)] cancel_progress [of message aborted s]
    by (auto simp: cancelling_left_def cancelling_start_def)
qed

definition aborted_connect :: error_code where
  "aborted_connect = \<lparr>ec_value = 125, ec_category = 0\<rparr>"

theorem cancel_program_ends_witness:
  "\<exists>s. (cancel_step (\<lambda>_. []) aborted_connect ^^ 1) cancelling_start s \<and> in_time s \<and>
    (\<exists>t. cancel_step (\<lambda>_. []) aborted_connect s t)"
proof -
  let ?s = "cancel_connect aborted_connect cancelling_start"
  have "cancel_step (\<lambda>_. []) aborted_connect cancelling_start ?s"
    by (rule cancel_step.cancels) (simp add: cancelling_start_def)
  then have "(cancel_step (\<lambda>_. []) aborted_connect ^^ 1) cancelling_start ?s" by (simp add: relcompp_apply)
  moreover from this cancel_program_ends [OF this] have "\<exists>t. cancel_step (\<lambda>_. []) aborted_connect ?s t"
    by (simp add: failed_def aborted_connect_def cancel_connect_def cancelling_start_def)
  ultimately show ?thesis by (auto simp: cancel_connect_def cancelling_start_def)
qed

section \<open>Buffers\<close>

text \<open>\<open>extensible_streambuffer.cpp\<close>: a line is taken from a stream buffer, the rest stays.\<close>

definition main_streambuf :: "string list \<times> string" where
  "main_streambuf =
     (let buf = ''Message1'' @ [newline] @ ''Message2''; (message1, rest) = getline buf
      in ([message1], rest))"

text \<open>
  \<open>fixed_length_buffer.cpp\<close>: the loop prints the bytes of a buffer one by one; one past its end is a
  fault.
\<close>

definition buffer_at :: "string \<Rightarrow> nat \<Rightarrow> fault + char" where
  "buffer_at buf i = (if i < length buf then Inr (buf ! i) else Inl Out_of_bounds)"

function print_buffer :: "string \<Rightarrow> nat \<Rightarrow> string \<Rightarrow> fault + string" where
  "print_buffer buf i out =
     (if i < length buf then rbind (buffer_at buf i) (\<lambda>ch. print_buffer buf (i + 1) (out @ [ch])) else Inr out)"
  by pat_completeness auto
termination by (relation "measure (\<lambda>(buf, i, out). length buf - i)") auto

declare print_buffer.simps [simp del]

lemma print_buffer_eq: "i \<le> length buf \<Longrightarrow> print_buffer buf i out = Inr (out @ drop i buf)"
proof (induction buf i out rule: print_buffer.induct)
  case (1 buf i out)
  show ?case
  proof (cases "i < length buf")
    case True
    with "1.IH" [OF True, of "buf ! i"] show ?thesis
      by (subst print_buffer.simps) (simp add: buffer_at_def Cons_nth_drop_Suc [symmetric])
  next
    case False
    with "1.prems" show ?thesis by (subst print_buffer.simps) simp
  qed
qed

definition main_fixed_buffer :: "fault + string list" where
  "main_fixed_buffer =
     (let buf1 = ''Hello''
      in rbind (print_buffer buf1 0 []) (\<lambda>text. Inr [''size: '' @ show_nat (length buf1), text]))"

text \<open>The stream buffer gives back its first line and keeps the rest; the loop prints the whole buffer.\<close>

theorem buffer_programs_print:
  "main_streambuf = ([''Message1''], ''Message2'') \<and> main_fixed_buffer = Inr [''size: 5'', ''Hello'']"
proof -
  have "newline \<notin> set ''Message1''" by (simp add: newline_def)
  from getline_line [OF this, of "''Message2''"] have "main_streambuf = ([''Message1''], ''Message2'')"
    by (simp add: main_streambuf_def)
  moreover have "show_nat (length (''Hello'')) = ''5''" by (subst show_nat.simps) (simp add: digit_char_def char_of_def bit_0)
  ultimately show ?thesis by (simp add: main_fixed_buffer_def print_buffer_eq)
qed

end
