(* ===== verification/Async_Program.thy ===== *)
theory Async_Program
  imports Async_Tcp_Client "HOL-Library.Multiset"
begin

text \<open>
  The program of \<open>src/asio-cookbook/ch3_client/async_tcp_client.cpp\<close>: the calls \<open>main\<close> makes on the
  client of theory \<open>Async_Tcp_Client\<close>, with the completions that come in between. Shown: a run that
  ends has called back each of the three requests once; a request that cannot be started ends the
  process, although \<open>main\<close> has a handler.
\<close>

section \<open>The program\<close>

text \<open>
  \<open>io k\<close> is what the thread of the client does before \<open>main\<close> takes its next step; \<open>endpoint\<close> and
  \<open>open_error\<close> are what \<open>make_address\<close> and \<open>open\<close> come to for each request. An exception leaves the
  block in which the client lives: its thread is destroyed without having been joined, which ends the
  process before the handler is reached. \<open>None\<close>: \<open>Close\<close> does not return.
\<close>

definition start_request :: "u32 \<Rightarrow> (nat \<Rightarrow> error_code + nat) \<Rightarrow> (nat \<Rightarrow> error_code option) \<Rightarrow> nat \<Rightarrow> u32 \<Rightarrow> async_client \<Rightarrow>
    fault + async_client" where
  "start_request duration_sec endpoint open_error k request_id c =
     (case EmulateLongComputationOp duration_sec (endpoint k) (open_error k) request_id c of
        Inl e \<Rightarrow> Inl Terminate
      | Inr c' \<Rightarrow> Inr c')"

definition main_async_tcp_client :: "(nat \<Rightarrow> async_client \<Rightarrow> async_client) \<Rightarrow> (nat \<Rightarrow> error_code + nat) \<Rightarrow>
    (nat \<Rightarrow> error_code option) \<Rightarrow> fault + async_client option" where
  "main_async_tcp_client io endpoint open_error =
     rbind (start_request 10 endpoint open_error 0 1 AsyncTCPClient) (\<lambda>c1.
     rbind (start_request 11 endpoint open_error 1 2 (io 0 c1)) (\<lambda>c2.
       let c3 = CancelRequest 1 (io 1 c2)
       in rbind (start_request 12 endpoint open_error 2 3 (io 2 c3)) (\<lambda>c4. Inr (Close (io 3 c4)))))"

text \<open>What its callback has printed.\<close>

definition printed_lines :: "(error_code \<Rightarrow> string) \<Rightarrow> error_code \<Rightarrow> async_client \<Rightarrow> string list" where
  "printed_lines message aborted c =
     map (\<lambda>(i, request_id, response, ec). callback_output message aborted request_id response ec) (calls c)"

section \<open>Lemmas\<close>

text \<open>The completions keep the invariant and the number of requests.\<close>

lemma event_steps_keep:
  assumes "(event_step aborted)\<^sup>*\<^sup>* c c'"
  shows "(async_step aborted)\<^sup>*\<^sup>* c c' \<and> length (sessions c') = length (sessions c)"
  using assms
proof (induction rule: rtranclp_induct)
  case (step d e)
  from step(2) obtain i ec bs where e: "event_enabled i ec bs d" "e = io_event aborted i ec bs d"
    by (auto elim: event_step.cases)
  then have "async_step aborted d e" by (simp add: async_step.event)
  moreover have "i < length (sessions d)" "in_flight (sessions d ! i) \<noteq> None" using e(1) by (simp_all add: event_enabled_def)
  from io_event_cases [OF this, of aborted ec bs] have "length (sessions e) = length (sessions d)"
    by (auto simp: e(2) continued_def completed_def)
  ultimately show ?case using step.IH
    by (auto intro: rtranclp.rtrancl_into_rtrancl)
qed simp

lemma CancelRequest_sessions: "length (sessions (CancelRequest rid c)) = length (sessions c)"
  by (simp add: CancelRequest_def split: option.split)

lemma start_request_step:
  assumes "start_request d endpoint open_error k rid c = Inr c'"
  shows "async_step aborted c c'" "length (sessions c') = Suc (length (sessions c))"
proof -
  have e: "EmulateLongComputationOp d (endpoint k) (open_error k) rid c = Inr c'"
    using assms by (simp add: start_request_def split: sum.splits)
  then show "async_step aborted c c'" by (rule async_step.request)
  show "length (sessions c') = Suc (length (sessions c))"
    using e by (auto simp: EmulateLongComputationOp_def rbind_Inr_iff Let_def split: option.splits)
qed

lemma each_once:
  assumes "\<And>i. i < n \<Longrightarrow> length (filter (\<lambda>x. f x = i) xs) = 1" "\<And>x. x \<in> set xs \<Longrightarrow> f x < n"
  shows "mset (map f xs) = mset [0..<n]"
proof (rule multiset_eqI)
  fix i
  have c: "count (mset (map f xs)) i = length (filter (\<lambda>x. f x = i) xs)"
    by (induction xs) simp_all
  show "count (mset (map f xs)) i = count (mset [0..<n]) i"
  proof (cases "i < n")
    case True
    then show ?thesis using assms(1) c by (simp add: count_mset_set)
  next
    case False
    then have "filter (\<lambda>x. f x = i) xs = []" using assms(2) by (auto simp: filter_empty_conv)
    then show ?thesis using False c by simp
  qed
qed

section \<open>Properties\<close>

text \<open>
  When the program of the asynchronous client ends, whatever completions came in whatever order,
  each of its three requests has been called back exactly once, with one line printed for each.
\<close>

theorem async_program_reports_all:
  assumes "\<And>k c. (event_step aborted)\<^sup>*\<^sup>* c (io k c)"
    and "main_async_tcp_client io endpoint open_error = Inr (Some c)"
  shows "mset (map fst (calls c)) = {#0, 1, 2#} \<and> length (printed_lines message aborted c) = 3"
proof -
  note keep = event_steps_keep [OF assms(1)]
  obtain c1 c2 c4 where run: "start_request 10 endpoint open_error 0 1 AsyncTCPClient = Inr c1"
    "start_request 11 endpoint open_error 1 2 (io 0 c1) = Inr c2"
    "start_request 12 endpoint open_error 2 3 (io 2 (CancelRequest 1 (io 1 c2))) = Inr c4"
    "Close (io 3 c4) = Some c"
    using assms(2) by (auto simp: main_async_tcp_client_def rbind_Inr_iff Let_def)
  let ?R = "(async_step aborted)\<^sup>*\<^sup>*"
  have "?R AsyncTCPClient c1" using start_request_step(1) [OF run(1)] by blast
  also have "?R c1 (io 0 c1)" using keep by blast
  also have "?R (io 0 c1) c2" using start_request_step(1) [OF run(2)] by blast
  also have "?R c2 (io 1 c2)" using keep by blast
  also have "?R (io 1 c2) (CancelRequest 1 (io 1 c2))" using async_step.cancel by blast
  also have "?R (CancelRequest 1 (io 1 c2)) (io 2 (CancelRequest 1 (io 1 c2)))" using keep by blast
  also have "?R (io 2 (CancelRequest 1 (io 1 c2))) c4" using start_request_step(1) [OF run(3)] by blast
  also have "?R c4 (io 3 c4)" using keep by blast
  finally have "async_reachable aborted (io 3 c4)" by (simp add: async_reachable_def)
  then have inv: "calls_ok (io 3 c4)" using async_reachable_inv by (simp add: async_inv_def)
  have n: "length (sessions (io 3 c4)) = 3"
    using keep start_request_step(2) [OF run(1)] start_request_step(2) [OF run(2)] start_request_step(2) [OF run(3)]
    by (simp add: CancelRequest_sessions AsyncTCPClient_def)
  have cl: "calls c = calls (io 3 c4)" and none: "nothing_in_flight (io 3 c4)"
    using run(4) by (auto simp: Close_def nothing_in_flight_def Let_def split: if_splits)
  have "mset (map fst (calls c)) = mset [0..<3]"
    using inv none n unfolding cl
    by (intro each_once) (auto simp: calls_ok_def calls_of_def nothing_in_flight_def list_all_length)
  also have "mset [0..<3] = {#0, 1, 2 :: nat#}" by (simp add: upt_rec)
  finally have m: "mset (map fst (calls c)) = {#0, 1, 2#}" .
  then have "length (map fst (calls c)) = 3" by (metis add.commute size_mset numeral_3_eq_3 size_add_mset size_empty)
  with m show ?thesis by (simp add: printed_lines_def)
qed

text \<open>Nothing answers until \<open>Close\<close>; then every operation fails.\<close>

definition fail_if_enabled :: "nat \<Rightarrow> async_client \<Rightarrow> async_client" where
  "fail_if_enabled i c =
     (if event_enabled i operation_aborted [] c then io_event operation_aborted i operation_aborted [] c else c)"

definition late_failures :: "nat \<Rightarrow> async_client \<Rightarrow> async_client" where
  "late_failures k c = (if k = 3 then fail_if_enabled 2 (fail_if_enabled 1 (fail_if_enabled 0 c)) else c)"

lemma late_failures_events: "(event_step operation_aborted)\<^sup>*\<^sup>* c (late_failures k c)"
proof -
  have f: "(event_step operation_aborted)\<^sup>*\<^sup>* c (fail_if_enabled i c)" for i c
    by (auto simp: fail_if_enabled_def intro: event_step.intros)
  show ?thesis unfolding late_failures_def using f by (auto intro: rtranclp_trans [OF f rtranclp_trans [OF f f]])
qed

definition failed_program :: async_client where
  "failed_program = (case main_async_tcp_client late_failures Inr (\<lambda>_. None) of Inr (Some c) \<Rightarrow> c | _ \<Rightarrow> AsyncTCPClient)"

lemma failed_program_run: "main_async_tcp_client late_failures Inr (\<lambda>_. None) = Inr (Some failed_program)"
  by (simp add: failed_program_def main_async_tcp_client_def start_request_def EmulateLongComputationOp_def
      AsyncTCPClient_def new_session_def set_session_def CancelRequest_def late_failures_def fail_if_enabled_def
      event_enabled_def io_event_def on_connect_def go_on_def OnRequestComplete_def Close_def nothing_in_flight_def
      operation_aborted_def failed_def Let_def)

theorem async_program_reports_all_witness:
  "mset (map fst (calls failed_program)) = {#0, 1, 2#} \<and>
   length (printed_lines (\<lambda>_. []) operation_aborted failed_program) = 3"
  by (rule async_program_reports_all [OF late_failures_events failed_program_run])

text \<open>A request whose address is wrong or whose socket cannot be opened ends the process.\<close>

theorem async_program_terminates_on_error:
  assumes "endpoint 0 = Inl e \<or> open_error 0 = Some e"
  shows "main_async_tcp_client io endpoint open_error = Inl Terminate"
  using assms
  by (cases "endpoint 0") (auto simp: main_async_tcp_client_def start_request_def EmulateLongComputationOp_def Let_def)

theorem async_program_terminates_on_error_witness:
  "main_async_tcp_client late_failures (\<lambda>_. Inl operation_aborted) (\<lambda>_. None) = Inl Terminate"
  by (rule async_program_terminates_on_error) simp

end
