(* ===== verification/Server_System.thy ===== *)
theory Server_System
  imports Simple_Client
begin

text \<open>
  The server together with what happened to it: beside the server of \<open>Net_Server\<close> a history keeps
  one \<open>link\<close> of \<open>Connection_Protocol\<close> per connection (the messages it accepted, the bytes it wrote and
  read, the messages it handed over) and the messages given to \<open>OnMessage\<close>. The history restricts
  nothing: every execution of the server has one. With it the guarantees of single connections carry
  over to the whole server, whose connections share one incoming queue, and what the callbacks of
  \<open>simple_server.cpp\<close> answer is related to what the clients asked.
\<close>

section \<open>Histories\<close>

record 't history =
  srv :: "'t server"
  links :: "'t link list"
  handled :: "'t owned_message list"

text \<open>A connection is started by the \<open>ReadHeader\<close> of \<open>ConnectToClient\<close>; a denied one never is.\<close>

definition track :: "'t connection \<Rightarrow> 't link \<Rightarrow> 't link" where
  "track c w = w\<lparr>lk := c, started := started w \<or> filter is_read (pending c) \<noteq> []\<rparr>"

definition link_of :: "'t \<Rightarrow> 't history \<Rightarrow> nat \<Rightarrow> 't link" where
  "link_of z h r = (if r < length (links h) then links h ! r else link_start r Owner_server True z)"

definition follow :: "'t \<Rightarrow> 't server \<Rightarrow> 't history \<Rightarrow> 't history" where
  "follow z s h = h\<lparr>srv := s,
     links := map (\<lambda>r. track (objects s ! r) (link_of z h r)) [0..<length (objects s)]\<rparr>"

definition completed :: "nat \<Rightarrow> 't op \<Rightarrow> error_code \<Rightarrow> byte list \<Rightarrow> 't connection \<Rightarrow> 't owned_message tsqueue \<Rightarrow>
    't history \<Rightarrow> 't history" where
  "completed r p ec bs c q h = h\<lparr>
     srv := (srv h)\<lparr>objects := (objects (srv h))[r := c], m_qMessagesIn := q\<rparr>,
     links := (links h)[r := observe p ec bs ((links h ! r)\<lparr>lk_in := m_qMessagesIn (srv h)\<rparr>) (c, q)]\<rparr>"

text \<open>
  The steps of \<open>server_step\<close> that are no fault. \<open>calls m\<close>: the program calls \<open>MessageClient\<close> or
  \<open>MessageAllClients\<close> with the message \<open>m\<close> outside the callbacks.
\<close>

inductive history_step :: "('t message \<Rightarrow> bool) \<Rightarrow> 't callbacks \<Rightarrow> (error_code \<Rightarrow> string) \<Rightarrow> 't \<Rightarrow> 't codec \<Rightarrow>
    't history \<Rightarrow> 't history \<Rightarrow> bool" for calls cb describe z cd where
  starts: "Start thread_error (srv h) = Inr (ok, s) \<Longrightarrow>
    history_step calls cb describe z cd h (follow z s h)"
| stops: "history_step calls cb describe z cd h (follow z (Stop (srv h)) h)"
| accepts: "running (srv h) \<Longrightarrow> 0 < accepts (srv h) \<Longrightarrow>
    accept_handler cb describe z ec peer ((srv h)\<lparr>accepts := accepts (srv h) - 1\<rparr>) = Inr s \<Longrightarrow>
    history_step calls cb describe z cd h (follow z s h)"
| completes: "running (srv h) \<Longrightarrow> r < length (objects (srv h)) \<Longrightarrow> p \<in> set (pending (objects (srv h) ! r)) \<Longrightarrow>
    asio_contract cd p ec bs \<Longrightarrow> referenced (srv h) r \<Longrightarrow>
    complete_op cd p ec bs (objects (srv h) ! r) (m_qMessagesIn (srv h)) = Inr (c, q) \<Longrightarrow>
    history_step calls cb describe z cd h (completed r p ec bs c q h)"
| processes: "deqQueue (m_qMessagesIn (srv h)) = om # rest \<Longrightarrow> update_round cb (srv h) = Inr s \<Longrightarrow>
    history_step calls cb describe z cd h ((follow z s h)\<lparr>handled := handled h @ [om]\<rparr>)"
| messages_one: "calls m \<Longrightarrow> p \<in> set (m_deqConnections (srv h)) \<Longrightarrow> MessageClient cb p m (srv h) = Inr s \<Longrightarrow>
    history_step calls cb describe z cd h (follow z s h)"
| messages_all: "calls m \<Longrightarrow> MessageAllClients cb m ign (srv h) = Inr s \<Longrightarrow>
    history_step calls cb describe z cd h (follow z s h)"

definition new_history :: "'t history" where
  "new_history = \<lparr>srv = new_server, links = [], handled = []\<rparr>"

definition history_reachable :: "('t message \<Rightarrow> bool) \<Rightarrow> 't callbacks \<Rightarrow> (error_code \<Rightarrow> string) \<Rightarrow> 't \<Rightarrow> 't codec \<Rightarrow>
    't history \<Rightarrow> bool" where
  "history_reachable calls cb describe z cd h \<longleftrightarrow> (history_step calls cb describe z cd)\<^sup>*\<^sup>* new_history h"

lemma follow_simps [simp]:
  "srv (follow z s h) = s" "handled (follow z s h) = handled h" "length (links (follow z s h)) = length (objects s)"
  "r < length (objects s) \<Longrightarrow> links (follow z s h) ! r = track (objects s ! r) (link_of z h r)"
  by (simp_all add: follow_def)

lemma completed_simps [simp]:
  "srv (completed r p ec bs c q h) = (srv h)\<lparr>objects := (objects (srv h))[r := c], m_qMessagesIn := q\<rparr>"
  "handled (completed r p ec bs c q h) = handled h" "length (links (completed r p ec bs c q h)) = length (links h)"
  by (simp_all add: completed_def)

lemma track_simps [simp]:
  "lk (track c w) = c" "accepted (track c w) = accepted w" "wire_out (track c w) = wire_out w"
  "wire_in (track c w) = wire_in w" "received (track c w) = received w"
  by (simp_all add: track_def)

section \<open>Histories and executions\<close>

lemma history_step_server:
  assumes "history_step calls cb describe z cd h h'"
  shows "server_step cb describe z cd (Inr (srv h)) (Inr (srv h'))"
  using assms
proof cases
  case (starts thread_error ok s)
  then show ?thesis using server_step.start [of cb describe z cd "srv h" thread_error] by simp
next
  case stops
  then show ?thesis using server_step.stop [of cb describe z cd "srv h"] by simp
next
  case (accepts ec peer s)
  then show ?thesis using server_step.accept [of "srv h" cb describe z cd ec peer] by simp
next
  case (completes r p ec bs c q)
  then show ?thesis using server_step.event [of "srv h" r p cd ec bs cb describe z]
    by (simp add: connection_event_def)
next
  case (processes om rest s)
  then show ?thesis using server_step.process [of "srv h" cb describe z cd] by simp
next
  case (messages_one m p s)
  then show ?thesis using server_step.message_one [of p "srv h" cb describe z cd m] by simp
next
  case (messages_all m ign s)
  then show ?thesis using server_step.message_all [of cb describe z cd "srv h" m ign] by simp
qed

lemma server_step_history:
  assumes "server_step cb describe z cd (Inr (srv h)) (Inr s)"
  shows "\<exists>h'. history_step (\<lambda>_. True) cb describe z cd h h' \<and> srv h' = s"
  using assms
proof cases
  case (start thread_error)
  then obtain ok where "Start thread_error (srv h) = Inr (ok, s)" by (auto simp: rbind_Inr_iff dest!: sym [of "Inr s"])
  from history_step.starts [OF this] show ?thesis by fastforce
next
  case stop
  then show ?thesis using history_step.stops [of "\<lambda>_. True" cb describe z cd h] by fastforce
next
  case (accept ec peer)
  then show ?thesis using history_step.accepts [of h cb describe z ec peer s] by fastforce
next
  case (event r p ec bs)
  from event(1) [symmetric] obtain c q where "referenced (srv h) r"
    "complete_op cd p ec bs (objects (srv h) ! r) (m_qMessagesIn (srv h)) = Inr (c, q)"
    "s = (srv h)\<lparr>objects := (objects (srv h))[r := c], m_qMessagesIn := q\<rparr>"
    by (auto simp: connection_event_def rbind_Inr_iff split: if_splits)
  with event history_step.completes [of h r p cd ec bs c q "\<lambda>_. True" cb describe z] show ?thesis
    by fastforce
next
  case process
  then obtain om rest where "deqQueue (m_qMessagesIn (srv h)) = om # rest"
    by (cases "deqQueue (m_qMessagesIn (srv h))") auto
  from history_step.processes [OF this process(1) [symmetric], of "\<lambda>_. True" describe z cd] show ?thesis by fastforce
next
  case (message_one p m)
  then show ?thesis using history_step.messages_one [of "\<lambda>_. True" m p h cb s] by fastforce
next
  case (message_all m ign)
  then show ?thesis using history_step.messages_all [of "\<lambda>_. True" m cb ign h s] by fastforce
qed

text \<open>The history is erased by \<open>srv\<close>: every execution of the server has a history.\<close>

interpretation recorded: simulation "\<lambda>r. r = Inr new_server" "server_step cb describe z cd"
    "\<lambda>h. h = new_history" "history_step (\<lambda>_. True) cb describe z cd"
    "\<lambda>r h. case r of Inl f \<Rightarrow> True | Inr s \<Rightarrow> srv h = s" for cb describe z cd
proof unfold_locales
  fix r r' :: "fault + 'a server" and h :: "'a history"
  assume h: "case r of Inl f \<Rightarrow> True | Inr s \<Rightarrow> srv h = s" and st: "server_step cb describe z cd r r'"
  show "\<exists>h'. (history_step (\<lambda>_. True) cb describe z cd)\<^sup>*\<^sup>* h h' \<and> (case r' of Inl f \<Rightarrow> True | Inr s \<Rightarrow> srv h' = s)"
  proof (cases r')
    case (Inr s)
    obtain s0 where "r = Inr s0" using st by cases auto
    with h st Inr server_step_history [of cb describe z cd h s] show ?thesis by (auto intro: r_into_rtranclp)
  qed auto
qed (simp add: new_history_def)

interpretation erased: simulation "\<lambda>h. h = new_history" "history_step calls cb describe z cd"
    "\<lambda>r. r = Inr new_server" "server_step cb describe z cd" "\<lambda>h r. r = Inr (srv h)"
    for calls cb describe z cd
  by unfold_locales (auto simp: new_history_def intro: history_step_server r_into_rtranclp)

lemma history_of_run:
  assumes "server_reachable cb describe z cd (Inr s)"
  obtains h where "history_reachable (\<lambda>_. True) cb describe z cd h" "srv h = s"
  using recorded.rel_reachable [OF refl, of cb describe z cd "Inr s"] assms
  unfolding server_reachable_def history_reachable_def by auto

lemma run_of_history:
  "history_reachable calls cb describe z cd h \<Longrightarrow> server_reachable cb describe z cd (Inr (srv h))"
  using erased.rel_reachable [OF refl, of calls cb describe z cd h]
  unfolding server_reachable_def history_reachable_def by auto

section \<open>What a callback leaves of a link\<close>

lemma posts_frame:
  assumes "posts c c'"
  shows "m_msgTemporaryIn c' = m_msgTemporaryIn c" "filter is_read (pending c') = filter is_read (pending c)"
proof -
  obtain ps where ps: "list_all posted ps" "c' = c\<lparr>pending := pending c @ ps\<rparr>"
    using assms by (auto simp: posts_def)
  have "filter is_read ps = []" using ps(1) by (induction ps) (auto elim!: posted.elims)
  with ps show "m_msgTemporaryIn c' = m_msgTemporaryIn c" "filter is_read (pending c') = filter is_read (pending c)"
    by simp_all
qed

text \<open>Both sides of one link are in one of the states of \<open>Connection_Protocol\<close>.\<close>

definition link_ok :: "'t codec \<Rightarrow> 't connection \<Rightarrow> 't link \<Rightarrow> bool" where
  "link_ok cd c w \<longleftrightarrow> lk w = c \<and> write_inv cd w \<and> read_inv cd w"

lemma read_begun: "read_inv cd w \<Longrightarrow> filter is_read (pending (lk w)) \<noteq> [] \<Longrightarrow> started w"
  unfolding read_inv_def by (metis list.set_intros(1) neq_Nil_conv read_ok_single)

lemma link_ok_posts:
  assumes "link_ok cd c w" "posts c c'"
  shows "link_ok cd c' (track c' w)"
proof -
  have w: "lk w = c" "write_inv cd w" "read_inv cd w" using assms(1) by (simp_all add: link_ok_def)
  have "started (track c' w) = started w"
    using read_begun [OF w(3)] posts_frame [OF assms(2)] w(1) by (auto simp: track_def)
  with w show ?thesis
    using posts_fields [OF assms(2)] posts_frame [OF assms(2)]
    by (simp add: link_ok_def write_inv_def read_inv_def)
qed

lemma link_ok_new: "link_ok cd (new_connection r Owner_server True z) (link_start r Owner_server True z)"
  by (simp add: link_ok_def link_start_def write_inv_def read_inv_def new_connection_def)

lemma link_ok_begin:
  assumes ok: "link_ok cd c w" and idle: "filter is_read (pending c) = []" "\<not> started w"
    and c: "m_nOwnerType c = Owner_server" "sock_open c"
  shows "link_ok cd (ConnectToClient uid c) (track (ConnectToClient uid c) w)"
proof -
  have w: "lk w = c" "write_inv cd w" "read_inv cd w" using ok by (simp_all add: link_ok_def)
  have "track (ConnectToClient uid c) w = w\<lparr>lk := ConnectToClient uid (lk w), started := True\<rparr>"
    using w(1) c by (simp add: track_def ConnectToClient_def ReadHeader_def)
  with write_inv_calls(1) [OF w(2)] read_inv_calls(1) [OF w(3) idle(2)] w(1) show ?thesis
    by (simp add: link_ok_def)
qed

lemma link_ok_completion:
  assumes ok: "link_ok cd c w" and p: "p \<in> set (pending c)" "asio_contract cd p ec bs"
    and r: "complete_op cd p ec bs c q = Inr (c', q')"
  shows "link_ok cd c' (observe p ec bs (w\<lparr>lk_in := q\<rparr>) (c', q'))"
proof -
  let ?w = "w\<lparr>lk_in := q\<rparr>"
  have w: "lk ?w = c" "write_inv cd ?w" "read_inv cd ?w"
    using ok write_inv_calls(6) read_inv_calls(6) by (auto simp: link_ok_def)
  from write_inv_completion [OF w(2), of p ec bs] read_inv_completion [OF w(3), of p ec bs] p r w(1)
  show ?thesis by (simp add: link_ok_def observe_def)
qed

section \<open>Invariant\<close>

definition from_client :: "nat \<Rightarrow> 't owned_message list \<Rightarrow> 't message list" where
  "from_client r oms = map msg (filter (\<lambda>om. remote om = Some r) oms)"

lemma from_client_simps [simp]:
  "from_client r [] = []" "from_client r (xs @ ys) = from_client r xs @ from_client r ys"
  "from_client r (om # oms) = (if remote om = Some r then msg om # from_client r oms else from_client r oms)"
  by (simp_all add: from_client_def)

lemma from_client_invalid:
  "list_all (\<lambda>om. valid_ref s (remote om)) oms \<Longrightarrow> length (objects s) \<le> r \<Longrightarrow> from_client r oms = []"
  by (induction oms) (auto simp: valid_ref_def)

text \<open>
  The messages a connection handed over are those already given to \<open>OnMessage\<close> and those still in the
  shared queue, in this order.
\<close>

definition history_ok :: "'t codec \<Rightarrow> 't history \<Rightarrow> bool" where
  "history_ok cd h \<longleftrightarrow> server_ok cd (srv h) \<and> length (links h) = length (objects (srv h)) \<and>
     list_all (\<lambda>om. valid_ref (srv h) (remote om)) (handled h) \<and>
     (\<forall>r < length (objects (srv h)). link_ok cd (objects (srv h) ! r) (links h ! r) \<and>
        received (links h ! r) = from_client r (handled h @ deqQueue (m_qMessagesIn (srv h))))"

lemma history_okD:
  assumes "history_ok cd h"
  shows "server_ok cd (srv h)" "refs_ok (srv h)" "length (links h) = length (objects (srv h))"
    "list_all (\<lambda>om. valid_ref (srv h) (remote om)) (handled h @ deqQueue (m_qMessagesIn (srv h)))"
    "r < length (objects (srv h)) \<Longrightarrow> link_ok cd (objects (srv h) ! r) (links h ! r)"
    "r < length (objects (srv h)) \<Longrightarrow>
      received (links h ! r) = from_client r (handled h @ deqQueue (m_qMessagesIn (srv h)))"
  using assms by (auto simp: history_ok_def server_ok_def refs_ok_def)

lemma history_ok_init: "history_ok cd new_history"
  using server_ok_init by (auto simp: history_ok_def new_history_def) (simp_all add: new_server_def)

lemma history_ok_follow:
  assumes ok: "history_ok cd h" and s: "server_ok cd s" "m_qMessagesIn s = m_qMessagesIn (srv h)"
    "length (objects (srv h)) \<le> length (objects s)"
    and lk: "\<And>r. r < length (objects s) \<Longrightarrow> link_ok cd (objects s ! r) (track (objects s ! r) (link_of z h r))"
  shows "history_ok cd (follow z s h)"
proof -
  note d = history_okD [OF ok]
  have "valid_ref (srv h) p \<Longrightarrow> valid_ref s p" for p using s(3) by (auto simp: valid_ref_def)
  moreover have "received (link_of z h r) = from_client r (handled h @ deqQueue (m_qMessagesIn s))" for r
  proof (cases "r < length (objects (srv h))")
    case True
    then show ?thesis using d(3,6) s(2) by (simp add: link_of_def)
  next
    case False
    then show ?thesis using from_client_invalid [OF d(4), of r] d(3) s(2) by (simp add: link_of_def link_start_def)
  qed
  ultimately show ?thesis using s(1) d(4) lk by (auto simp: history_ok_def list_all_iff)
qed

lemma history_ok_posts:
  assumes "history_ok cd h" "server_ok cd s" "m_qMessagesIn s = m_qMessagesIn (srv h)"
    and p: "list_all2 posts (objects (srv h)) (objects s)"
  shows "history_ok cd (follow z s h)"
proof (rule history_ok_follow [OF assms(1-3)])
  show "length (objects (srv h)) \<le> length (objects s)" using list_all2_lengthD [OF p] by simp
  fix r
  assume "r < length (objects s)"
  moreover from this have "posts (objects (srv h) ! r) (objects s ! r)"
    using p by (simp add: list_all2_conv_all_nth)
  ultimately show "link_ok cd (objects s ! r) (track (objects s ! r) (link_of z h r))"
    using link_ok_posts [of cd "objects (srv h) ! r" "links h ! r"] history_okD(3,5) [OF assms(1)]
      list_all2_lengthD [OF p] by (simp add: link_of_def)
qed

lemma history_ok_served:
  assumes ok: "history_ok cd h" and sv: "served (srv h) s"
  shows "history_ok cd (follow z s h)"
  using history_ok_posts [OF ok server_ok_served [OF history_okD(1) [OF ok] sv]] sv
  by (simp add: served_def same_rest_def objects_post_def)

text \<open>What an accept handler leaves of the connections.\<close>

definition accepted_objects :: "'t \<Rightarrow> 't connection list \<Rightarrow> 't connection list \<Rightarrow> bool" where
  "accepted_objects z os os' \<longleftrightarrow> os' = os \<or>
     (\<exists>ps. list_all2 posts (os @ [new_connection (length os) Owner_server True z]) ps \<and>
        (os' = ps \<or> (\<exists>uid. os' = ps[length os := ConnectToClient uid (ps ! length os)])))"

context server_callbacks
begin

lemma accept_shape:
  assumes ok: "server_ok cd s" and r: "accept_handler cb describe z ec peer s = Inr s'"
  shows "m_qMessagesIn s' = m_qMessagesIn s \<and> accepted_objects z (objects s) (objects s')"
proof (cases "failed ec \<or> peer = None")
  case True
  then show ?thesis using r
    by (cases "failed ec"; cases peer) (auto simp: accept_handler_def WaitForClientConnection_def accepted_objects_def)
next
  case False
  then obtain address where a: "peer = Some address" "\<not> failed ec" by auto
  let ?s1 = "say (''[SERVER] New Connection: '' @ address) s" and ?r = "length (objects s)"
  let ?s2 = "with_new z ?s1"
  have ok1: "server_ok cd ?s1" using ok by simp
  have o2: "objects ?s2 = objects s @ [new_connection ?r Owner_server True z]" "m_qMessagesIn ?s2 = m_qMessagesIn s"
    by (simp_all add: with_new_def)
  have "refs_ok ?s2" using server_ok_new(1) [OF ok1] by (simp add: server_ok_def)
  moreover have "valid_ref ?s2 (Some ?r)" using o2(1) by (simp add: valid_ref_def)
  ultimately obtain b s3 where s3: "OnClientConnect cb (Some ?r) ?s2 = Inr (b, s3)" "served ?s2 s3"
    using connect_served by blast
  have p: "list_all2 posts (objects ?s2) (objects s3)" using s3(2) by (simp add: served_def objects_post_def)
  have q: "m_qMessagesIn s3 = m_qMessagesIn s" using servedD(7) [OF s3(2)] o2(2) by simp
  show ?thesis
  proof (cases b)
    case True
    have "length (objects s) < length (objects s3)" using servedD(1) [OF s3(2)] o2(1) by simp
    with accept_approved [OF a, of cb s z s3 describe] s3(1) True r show ?thesis
      using p q unfolding o2(1)
      by (auto simp: WaitForClientConnection_def approve_def accepted_objects_def)
  next
    case False
    then show ?thesis using a s3(1) r p q unfolding o2(1)
      by (auto simp: accept_handler_def Let_def with_new_def WaitForClientConnection_def accepted_objects_def)
  qed
qed

end

lemma history_ok_accept:
  assumes ok: "history_ok cd h" and s: "server_ok cd s" "m_qMessagesIn s = m_qMessagesIn (srv h)"
    and acc: "accepted_objects z (objects (srv h)) (objects s)"
  shows "history_ok cd (follow z s h)"
proof (cases "objects s = objects (srv h)")
  case True
  with history_ok_posts [OF ok s] show ?thesis by (simp add: list_all2_refl)
next
  case False
  let ?os = "objects (srv h)"
  let ?n = "length ?os" and ?c = "new_connection (length ?os) Owner_server True z"
  obtain ps where ps: "list_all2 posts (?os @ [?c]) ps"
    and s': "objects s = ps \<or> (\<exists>uid. objects s = ps[?n := ConnectToClient uid (ps ! ?n)])"
    using acc False by (auto simp: accepted_objects_def)
  have len: "length ps = Suc ?n" "length (objects s) = Suc ?n" using list_all2_lengthD [OF ps] s' by auto
  note d = history_okD [OF ok]
  show ?thesis
  proof (rule history_ok_follow [OF ok s])
    fix r
    assume r: "r < length (objects s)"
    then have p: "posts ((?os @ [?c]) ! r) (ps ! r)" using ps len by (simp add: list_all2_conv_all_nth)
    have "link_ok cd ((?os @ [?c]) ! r) (link_of z h r)"
      using r len d(3,5) link_ok_new by (cases "r = ?n") (auto simp: link_of_def nth_append)
    note lp = link_ok_posts [OF this p]
    show "link_ok cd (objects s ! r) (track (objects s ! r) (link_of z h r))"
    proof (cases "objects s ! r = ps ! r")
      case True
      with lp show ?thesis by simp
    next
      case False
      then obtain uid where u: "r = ?n" "objects s ! r = ConnectToClient uid (ps ! r)"
        using s' len by (cases "r = ?n") auto
      have c: "filter is_read (pending (ps ! r)) = []" "m_nOwnerType (ps ! r) = Owner_server" "sock_open (ps ! r)"
        using posts_frame(2) [OF p] posts_fields [OF p] u(1) by (simp_all add: new_connection_def)
      have st: "\<not> started (track (ps ! r) (link_of z h r))"
        using u(1) d(3) c(1) by (simp add: track_def link_of_def link_start_def)
      from link_ok_begin [OF lp c(1) st c(2,3), of uid] show ?thesis
        unfolding u(2) by (simp add: track_def c(1))
    qed
  qed (use len in simp)
qed

text \<open>A message handed over goes to the back of the queue and belongs to the connection it came from.\<close>

lemma history_ok_completed:
  assumes ok: "history_ok cd h" and r: "r < length (objects (srv h))" "p \<in> set (pending (objects (srv h) ! r))"
    "asio_contract cd p ec bs" "referenced (srv h) r"
    and c: "complete_op cd p ec bs (objects (srv h) ! r) (m_qMessagesIn (srv h)) = Inr (c, q)"
  shows "history_ok cd (completed r p ec bs c q h)"
proof -
  note d = history_okD [OF ok]
  let ?s = "(srv h)\<lparr>objects := (objects (srv h))[r := c], m_qMessagesIn := q\<rparr>"
  let ?w = "observe p ec bs ((links h ! r)\<lparr>lk_in := m_qMessagesIn (srv h)\<rparr>) (c, q)"
  have "connection_event cd r p ec bs (srv h) = Inr ?s" using r(4) c by (simp add: connection_event_def)
  with server_ok_event [OF d(1) r] have s: "server_ok cd ?s" by auto
  have own: "self (objects (srv h) ! r) = r" "m_nOwnerType (objects (srv h) ! r) = Owner_server"
    using server_ok_obj [OF d(1) r(1)] by simp_all
  then have q: "q = m_qMessagesIn (srv h) \<or>
      (\<exists>m. deqQueue q = deqQueue (m_qMessagesIn (srv h)) @ [\<lparr>remote = Some r, msg = m\<rparr>])"
    using complete_op_frame [OF c] by auto
  have "link_ok cd c ?w" by (rule link_ok_completion [OF d(5) [OF r(1)] r(2,3) c])
  moreover have "received ?w = from_client r (handled h @ deqQueue q)"
    using q d(6) [OF r(1)] by (auto simp: observe_def)
  moreover have "from_client i (handled h @ deqQueue q) = from_client i (handled h @ deqQueue (m_qMessagesIn (srv h)))"
    if "i \<noteq> r" for i using q that by auto
  ultimately have "link_ok cd (objects ?s ! i) ((links h)[r := ?w] ! i) \<and>
      received ((links h)[r := ?w] ! i) = from_client i (handled h @ deqQueue q)"
    if "i < length (objects (srv h))" for i
    using that d(3,5,6) by (cases "i = r") simp_all
  with s d(3,4) show ?thesis
    by (simp add: history_ok_def completed_def valid_ref_def)
qed

context server_callbacks
begin

lemma history_ok_processes:
  assumes ok: "history_ok cd h" and q: "deqQueue (m_qMessagesIn (srv h)) = om # rest"
    and u: "update_round cb (srv h) = Inr s"
  shows "history_ok cd ((follow z s h)\<lparr>handled := handled h @ [om]\<rparr>)"
proof -
  let ?s = "(srv h)\<lparr>m_qMessagesIn := (m_qMessagesIn (srv h))\<lparr>deqQueue := rest\<rparr>\<rparr>"
  let ?h = "h\<lparr>srv := ?s, handled := handled h @ [om]\<rparr>"
  note d = history_okD [OF ok]
  have v: "valid_ref ?s = valid_ref (srv h)" by (rule valid_ref_cong) simp
  have s: "server_ok cd ?s" using server_ok_queue [OF d(1)] d(4) q by simp
  then have "refs_ok ?s" by (simp add: server_ok_def)
  moreover have "valid_ref ?s (remote om)" using d(4) q v by simp
  ultimately obtain s' where "OnMessage cb (remote om) (msg om) ?s = Inr s'" "served ?s s'"
    using message_serves unfolding served_def by blast
  with u have sv: "served (srv ?h) s" by (simp add: update_round_def pop_front_Cons [OF q])
  have "history_ok cd ?h" using s d(3-6) q v by (simp add: history_ok_def)
  then have "history_ok cd (follow z s ?h)" using sv by (rule history_ok_served)
  moreover have "follow z s ?h = (follow z s h)\<lparr>handled := handled h @ [om]\<rparr>"
    by (simp add: follow_def link_of_def)
  ultimately show ?thesis by simp
qed

lemma history_ok_step:
  assumes ok: "history_ok cd h" and st: "history_step calls cb describe z cd h h'"
  shows "history_ok cd h'"
proof -
  note d = history_okD [OF ok]
  have same: "history_ok cd (follow z s h)"
    if "server_ok cd s" "m_qMessagesIn s = m_qMessagesIn (srv h)" "objects s = objects (srv h)" for s
    using history_ok_posts [OF ok that(1,2)] that(3) by (simp add: list_all2_refl)
  from st show ?thesis
  proof cases
    case (starts thread_error b s)
    then show ?thesis using same [of s] d(1)
      by (auto simp: Start_def WaitForClientConnection_def Let_def split: option.splits if_splits)
  next
    case stops
    then show ?thesis using same [of "Stop (srv h)"] d(1) by (simp add: Stop_def Let_def)
  next
    case (accepts ec peer s)
    have "server_ok cd ((srv h)\<lparr>accepts := accepts (srv h) - 1\<rparr>)" using d(1) by simp
    from accept_ok [OF this, of describe z ec peer] accept_shape [OF this accepts(4)] accepts
      history_ok_accept [OF ok, of s z]
    show ?thesis by simp
  next
    case (completes r p ec bs c q)
    with history_ok_completed [OF ok] show ?thesis by blast
  next
    case (processes om rest s)
    with history_ok_processes [OF ok] show ?thesis by blast
  next
    case (messages_one m p s)
    obtain s' where "MessageClient cb p m (srv h) = Inr s'" "served (srv h) s'"
      using MessageClient_served [OF d(2) server_ok_valid [OF d(1) messages_one(3)], of m] by blast
    with messages_one history_ok_served [OF ok, of s z] show ?thesis by simp
  next
    case (messages_all m ign s)
    obtain s' where "MessageAllClients cb m ign (srv h) = Inr s'" "served (srv h) s'"
      using MessageAllClients_served [OF d(2), of m ign] by blast
    with messages_all history_ok_served [OF ok, of s z] show ?thesis by simp
  qed
qed

end

sublocale server_callbacks \<subseteq> history: invariant_system "\<lambda>h. h = new_history"
    "history_step calls cb describe z cd" "history_ok cd" for calls describe z cd
  by unfold_locales (auto intro: history_ok_step history_ok_init)

context server_callbacks
begin

lemma history_reachable_ok: "history_reachable calls cb describe z cd h \<Longrightarrow> history_ok cd h"
  using history.inv_reachable unfolding history_reachable_def by blast

end

section \<open>A concrete history\<close>

fun history_exec :: "server_event \<Rightarrow> u32 history \<Rightarrow> u32 history option" where
  "history_exec Sv_start h =
     (case Start None (srv h) of Inl f \<Rightarrow> None | Inr (b, s) \<Rightarrow> Some (follow 0 s h))"
| "history_exec (Sv_accept ec peer) h =
     (if running (srv h) \<and> 0 < accepts (srv h)
      then (case accept_handler custom_callbacks (\<lambda>_. []) 0 ec peer ((srv h)\<lparr>accepts := accepts (srv h) - 1\<rparr>) of
          Inl f \<Rightarrow> None | Inr s \<Rightarrow> Some (follow 0 s h))
      else None)"
| "history_exec (Sv_event r p ec bs) h =
     (if running (srv h) \<and> r < length (objects (srv h)) \<and> p \<in> set (pending (objects (srv h) ! r)) \<and>
         asio_contract custom_codec p ec bs \<and> referenced (srv h) r
      then (case complete_op custom_codec p ec bs (objects (srv h) ! r) (m_qMessagesIn (srv h)) of
          Inl f \<Rightarrow> None | Inr (c, q) \<Rightarrow> Some (completed r p ec bs c q h))
      else None)"
| "history_exec Sv_process h =
     (case deqQueue (m_qMessagesIn (srv h)) of [] \<Rightarrow> None
      | om # rest \<Rightarrow> (case update_round custom_callbacks (srv h) of Inl f \<Rightarrow> None
          | Inr s \<Rightarrow> Some ((follow 0 s h)\<lparr>handled := handled h @ [om]\<rparr>)))"

fun history_run :: "server_event list \<Rightarrow> u32 history \<Rightarrow> u32 history option" where
  "history_run [] h = Some h"
| "history_run (e # es) h = (case history_exec e h of None \<Rightarrow> None | Some h' \<Rightarrow> history_run es h')"

lemma history_exec_step:
  "history_exec e h = Some h' \<Longrightarrow> history_step calls custom_callbacks (\<lambda>_. []) 0 custom_codec h h'"
  by (cases e)
    (auto split: if_splits sum.splits list.splits prod.splits intro: history_step.intros simp del: One_nat_def)

lemma history_run_steps:
  "history_run es h = Some h' \<Longrightarrow> (history_step calls custom_callbacks (\<lambda>_. []) 0 custom_codec)\<^sup>*\<^sup>* h h'"
proof (induction es h rule: history_run.induct)
  case (2 e es h)
  then obtain h1 where h1: "history_exec e h = Some h1" "history_run es h1 = Some h'" by (auto split: option.splits)
  from history_exec_step [OF h1(1)] "2.IH" [OF h1] show ?case by (rule converse_rtranclp_into_rtranclp)
qed simp

text \<open>A client connects, is greeted, and sends a ping, which the server bounces.\<close>

definition time_ping :: "u32 message" where
  "time_ping = ping_message [1, 2, 3, 4, 5, 6, 7, 8]"

definition ping_bytes :: "byte list" where
  "ping_bytes = [2, 0, 0, 0, 8, 0, 0, 0]"

definition served_run :: "server_event list" where
  "served_run =
     [Sv_start, Sv_accept no_error (Some ''a''),
      Sv_event 0 (Send_task accept_message) no_error [],
      Sv_event 0 (Write_header_op (header accept_message)) no_error [0, 0, 0, 0, 0, 0, 0, 0],
      Sv_event 0 Read_header_op no_error ping_bytes,
      Sv_event 0 (Read_body_op 8) no_error [1, 2, 3, 4, 5, 6, 7, 8],
      Sv_process,
      Sv_event 0 (Send_task time_ping) no_error [],
      Sv_event 0 (Write_header_op (header time_ping)) no_error ping_bytes,
      Sv_event 0 (Write_body_op (body time_ping)) no_error [1, 2, 3, 4, 5, 6, 7, 8]]"

definition served_history :: "u32 history" where
  "served_history = (case history_run served_run new_history of Some h \<Rightarrow> h | None \<Rightarrow> new_history)"

definition pinging_run :: "u32 link_event list" where
  "pinging_run =
     [Ev_begin 0, Ev_complete Connect_op no_error [], Ev_send time_ping, Ev_complete (Send_task time_ping) no_error [],
      Ev_complete (Write_header_op (header time_ping)) no_error ping_bytes,
      Ev_complete (Write_body_op (body time_ping)) no_error [1, 2, 3, 4, 5, 6, 7, 8],
      Ev_complete Read_header_op no_error [0, 0, 0, 0, 0, 0, 0, 0],
      Ev_complete Read_header_op no_error ping_bytes,
      Ev_complete (Read_body_op 8) no_error [1, 2, 3, 4, 5, 6, 7, 8]]"

definition pinging_client :: "u32 link" where
  "pinging_client = link_end custom_codec pinging_run (link_start 0 Owner_client True 0)"

lemma time_ping_eq: "time_ping = \<lparr>header = \<lparr>hdr_id = 2, hdr_size = 8\<rparr>, body = [1, 2, 3, 4, 5, 6, 7, 8]\<rparr>"
  by (simp add: time_ping_def ping_message_def ServerPing_def push_data_def new_message_def msg_size_def
      memcpy_into_def vector_resize_def ucast_size_t)

lemma time_bytes:
  "enc_hdr custom_codec \<lparr>hdr_id = 0, hdr_size = 0\<rparr> = [0, 0, 0, 0, 0, 0, 0, 0]"
  "enc_hdr custom_codec \<lparr>hdr_id = 2, hdr_size = 8\<rparr> = ping_bytes"
  by (simp_all add: custom_codec_def u32_bytes_def drop_bit_eq_div ping_bytes_def)

lemma time_of_bytes:
  "dec_hdr custom_codec [0, 0, 0, 0, 0, 0, 0, 0] = \<lparr>hdr_id = 0, hdr_size = 0\<rparr>"
  "dec_hdr custom_codec ping_bytes = \<lparr>hdr_id = 2, hdr_size = 8\<rparr>" "length ping_bytes = 8"
  using custom.dec_enc [of "\<lparr>hdr_id = 0, hdr_size = 0\<rparr>"] custom.dec_enc [of "\<lparr>hdr_id = 2, hdr_size = 8\<rparr>"]
  by (simp_all add: time_bytes) (simp add: ping_bytes_def)

lemma pinging_client_facts:
  "accepted pinging_client = [time_ping]"
  "wire_out pinging_client = ping_bytes @ [1, 2, 3, 4, 5, 6, 7, 8]"
  "wire_in pinging_client = [0, 0, 0, 0, 0, 0, 0, 0] @ ping_bytes @ [1, 2, 3, 4, 5, 6, 7, 8]"
  "received pinging_client = [accept_message, time_ping]"
  by (simp_all add: pinging_client_def pinging_run_def run_simps Let_def time_ping_eq time_bytes time_of_bytes
      accept_message_eq)

lemma pinging_client_reachable: "link_reachable custom_codec (Inr pinging_client)"
  unfolding pinging_client_def by (rule link_end_reachable)

lemma served_history_run: "history_run served_run new_history = Some served_history"
  and served_history_facts: "length (objects (srv served_history)) = 1"
  "handled served_history = [\<lparr>remote = Some 0, msg = time_ping\<rparr>]"
  "accepted (links served_history ! 0) = [accept_message, time_ping]"
  "wire_out (links served_history ! 0) = [0, 0, 0, 0, 0, 0, 0, 0] @ ping_bytes @ [1, 2, 3, 4, 5, 6, 7, 8]"
  "wire_in (links served_history ! 0) = ping_bytes @ [1, 2, 3, 4, 5, 6, 7, 8]"
  by (simp_all add: served_history_def served_run_def new_history_def server_run_simps Let_def follow_def completed_def
      track_def link_of_def link_start_def observe_def time_ping_eq time_bytes time_of_bytes vector_resize_def
      update_round_def custom_OnMessage_def msg_type_defs hdr_of_bytes)

lemma served_history_reachable:
  "history_reachable calls custom_callbacks (\<lambda>_. []) 0 custom_codec served_history"
  using history_run_steps [OF served_history_run] by (simp add: history_reachable_def)

section \<open>Properties\<close>

text \<open>
  The history variables restrict nothing and add nothing: the states the server reaches are exactly
  the server parts of the histories.
\<close>

theorem server_histories:
  "server_reachable cb describe z cd (Inr s) \<longleftrightarrow>
   (\<exists>h. history_reachable (\<lambda>_. True) cb describe z cd h \<and> srv h = s)"
  using history_of_run [of cb describe z cd s] run_of_history [of "\<lambda>_. True" cb describe z cd] by blast

text \<open>
  C5: The server as a whole: although all connections push to one queue, the messages of one client
  are given to \<open>OnMessage\<close> in the order in which that client sent them, none lost in between, repeated
  or attributed to another client; and a client is handed what the server sent it in the same sense.
\<close>

theorem server_serves_in_order:
  assumes "server_callbacks cb" "history_reachable calls cb describe z custom_codec h"
    and "r < length (objects (srv h))" "link_reachable custom_codec (Inr w)"
  shows "(prefix (wire_in (links h ! r)) (wire_out w) \<and> list_all wire_ok (accepted w) \<longrightarrow>
      prefix (from_client r (handled h)) (deliver [] (accepted w))) \<and>
    (prefix (wire_in w) (wire_out (links h ! r)) \<and> list_all wire_ok (accepted (links h ! r)) \<longrightarrow>
      prefix (received w) (deliver [] (accepted (links h ! r))))"
proof -
  have ok: "history_ok custom_codec h"
    by (rule server_callbacks.history_reachable_ok [OF assms(1,2)])
  note d = history_okD [OF ok]
  have l: "write_inv custom_codec (links h ! r)" "read_inv custom_codec (links h ! r)"
    using d(5) [OF assms(3)] by (simp_all add: link_ok_def)
  have w: "write_inv custom_codec w" "read_inv custom_codec w" using link_reachableE [OF assms(4)] by blast+
  have "prefix (from_client r (handled h)) (received (links h ! r))" using d(6) [OF assms(3)] by simp
  then show ?thesis
    using custom.received_from [OF w(1) l(2)] custom.received_from [OF l(1) w(2)]
    by (auto simp: list_all_iff intro: prefix_order.trans)
qed

theorem server_serves_in_order_witness:
  "prefix (from_client 0 (handled served_history)) (deliver [] [time_ping]) \<and>
   prefix (received pinging_client) (deliver [] [accept_message, time_ping])"
proof -
  have "0 < length (objects (srv served_history))" by (simp add: served_history_facts)
  from server_serves_in_order [OF custom_server.server_callbacks_axioms
      served_history_reachable [of "\<lambda>_. True"] this pinging_client_reachable]
  show ?thesis
    by (simp add: served_history_facts pinging_client_facts wire_ok_def time_ping_eq accept_message_eq)
qed

end
