(* ===== verification/Connection_Progress.thy ===== *)
theory Connection_Progress
  imports Duplex_Channel "HOL-Library.Multiset"
begin

text \<open>
  What becomes of the messages given to a connection as long as nothing fails. A connection that was
  never disconnected and of which no operation failed has a write in flight whenever its queue is not
  empty, and a read in flight once it was started (\<open>link_live\<close>); so two such ends joined by a network
  can always go on until everything sent has been delivered, and their completions are bounded.
\<close>

section \<open>The account of a connection\<close>

text \<open>Everything a connection was given to send: accepted already, or with the closure still posted.\<close>

definition posted_messages :: "'t connection \<Rightarrow> 't message list" where
  "posted_messages c = concat (map taken_over (pending c))"

definition outgoing :: "'t link \<Rightarrow> 't message multiset" where
  "outgoing w = mset (accepted w) + mset (posted_messages (lk w))"

lemma posted_simps [simp]:
  "posted_messages (start_op p c) = posted_messages c @ taken_over p"
  "posted_messages (c\<lparr>conn_id := i\<rparr>) = posted_messages c"
  "posted_messages (c\<lparr>m_qMessagesOut := q\<rparr>) = posted_messages c"
  "posted_messages (c\<lparr>m_msgTemporaryIn := m\<rparr>) = posted_messages c"
  "posted_messages (close_socket c) = posted_messages c" "posted_messages (report l c) = posted_messages c"
  by (simp_all add: posted_messages_def)

lemma posted_Sends: "posted_messages (fold Send ms c) = posted_messages c @ ms"
  by (induction ms arbitrary: c) (simp_all add: Send_def)

lemma posted_run:
  "run_handler cd p ec bs c q = Inr (c', q') \<Longrightarrow> posted_messages c' = posted_messages c"
  by (cases p)
    (auto simp: handler_defs WriteHeader_def WriteBody_def ReadHeader_def ReadBody_def Let_def rbind_Inr_iff
      split: if_splits)

lemma posted_remove1:
  "p \<in> set ps \<Longrightarrow> mset (concat (map taken_over ps)) = mset (taken_over p) + mset (concat (map taken_over (remove1 p ps)))"
  by (induction ps) auto

text \<open>A completion moves a posted message to the accepted ones, and no other.\<close>

lemma outgoing_completion:
  assumes "p \<in> set (pending (lk w))" "complete_op cd p ec bs (lk w) q = Inr (c', q')"
  shows "outgoing (observe p ec bs (w\<lparr>lk_in := q\<rparr>) (c', q')) = outgoing w"
proof -
  have "posted_messages c' = concat (map taken_over (remove1 p (pending (lk w))))"
    using posted_run assms(2) unfolding complete_op_def by (fastforce simp: posted_messages_def)
  with posted_remove1 [OF assms(1)] show ?thesis
    by (simp add: outgoing_def observe_def posted_messages_def)
qed

section \<open>Steps of a connection of which nothing fails\<close>

text \<open>A successful completion, and the calls a program makes that does not disconnect.\<close>

inductive works :: "'t codec \<Rightarrow> 't link \<Rightarrow> 't link \<Rightarrow> bool" for cd where
  succeeds: "p \<in> set (pending (lk w)) \<Longrightarrow> asio_contract cd p ec bs \<Longrightarrow> \<not> failed ec \<Longrightarrow>
    complete_op cd p ec bs (lk w) (lk_in w) = Inr r \<Longrightarrow> works cd w (observe p ec bs w r)"

inductive uses :: "'t link \<Rightarrow> 't link \<Rightarrow> bool" where
  begins_server: "\<not> started w \<Longrightarrow> m_nOwnerType (lk w) = Owner_server \<Longrightarrow> sock_open (lk w) \<Longrightarrow>
    uses w (w\<lparr>lk := ConnectToClient uid (lk w), started := True\<rparr>)"
| begins_client: "\<not> started w \<Longrightarrow> m_nOwnerType (lk w) = Owner_client \<Longrightarrow>
    uses w (w\<lparr>lk := ConnectToServer (lk w), started := True\<rparr>)"
| sends_message: "uses w (w\<lparr>lk := Send m (lk w)\<rparr>)"
| socket_opened: "Connect_op \<in> set (pending (lk w)) \<Longrightarrow> uses w (w\<lparr>lk := (lk w)\<lparr>sock_open := True\<rparr>\<rparr>)"
| queue_used: "uses w (w\<lparr>lk_in := q\<rparr>)"

inductive_cases worksE: "works cd w v"

lemma works_link: "works cd w v \<Longrightarrow> link_step cd (Inr w) (Inr v)"
  using link_step.completion by (fastforce elim!: worksE)

lemma uses_link: "uses w v \<Longrightarrow> link_step cd (Inr w) (Inr v)"
  by (erule uses.cases) (auto intro: link_step.intros)

definition link_live :: "'t codec \<Rightarrow> 't link \<Rightarrow> bool" where
  "link_live cd w \<longleftrightarrow> write_inv cd w \<and> read_inv cd w \<and>
     (deqQueue (m_qMessagesOut (lk w)) \<noteq> [] \<longrightarrow> filter is_write (pending (lk w)) \<noteq> []) \<and>
     (started w \<longrightarrow> filter is_read (pending (lk w)) \<noteq> [])"

text \<open>A handler without an error goes on: with the next write if there is one, with the next read always.\<close>

lemma WriteHeader_writes: "WriteHeader c = Inr c' \<Longrightarrow> filter is_write (pending c') \<noteq> []"
  by (auto simp: WriteHeader_def rbind_Inr_iff)

lemma message_written_goes_on:
  "message_written c = Inr c' \<Longrightarrow> deqQueue (m_qMessagesOut c') \<noteq> [] \<Longrightarrow> filter is_write (pending c') \<noteq> []"
  by (fastforce simp: message_written_def Let_def rbind_Inr_iff tsq_empty_def dest: WriteHeader_writes split: if_splits)

lemma write_goes_on:
  assumes "run_handler cd p ec bs c q = Inr (c', q')" "\<not> failed ec" "is_write p" "deqQueue (m_qMessagesOut c') \<noteq> []"
  shows "filter is_write (pending c') \<noteq> []"
  using assms
  by (cases p) (auto simp: write_header_done_def write_body_done_def WriteBody_def rbind_Inr_iff
      dest: message_written_goes_on split: if_splits)

lemma send_goes_on:
  "send_task m c = Inr c' \<Longrightarrow> filter is_write (pending c') \<noteq> [] \<or> deqQueue (m_qMessagesOut c) \<noteq> [] \<and> pending c' = pending c"
  by (auto simp: send_task_def Let_def tsq_empty_def dest: WriteHeader_writes split: if_splits)

lemma handler_writes_on:
  assumes r: "run_handler cd p ec bs c q = Inr (c', q')" "\<not> failed ec"
    and w: "deqQueue (m_qMessagesOut c) \<noteq> [] \<Longrightarrow> is_write p \<or> filter is_write (pending c) \<noteq> []"
    and out: "deqQueue (m_qMessagesOut c') \<noteq> []"
  shows "filter is_write (pending c') \<noteq> []"
proof (cases "is_write p")
  case True
  from write_goes_on [OF r this out] show ?thesis .
next
  case False
  show ?thesis
  proof (cases "\<exists>m. p = Send_task m")
    case True
    with r(1) w show ?thesis using send_goes_on [of _ c c'] by (auto simp: rbind_Inr_iff)
  next
    case False
    then have "taken_over p = []" by (cases p) auto
    from not_write_frame [OF r(1) \<open>\<not> is_write p\<close> this] w out \<open>\<not> is_write p\<close> show ?thesis by simp
  qed
qed

lemma handler_reads_on:
  assumes r: "run_handler cd p ec bs c q = Inr (c', q')" "\<not> failed ec" "is_read p \<or> filter is_read (pending c) \<noteq> []"
  shows "filter is_read (pending c') \<noteq> []"
proof (cases "is_read p")
  case True
  with r show ?thesis
    by (cases p) (auto simp: read_header_done_def read_body_done_def connect_done_def AddToIncomingMessageQueue_def
        ReadHeader_def ReadBody_def Let_def split: if_splits)
next
  case False
  with not_read_frame [OF r(1)] r(3) show ?thesis by simp
qed

lemma works_live:
  assumes live: "link_live cd w" and st: "works cd w v"
  shows "link_live cd v"
  using st
proof (rule worksE)
  fix p ec bs r
  assume p: "v = observe p ec bs w r" "p \<in> set (pending (lk w))" "asio_contract cd p ec bs" "\<not> failed ec"
    "complete_op cd p ec bs (lk w) (lk_in w) = Inr r"
  let ?c = "(lk w)\<lparr>pending := remove1 p (pending (lk w))\<rparr>"
  obtain c' q' where r: "r = (c', q')" "run_handler cd p ec bs ?c (lk_in w) = Inr (c', q')"
    using p(5) by (cases r) (simp add: complete_op_def)
  have inv: "write_inv cd v" "read_inv cd v"
    using live p write_inv_completion [of cd w p ec bs] read_inv_completion [of cd w p ec bs r]
    by (auto simp: link_live_def)
  have "filter is_write (pending c') \<noteq> []" if "deqQueue (m_qMessagesOut c') \<noteq> []"
    using handler_writes_on [OF r(2) p(4) _ that] live by (auto simp: link_live_def filter_remove1_eq)
  moreover have "filter is_read (pending c') \<noteq> []" if "started w"
    using handler_reads_on [OF r(2) p(4)] live that by (simp add: link_live_def filter_remove1_eq)
  ultimately show ?thesis using inv by (simp add: link_live_def p(1) r(1) observe_def)
qed

lemma uses_live:
  assumes live: "link_live cd w" and st: "uses w v"
  shows "link_live cd v"
proof -
  have inv: "write_inv cd v" "read_inv cd v"
    using live write_side_step [OF _ uses_link [OF st, of cd]] read_side_step [OF _ uses_link [OF st, of cd]]
    by (simp_all add: link_live_def write_side_def read_side_def)
  from st live have "deqQueue (m_qMessagesOut (lk v)) \<noteq> [] \<longrightarrow> filter is_write (pending (lk v)) \<noteq> []"
    "started v \<longrightarrow> filter is_read (pending (lk v)) \<noteq> []"
    by (auto elim!: uses.cases simp: link_live_def ConnectToClient_def ConnectToServer_def Send_def ReadHeader_def)
  with inv show ?thesis by (simp add: link_live_def)
qed

lemma new_live: "link_live cd (link_start a ow is_open z)"
  by (simp add: link_live_def write_inv_def read_inv_def link_start_def new_connection_def)

section \<open>Completions come to an end\<close>

text \<open>What the operations in flight and the queue of a connection still lead to, the bytes it may read aside.\<close>

fun op_left :: "'t op \<Rightarrow> nat" where
  "op_left (Send_task _) = 4"
| "op_left (Write_header_op _) = 1"
| "op_left Connect_op = 1"
| "op_left Close_task = 1"
| "op_left _ = 0"

definition conn_left :: "'t connection \<Rightarrow> nat" where
  "conn_left c = sum_list (map op_left (pending c)) + 2 * length (deqQueue (m_qMessagesOut c))"

lemma sum_list_remove1: "p \<in> set ps \<Longrightarrow> sum_list (map op_left ps) = op_left p + sum_list (map op_left (remove1 p ps))"
  by (induction ps) auto

fun reads_bytes :: "'t op \<Rightarrow> bool" where
  "reads_bytes Read_header_op = True"
| "reads_bytes (Read_body_op _) = True"
| "reads_bytes _ = False"

lemma handler_left:
  assumes "run_handler cd p ec bs c q = Inr (c', q')" "\<not> failed ec"
  shows "conn_left c' + (if reads_bytes p then 0 else 1) \<le> conn_left c + op_left p"
proof (cases "deqQueue (m_qMessagesOut c)")
  case Nil
  with assms show ?thesis
    by (cases p; auto simp: conn_left_def handler_defs WriteHeader_def WriteBody_def ReadHeader_def ReadBody_def Let_def
        rbind_Inr_iff tsqueue_defs split: if_splits)
next
  case (Cons m rest)
  with assms show ?thesis
    by (cases p; cases rest; auto simp: conn_left_def handler_defs WriteHeader_def WriteBody_def ReadHeader_def
        ReadBody_def Let_def rbind_Inr_iff tsqueue_defs split: if_splits)
qed

definition volume :: "'t codec \<Rightarrow> 't link \<Rightarrow> nat" where
  "volume cd w = (\<Sum>m\<in>#outgoing w. length (ser1 cd m))"

lemma length_ser: "length (ser cd ms) = (\<Sum>m\<in>#mset ms. length (ser1 cd m))"
  by (induction ms) simp_all

lemma volume_wire:
  assumes "write_inv cd w"
  shows "length (wire_out w) \<le> volume cd w"
proof -
  have "prefix (wire_out w) (ser cd (accepted w))"
    using assms by (auto simp: write_inv_def dest: write_ok_prefix)
  then have "length (wire_out w) \<le> length (ser cd (accepted w))" by (rule prefix_length_le)
  then show ?thesis by (simp add: volume_def outgoing_def length_ser)
qed

text \<open>Every completion but a read uses some of it up; a read takes bytes.\<close>

lemma read_takes_bytes:
  assumes "0 < hdr_sizeof cd" "read_inv cd w" "p \<in> set (pending (lk w))" "reads_bytes p" "asio_contract cd p ec bs" "\<not> failed ec"
  shows "0 < length (bytes_read p ec bs)"
proof -
  have ok: "read_ok cd (filter is_read (pending (lk w))) (started w) (m_msgTemporaryIn (lk w)) (wire_in w) (received w)"
    using assms(2) by (simp add: read_inv_def)
  moreover have "is_read p" using assms(4) by (cases p) simp_all
  with assms(3) have "filter is_read (pending (lk w)) = [p]" using read_ok_single [OF ok, of p] by simp
  ultimately show ?thesis using assms(1,4-6) by (cases p) auto
qed

lemma works_progress:
  assumes codec: "0 < hdr_sizeof cd" and inv: "read_inv cd w" and st: "works cd w v"
  shows "conn_left (lk v) \<le> conn_left (lk w)" "prefix (wire_in w) (wire_in v)"
    "conn_left (lk v) < conn_left (lk w) \<or> length (wire_in w) < length (wire_in v)"
    "outgoing v = outgoing w" "started v = started w"
proof -
  from st obtain p ec bs r where p: "v = observe p ec bs w r" "p \<in> set (pending (lk w))" "asio_contract cd p ec bs"
    "\<not> failed ec" "complete_op cd p ec bs (lk w) (lk_in w) = Inr r" by (rule worksE)
  let ?c = "(lk w)\<lparr>pending := remove1 p (pending (lk w))\<rparr>"
  obtain c' q' where r: "r = (c', q')" "run_handler cd p ec bs ?c (lk_in w) = Inr (c', q')"
    using p(5) by (cases r) (simp add: complete_op_def)
  have w: "conn_left (lk w) = conn_left ?c + op_left p" using sum_list_remove1 [OF p(2)] by (simp add: conn_left_def)
  have v: "lk v = c'" "wire_in v = wire_in w @ bytes_read p ec bs" by (simp_all add: p(1) r(1) observe_def)
  show "started v = started w" by (simp add: p(1) observe_def)
  show "outgoing v = outgoing w" using outgoing_completion [OF p(2), of cd ec bs "lk_in w" c' q'] p(1,5) r(1) by simp
  show "prefix (wire_in w) (wire_in v)" using v(2) by simp
  show "conn_left (lk v) \<le> conn_left (lk w)" using handler_left [OF r(2) p(4)] w v(1) by simp
  show "conn_left (lk v) < conn_left (lk w) \<or> length (wire_in w) < length (wire_in v)"
  proof (cases "reads_bytes p")
    case True
    from read_takes_bytes [OF codec inv p(2) this p(3,4)]
    have "0 < length (bytes_read p ec bs)" .
    then show ?thesis using v(2) by simp
  next
    case False
    then show ?thesis using handler_left [OF r(2) p(4)] w v(1) by simp
  qed
qed

section \<open>As long as something is left to do, something can be done\<close>

text \<open>Writes, closures and the connect need nobody else.\<close>

lemma works_alone:
  assumes live: "link_live cd w" and p: "p \<in> set (pending (lk w))" "\<not> reads_bytes p"
  shows "\<exists>v. works cd w v \<and> wire_in v = wire_in w"
proof -
  obtain bs where bs: "asio_contract cd p no_error bs" using p(2) by (cases p) auto
  with write_inv_completion [of cd w p no_error bs] live p(1) obtain r where
    "complete_op cd p no_error bs (lk w) (lk_in w) = Inr r" by (auto simp: link_live_def)
  with p(1) bs have "works cd w (observe p no_error bs w r)" by (intro works.succeeds) simp_all
  moreover have "bytes_read p no_error bs = []" using p(2) by (cases p) auto
  ultimately show ?thesis by (auto simp: observe_def)
qed

lemma writer_drained:
  assumes live: "link_live cd w" and stuck: "\<not> (\<exists>v. works cd w v \<and> wire_in v = wire_in w)"
  shows "posted_messages (lk w) = []" "deqQueue (m_qMessagesOut (lk w)) = []" "wire_out w = ser cd (accepted w)"
    "Connect_op \<notin> set (pending (lk w))"
proof -
  have none: "p \<in> set (pending (lk w)) \<Longrightarrow> reads_bytes p" for p using works_alone [OF live] stuck by blast
  then show "Connect_op \<notin> set (pending (lk w))" by fastforce
  have "taken_over p = [] \<and> \<not> is_write p" if "reads_bytes p" for p :: "'a op" using that by (cases p) auto
  with none show "posted_messages (lk w) = []" by (auto simp: posted_messages_def)
  have "filter is_write (pending (lk w)) = []"
    using none \<open>\<And>p. reads_bytes p \<Longrightarrow> taken_over p = [] \<and> \<not> is_write p\<close> by (auto simp: filter_empty_conv)
  with live show out: "deqQueue (m_qMessagesOut (lk w)) = []" by (auto simp: link_live_def)
  show "wire_out w = ser cd (accepted w)" using live out by (auto simp: link_live_def write_inv_def drained_wire)
qed

lemma read_works:
  assumes "p \<in> set (pending (lk w))" "reads_bytes p" "asio_contract cd p no_error bs"
  shows "\<exists>v. works cd w v \<and> wire_in v = wire_in w @ bs"
proof -
  obtain r where r: "complete_op cd p no_error bs (lk w) (lk_in w) = Inr r" using assms(2) by (cases p) (auto simp: complete_op_def)
  have "works cd w (observe p no_error bs w r)" using assms(1,3) r by (intro works.succeeds) simp_all
  moreover have "bytes_read p no_error bs = bs" using assms(2) by (cases p) auto
  ultimately show ?thesis by (auto simp: observe_def)
qed

context wire_codec
begin

text \<open>A reader short of the end of a serialization finds a whole header, or a whole body, before it.\<close>

lemma reader_done:
  assumes live: "link_live cd v" "started v" and conn: "Connect_op \<notin> set (pending (lk v))"
    and net: "prefix (wire_in v) (ser cd given)" and ok: "\<And>m. m \<in> set given \<Longrightarrow> wire_ok m"
    and stuck: "\<not> (\<exists>u. works cd v u \<and> prefix (wire_in u) (ser cd given))"
  shows "wire_in v = ser cd given" "Read_header_op \<in> set (pending (lk v))"
proof -
  have r: "read_ok cd (filter is_read (pending (lk v))) True (m_msgTemporaryIn (lk v)) (wire_in v) (received v)"
    using live by (simp add: link_live_def read_inv_def)
  obtain p where p: "p \<in> set (pending (lk v))" "is_read p" "filter is_read (pending (lk v)) = [p]"
    using live read_ok_single [OF r] by (force simp: link_live_def filter_empty_conv)
  have "p \<noteq> Connect_op" using p(1) conn by blast
  with p(2) have reads: "reads_bytes p" by (cases p) simp_all
  have no_more: "\<not> asio_contract cd p no_error bs" if "prefix (wire_in v @ bs) (ser cd given)" for bs
    using read_works [OF p(1) reads, of cd bs] stuck that by force
  have "p = Read_header_op \<and> wire_in v = ser cd given"
  proof (cases p)
    case Read_header_op
    with r p(3) obtain ms where ms: "frames cd (wire_in v) ms" by auto
    from frames_cut [OF this net ok] obtain rest where rest: "given = ms @ rest" "wire_in v = ser cd ms"
      by (auto simp: prefix_def)
    have "rest = []"
    proof (rule ccontr)
      assume "rest \<noteq> []"
      then obtain m ms' where "rest = m # ms'" by (cases rest) auto
      with rest have "prefix (wire_in v @ enc_hdr cd (header m)) (ser cd given)" by (simp add: ser1_def)
      from no_more [OF this] Read_header_op length_enc show False by simp
    qed
    with rest Read_header_op show ?thesis by simp
  next
    case (Read_body_op n)
    with r p(3) obtain bs hb ms where d: "wire_in v = bs @ hb" "frames cd bs ms" "length hb = hdr_sizeof cd"
      "n = unat (hdr_size (dec_hdr cd hb))" "0 < n" by auto
    have "prefix bs (ser cd given)" using net d(1) append_prefixD by metis
    from frames_cut [OF d(2) this ok] obtain rest where rest: "given = ms @ rest" "bs = ser cd ms"
      by (auto simp: prefix_def)
    have "prefix hb (ser cd rest)" using net d(1) rest by simp
    then obtain m ms' where m: "rest = m # ms'" using d(3) sizeof_pos by (cases rest) auto
    with \<open>prefix hb (ser cd rest)\<close> d(3) have hb: "hb = enc_hdr cd (header m)"
      by (auto simp: ser1_def prefix_def append_eq_append_conv length_enc)
    then have "length (body m) = n" using d(4) ok [of m] rest(1) m by (simp add: dec_enc wire_ok_def)
    moreover have "prefix (wire_in v @ body m) (ser cd given)" using d(1) rest m hb by (simp add: ser1_def)
    ultimately show ?thesis using no_more [of "body m"] Read_body_op by simp
  qed (use reads in simp_all)
  then show "wire_in v = ser cd given" "Read_header_op \<in> set (pending (lk v))" using p(1) by auto
qed

end

section \<open>Two ends\<close>

inductive duplex_works :: "duplex \<Rightarrow> duplex \<Rightarrow> bool" where
  near_works: "works custom_codec (near d) w \<Longrightarrow> prefix (wire_in w) (wire_out (far d)) \<Longrightarrow>
    duplex_works d (d\<lparr>near := w\<rparr>)"
| far_works: "works custom_codec (far d) w \<Longrightarrow> prefix (wire_in w) (wire_out (near d)) \<Longrightarrow>
    duplex_works d (d\<lparr>far := w\<rparr>)"

inductive flawless_step :: "duplex \<Rightarrow> duplex \<Rightarrow> bool" where
  flawless_works: "duplex_works d e \<Longrightarrow> flawless_step d e"
| near_uses: "uses (near d) w \<Longrightarrow> flawless_step d (d\<lparr>near := w\<rparr>)"
| far_uses: "uses (far d) w \<Longrightarrow> flawless_step d (d\<lparr>far := w\<rparr>)"

inductive_cases duplex_worksE: "duplex_works d e"

lemma uses_fields: "uses w v \<Longrightarrow> wire_in v = wire_in w \<and> wire_out v = wire_out w"
  by (erule uses.cases) auto

lemma works_wire:
  assumes "works cd w v" shows "prefix (wire_out w) (wire_out v)"
  using link_step_grows [OF works_link [OF assms]] by simp

text \<open>These are executions of \<open>Duplex_Channel\<close>.\<close>

definition duplex_live :: "duplex \<Rightarrow> bool" where
  "duplex_live d \<longleftrightarrow> link_live custom_codec (near d) \<and> link_live custom_codec (far d) \<and>
     prefix (wire_in (near d)) (wire_out (far d)) \<and> prefix (wire_in (far d)) (wire_out (near d))"

lemma duplex_works_live: "duplex_live d \<Longrightarrow> duplex_works d e \<Longrightarrow> duplex_live e"
  by (erule duplex_worksE) (auto simp: duplex_live_def intro: works_live prefix_order.trans [OF _ works_wire])

lemma flawless_live: "duplex_live d \<Longrightarrow> flawless_step d e \<Longrightarrow> duplex_live e"
  by (erule flawless_step.cases)
    (auto simp: duplex_works_live, auto simp: duplex_live_def intro: uses_live dest: uses_fields)

lemma duplex_init_live: "duplex_init d \<Longrightarrow> duplex_live d"
  by (auto simp: duplex_init_def duplex_live_def new_live) (simp_all add: link_start_def)

interpretation flawless: invariant_system duplex_init flawless_step duplex_live
  by unfold_locales (simp add: duplex_init_live, rule flawless_live)

text \<open>The bound: what the connections hold, and the bytes either end has not read yet.\<close>

definition duplex_left :: "duplex \<Rightarrow> nat" where
  "duplex_left d = conn_left (lk (near d)) + conn_left (lk (far d)) +
     (volume custom_codec (near d) - length (wire_in (far d))) + (volume custom_codec (far d) - length (wire_in (near d)))"

lemma duplex_unread:
  assumes "duplex_live d"
  shows "length (wire_in (far d)) \<le> volume custom_codec (near d)" "length (wire_in (near d)) \<le> volume custom_codec (far d)"
proof -
  have "write_inv custom_codec (near d)" "write_inv custom_codec (far d)"
    "length (wire_in (far d)) \<le> length (wire_out (near d))" "length (wire_in (near d)) \<le> length (wire_out (far d))"
    using assms by (simp_all add: duplex_live_def link_live_def prefix_length_le)
  then show "length (wire_in (far d)) \<le> volume custom_codec (near d)" "length (wire_in (near d)) \<le> volume custom_codec (far d)"
    using volume_wire le_trans by blast+
qed

lemma duplex_works_less:
  assumes live: "duplex_live d" and st: "duplex_works d e"
  shows "duplex_left e < duplex_left d"
proof -
  have codec: "0 < hdr_sizeof custom_codec" by (rule custom.sizeof_pos)
  note unread = duplex_unread [OF duplex_works_live [OF live st]]
  from st show ?thesis
  proof (rule duplex_worksE)
    fix w
    assume w: "e = d\<lparr>near := w\<rparr>" "works custom_codec (near d) w"
    have inv: "read_inv custom_codec (near d)" using live by (simp add: duplex_live_def link_live_def)
    note p = works_progress [OF codec inv w(2)]
    have "volume custom_codec w = volume custom_codec (near d)" using p(4) by (simp add: volume_def)
    with p(1,3) prefix_length_le [OF p(2)] unread w(1) show ?thesis by (auto simp: duplex_left_def)
  next
    fix w
    assume w: "e = d\<lparr>far := w\<rparr>" "works custom_codec (far d) w"
    have inv: "read_inv custom_codec (far d)" using live by (simp add: duplex_live_def link_live_def)
    note p = works_progress [OF codec inv w(2)]
    have "volume custom_codec w = volume custom_codec (far d)" using p(4) by (simp add: volume_def)
    with p(1,3) prefix_length_le [OF p(2)] unread w(1) show ?thesis by (auto simp: duplex_left_def)
  qed
qed

interpretation duplex_end: terminating_system duplex_works duplex_live duplex_left
  by unfold_locales (rule duplex_works_live, assumption+, rule duplex_works_less)

lemma duplex_works_same:
  assumes "duplex_live d" "duplex_works d e"
  shows "outgoing (near e) = outgoing (near d) \<and> outgoing (far e) = outgoing (far d) \<and>
    started (near e) = started (near d) \<and> started (far e) = started (far d)"
  using assms works_progress(4,5) [OF custom.sizeof_pos]
  by (auto elim!: duplex_worksE simp: duplex_live_def link_live_def)

lemma duplex_run_same:
  "(duplex_works ^^ n) d e \<Longrightarrow> duplex_live d \<Longrightarrow> outgoing (near e) = outgoing (near d) \<and>
     outgoing (far e) = outgoing (far d) \<and> started (near e) = started (near d) \<and> started (far e) = started (far d)"
proof (induction n arbitrary: e)
  case (Suc n)
  then obtain f where f: "(duplex_works ^^ n) d f" "duplex_works f e" by auto
  with Suc.prems(2) have "duplex_live f" using duplex_end.steps_bounded by blast
  with f Suc show ?case using duplex_works_same [of f e] by simp
qed simp

text \<open>An end of the pair that cannot go on has been given everything the other accepted.\<close>

lemma end_delivered:
  assumes w: "link_live custom_codec w" "\<not> (\<exists>u. works custom_codec w u \<and> wire_in u = wire_in w)"
    and v: "link_live custom_codec v" "started v" "prefix (wire_in v) (wire_out w)"
      "\<not> (\<exists>u. works custom_codec v u \<and> prefix (wire_in u) (wire_out w))"
    and ok: "\<And>m. m \<in># outgoing w \<Longrightarrow> wire_ok m"
  shows "received v = deliver [] (accepted w) \<and> mset (accepted w) = outgoing w \<and> wire_in v = wire_out w \<and>
    Read_header_op \<in> set (pending (lk v))"
proof -
  note d = writer_drained [OF w]
  have acc: "mset (accepted w) = outgoing w" using d(1) by (simp add: outgoing_def)
  then have ok': "wire_ok m" if "m \<in> set (accepted w)" for m using ok that by (metis set_mset_mset)
  have "Connect_op \<notin> set (pending (lk v))" using works_alone [OF v(1), of Connect_op] v(3,4) by fastforce
  from custom.reader_done [OF v(1,2) this v(3) [unfolded d(3)] ok'] v(4) d(3)
  have r: "wire_in v = ser custom_codec (accepted w)" "Read_header_op \<in> set (pending (lk v))" by simp_all
  have "read_inv custom_codec v" using v(1) by (simp add: link_live_def)
  from custom.received_all [OF this r ok'] acc r d(3) show ?thesis by simp
qed

section \<open>Properties\<close>

text \<open>
  C2: Between two started ends of which nothing failed and none was disconnected, everything sent
  arrives: without another call at most \<open>duplex_left\<close> more operations complete, and when none is left
  that can, each end has accepted every message it was given and handed its parent every message the
  other end accepted, in order.
\<close>

theorem everything_arrives:
  assumes "duplex_init d0" "flawless_step\<^sup>*\<^sup>* d0 d" "started (near d)" "started (far d)"
    and "\<forall>m \<in># outgoing (near d) + outgoing (far d). wire_ok m" "(duplex_works ^^ n) d e"
  shows "n \<le> duplex_left d \<and> ((\<exists>f. duplex_works e f) \<or>
    received (far e) = deliver [] (accepted (near e)) \<and> mset (accepted (near e)) = outgoing (near d) \<and>
    received (near e) = deliver [] (accepted (far e)) \<and> mset (accepted (far e)) = outgoing (far d))"
proof -
  have d: "duplex_live d" using flawless.inv_reachable [OF assms(1,2)] .
  from duplex_end.steps_bounded [OF assms(6) d] have e: "duplex_live e" and n: "n \<le> duplex_left d" by simp_all
  note same = duplex_run_same [OF assms(6) d]
  show ?thesis
  proof (cases "\<exists>f. duplex_works e f")
    case False
    then have stuck: "\<not> (\<exists>u. works custom_codec (near e) u \<and> prefix (wire_in u) (wire_out (far e)))"
      "\<not> (\<exists>u. works custom_codec (far e) u \<and> prefix (wire_in u) (wire_out (near e)))"
      using duplex_works.intros by blast+
    note live = e [unfolded duplex_live_def]
    from stuck live have alone: "\<not> (\<exists>u. works custom_codec (near e) u \<and> wire_in u = wire_in (near e))"
      "\<not> (\<exists>u. works custom_codec (far e) u \<and> wire_in u = wire_in (far e))"
      by auto
    have "received (far e) = deliver [] (accepted (near e)) \<and> mset (accepted (near e)) = outgoing (near e)"
      using end_delivered [of "near e" "far e"] live alone stuck same assms(4,5) by simp
    moreover have "received (near e) = deliver [] (accepted (far e)) \<and> mset (accepted (far e)) = outgoing (far e)"
      using end_delivered [of "far e" "near e"] live alone stuck same assms(3,5) by simp
    ultimately show ?thesis using n same by simp
  qed (use n in simp)
qed

text \<open>A client that sends a ping and a server that sends a message without a body.\<close>

definition greeted_pair :: duplex where
  "greeted_pair = \<lparr>near = link_end custom_codec [Ev_begin 0, Ev_send ping_msg] (link_start 0 Owner_client True 0),
     far = link_end custom_codec [Ev_begin 10000, Ev_send bare_msg] (link_start 5 Owner_server True 0)\<rparr>"

lemma greeted_pair_flawless:
  "flawless_step\<^sup>*\<^sup>* \<lparr>near = link_start 0 Owner_client True 0, far = link_start 5 Owner_server True 0\<rparr> greeted_pair"
proof -
  define a b :: "u32 link" where ab: "a = link_start 0 Owner_client True 0" "b = link_start 5 Owner_server True 0"
  let ?a = "a\<lparr>lk := ConnectToServer (lk a), started := True\<rparr>" and ?b = "b\<lparr>lk := ConnectToClient 10000 (lk b), started := True\<rparr>"
  have u: "uses a ?a" "uses b ?b"
    by (rule uses.begins_client uses.begins_server; simp add: ab link_start_def new_connection_def)+
  have "flawless_step \<lparr>near = a, far = b\<rparr> \<lparr>near = ?a, far = b\<rparr>"
    using flawless_step.near_uses [of "\<lparr>near = a, far = b\<rparr>" ?a] u by simp
  moreover have "flawless_step \<lparr>near = ?a, far = b\<rparr> \<lparr>near = ?a, far = ?b\<rparr>"
    using flawless_step.far_uses [of "\<lparr>near = ?a, far = b\<rparr>" ?b] u by simp
  moreover have "flawless_step \<lparr>near = ?a, far = ?b\<rparr> \<lparr>near = ?a\<lparr>lk := Send ping_msg (lk ?a)\<rparr>, far = ?b\<rparr>"
    using flawless_step.near_uses [OF uses.sends_message, of "\<lparr>near = ?a, far = ?b\<rparr>" ping_msg] by simp
  moreover have "flawless_step \<lparr>near = ?a\<lparr>lk := Send ping_msg (lk ?a)\<rparr>, far = ?b\<rparr> greeted_pair"
    using flawless_step.far_uses [OF uses.sends_message, of "\<lparr>near = ?a\<lparr>lk := Send ping_msg (lk ?a)\<rparr>, far = ?b\<rparr>" bare_msg]
    by (simp add: greeted_pair_def ab run_simps)
  ultimately show ?thesis unfolding ab
    by - ((rule converse_rtranclp_into_rtranclp, assumption)+, rule rtranclp.rtrancl_refl)
qed

lemma greeted_pair_facts:
  "started (near greeted_pair)" "started (far greeted_pair)" "outgoing (near greeted_pair) = {#ping_msg#}"
  "outgoing (far greeted_pair) = {#bare_msg#}"
  by (simp_all add: greeted_pair_def run_simps outgoing_def posted_messages_def)

theorem everything_arrives_witness:
  "\<exists>n e. (duplex_works ^^ n) greeted_pair e \<and> n \<le> duplex_left greeted_pair \<and>
     received (far e) = [ping_msg] \<and> received (near e) = [bare_msg]"
proof -
  let ?d = "\<lparr>near = link_start 0 Owner_client True 0, far = link_start 5 Owner_server True 0\<rparr>"
  have i: "duplex_init ?d" by (auto simp: duplex_init_def)
  have "duplex_live greeted_pair" by (rule flawless.inv_reachable [OF i greeted_pair_flawless])
  then obtain n e where e: "(duplex_works ^^ n) greeted_pair e" "\<not> (\<exists>f. duplex_works e f)"
    using duplex_end.run_to_end by blast
  have ok: "\<forall>m \<in># outgoing (near greeted_pair) + outgoing (far greeted_pair). wire_ok m"
    by (simp add: greeted_pair_facts wire_ok_def)
  from everything_arrives [OF i greeted_pair_flawless greeted_pair_facts(1,2) ok e(1)] e(2)
  have "n \<le> duplex_left greeted_pair" "received (far e) = deliver [] (accepted (near e))" "accepted (near e) = [ping_msg]"
    "received (near e) = deliver [] (accepted (far e))" "accepted (far e) = [bare_msg]"
    by (simp_all add: greeted_pair_facts)
  moreover have "deliver [] [bare_msg] = [bare_msg]" using message_eta [of bare_msg] by (cases bare_msg) simp
  ultimately show ?thesis using e(1) by (intro exI [of _ n] exI [of _ e]) simp
qed

end
