(* ===== verification/Simple_System.thy ===== *)
theory Simple_System
  imports Server_System Connection_Progress
begin

text \<open>
  \<open>simple_server.cpp\<close> and \<open>simple_client.cpp\<close> together: what the server sends to each client, over all
  executions, as an account of what the clients asked, and what follows for a client program at the
  other end of a connection. The main program of the server makes no call of its own, so the histories
  are those with \<open>calls\<close> false.
\<close>

section \<open>What a message is answered with\<close>

definition of_type :: "u32 \<Rightarrow> u32 message \<Rightarrow> bool" where
  "of_type t m \<longleftrightarrow> hdr_id (header m) = t"

definition replies :: "u32 server \<Rightarrow> u32 owned_message \<Rightarrow> nat \<Rightarrow> u32 message list" where
  "replies s om r =
     (if of_type ServerPing (msg om) then (if remote om = Some r then [msg om] else [])
      else if of_type MessageAll (msg om) \<and> Some r \<in> set (m_deqConnections s) \<and> remote om \<noteq> Some r \<and>
          IsConnected (objects s ! r)
      then [server_message (conn_id (objects s ! the (remote om)))] else [])"

lemma custom_replies:
  assumes s: "refs_ok s" "valid_ref s (remote om)" and m: "custom_OnMessage (remote om) (msg om) s = Inr s'"
    and r: "r < length (objects s)"
  shows "objects s' ! r = fold Send (replies s om r) (objects s ! r)"
proof -
  obtain q where q: "remote om = Some q" "q < length (objects s)" using s(2) by (auto simp: valid_ref_def)
  consider (ping) "of_type ServerPing (msg om)" | (all) "of_type MessageAll (msg om)"
    | (other) "\<not> of_type ServerPing (msg om)" "\<not> of_type MessageAll (msg om)" by blast
  then show ?thesis
  proof cases
    case ping
    with m s(2) q r show ?thesis
      by (auto simp: custom_OnMessage_def of_type_def replies_def deref_valid invoke_valid nth_list_update)
  next
    case all
    let ?s = "say (''['' @ show_nat (unat (GetID (objects s ! q))) @ '']: Message All'') s"
      and ?sm = "server_message (conn_id (objects s ! q))"
    have v: "list_all (valid_ref ?s) (m_deqConnections ?s)" "distinct (m_deqConnections s)"
      using s(1) by (simp_all add: refs_ok_def)
    have f: "list_all (\<lambda>p. \<exists>r < length (objects s). p = Some r) (m_deqConnections s)"
      using v(1) by (simp add: valid_ref_def [abs_def])
    have "MessageAllClients custom_dispatch ?sm (Some q) ?s = Inr s'"
      using m all s(2) q by (simp add: custom_OnMessage_def of_type_def deref_valid ServerPing_def MessageAll_def GetID_def)
    with dispatch.MessageAllClients_run [OF v(1), of ?sm "Some q"]
    have "objects s' = fold (send_to ?sm (Some q)) (m_deqConnections s) (objects s)" by auto
    with fold_send_to [OF v(2) f r] all q show ?thesis
      by (auto simp: replies_def of_type_def ServerPing_def MessageAll_def)
  next
    case other
    with m show ?thesis by (simp add: custom_OnMessage_def of_type_def replies_def)
  qed
qed

lemma custom_accepted:
  assumes "accept_handler custom_callbacks describe z ec peer s = Inr s'"
  shows "objects s' = objects s \<or> (\<exists>uid. objects s' = objects s @
    [ConnectToClient uid (Send accept_message (new_connection (length (objects s)) Owner_server True z))])"
  using assms
  by (cases "failed ec"; cases peer)
    (auto simp: accept_handler_def WaitForClientConnection_def Let_def custom_OnClientConnect_def invoke_def
      deref_def list_update_append)

section \<open>The account of a connection\<close>

definition answers :: "u32 history \<Rightarrow> nat \<Rightarrow> u32 message list" where
  "answers h r = filter (of_type ServerPing) (from_client r (handled h))"

definition announcements :: "u32 history \<Rightarrow> nat \<Rightarrow> u32 message list" where
  "announcements h r = map (\<lambda>om. server_message (conn_id (objects (srv h) ! the (remote om))))
     (filter (\<lambda>om. of_type MessageAll (msg om) \<and> remote om \<noteq> Some r) (handled h))"

text \<open>
  The account: the greeting, every ping of the client that was handled, and some of the announcements
  of other clients; the rest of them came when the client was not, or no longer, in the deque.
\<close>

definition account_ok :: "u32 history \<Rightarrow> nat \<Rightarrow> u32 message multiset \<Rightarrow> bool" where
  "account_ok h r out \<longleftrightarrow> (\<exists>ann. out = add_mset accept_message (mset (answers h r) + ann) \<and>
     ann \<subseteq># mset (announcements h r))"

definition accounts_ok :: "u32 history \<Rightarrow> bool" where
  "accounts_ok h \<longleftrightarrow> (\<forall>r < length (objects (srv h)). account_ok h r (outgoing (links h ! r)))"

section \<open>Every step keeps the account\<close>

lemma outgoing_follow:
  assumes ok: "history_ok cd h" and len: "r < length (objects (srv h))" "r < length (objects s)"
    and s: "objects s ! r = fold Send ms (objects (srv h) ! r)"
  shows "outgoing (links (follow z s h) ! r) = outgoing (links h ! r) + mset ms"
proof -
  have "lk (links h ! r) = objects (srv h) ! r" "length (links h) = length (objects (srv h))"
    using history_okD(3,5) [OF ok] len(1) by (auto simp: link_ok_def)
  with s len show ?thesis by (simp add: outgoing_def link_of_def posted_Sends)
qed

lemma fold_Send_fields [simp]:
  "conn_id (fold Send ms c) = conn_id c" "sock_open (fold Send ms c) = sock_open c"
  by (induction ms arbitrary: c) (simp_all add: Send_def)

text \<open>Identifiers of the clients whose messages were handled never change.\<close>

lemma announcements_cong:
  assumes ok: "history_ok cd h" and h: "handled h' = handled h"
    and ids: "\<And>q. q < length (objects (srv h)) \<Longrightarrow> conn_id (objects (srv h') ! q) = conn_id (objects (srv h) ! q)"
  shows "announcements h' r = announcements h r"
proof -
  have "list_all (\<lambda>om. valid_ref (srv h) (remote om)) (handled h)" using history_okD(4) [OF ok] by simp
  then show ?thesis using ids unfolding announcements_def h
    by (auto simp: list_all_iff valid_ref_def)
qed

lemma accounts_ok_same:
  assumes ok: "history_ok cd h" and acc: "accounts_ok h" and s: "objects s = objects (srv h)"
  shows "accounts_ok (follow z s h)"
proof -
  have "announcements (follow z s h) r = announcements h r" for r
    by (rule announcements_cong [OF ok]) (simp_all add: s)
  moreover have "answers (follow z s h) r = answers h r" for r by (simp add: answers_def)
  moreover have "outgoing (links (follow z s h) ! r) = outgoing (links h ! r)" if "r < length (objects s)" for r
    using outgoing_follow [OF ok, of r s "[]"] that s by simp
  ultimately show ?thesis using acc s by (simp add: accounts_ok_def account_ok_def)
qed

lemma accounts_ok_accept:
  assumes ok: "history_ok cd h" and acc: "accounts_ok h"
    and s: "objects s = objects (srv h) @
      [ConnectToClient uid (Send accept_message (new_connection (length (objects (srv h))) Owner_server True z))]"
  shows "accounts_ok (follow z s h)"
proof -
  let ?n = "length (objects (srv h))"
  note d = history_okD [OF ok]
  have an: "announcements (follow z s h) r = announcements h r" for r
    by (rule announcements_cong [OF ok]) (simp_all add: s nth_append)
  have as: "answers (follow z s h) r = answers h r" for r by (simp add: answers_def)
  have "account_ok (follow z s h) r (outgoing (links (follow z s h) ! r))" if r: "r < Suc ?n" for r
  proof (cases "r = ?n")
    case True
    have "answers h ?n = []"
      using from_client_invalid [of "srv h" "handled h" ?n] d(4) by (simp add: answers_def)
    moreover have "outgoing (links (follow z s h) ! ?n) = {#accept_message#}"
      using d(3) by (simp add: s outgoing_def link_of_def link_start_def ConnectToClient_def Send_def ReadHeader_def
          new_connection_def posted_messages_def)
    ultimately show ?thesis using True an as by (simp add: account_ok_def)
  next
    case False
    then have "r < ?n" using r by simp
    with outgoing_follow [OF ok this, of s "[]"] acc an as show ?thesis
      by (simp add: s nth_append accounts_ok_def account_ok_def)
  qed
  then show ?thesis by (simp add: accounts_ok_def s)
qed

lemma accounts_ok_completed:
  assumes ok: "history_ok cd h" and acc: "accounts_ok h" and r: "r < length (objects (srv h))"
    and p: "p \<in> set (pending (objects (srv h) ! r))"
    and c: "complete_op cd p ec bs (objects (srv h) ! r) (m_qMessagesIn (srv h)) = Inr (c, q)"
  shows "accounts_ok (completed r p ec bs c q h)"
proof -
  let ?h = "completed r p ec bs c q h"
  note d = history_okD [OF ok]
  have l: "lk (links h ! r) = objects (srv h) ! r" using d(5) [OF r] by (simp add: link_ok_def)
  have "conn_id c = conn_id (objects (srv h) ! r)" using complete_op_frame [OF c] by simp
  then have "conn_id (objects (srv ?h) ! i) = conn_id (objects (srv h) ! i)" if "i < length (objects (srv h))" for i
    using that by (cases "i = r") simp_all
  then have "announcements ?h i = announcements h i" for i by (intro announcements_cong [OF ok]) simp_all
  moreover have "outgoing (links ?h ! i) = outgoing (links h ! i)" if "i < length (objects (srv h))" for i
    using outgoing_completion [of p "links h ! r" cd ec bs "m_qMessagesIn (srv h)" c q] l p c d(3) that
    by (cases "i = r") (simp_all add: completed_def)
  ultimately show ?thesis using acc by (simp add: accounts_ok_def account_ok_def answers_def)
qed

lemma accounts_ok_processed:
  assumes ok: "history_ok cd h" and acc: "accounts_ok h" and q: "deqQueue (m_qMessagesIn (srv h)) = om # rest"
    and u: "update_round custom_callbacks (srv h) = Inr s"
  shows "accounts_ok ((follow z s h)\<lparr>handled := handled h @ [om]\<rparr>)"
proof -
  let ?s = "(srv h)\<lparr>m_qMessagesIn := (m_qMessagesIn (srv h))\<lparr>deqQueue := rest\<rparr>\<rparr>"
    and ?h = "(follow z s h)\<lparr>handled := handled h @ [om]\<rparr>"
  note d = history_okD [OF ok]
  have v: "valid_ref ?s = valid_ref (srv h)" by (rule valid_ref_cong) simp
  have s1: "refs_ok ?s" "valid_ref ?s (remote om)"
    using server_ok_queue [OF d(1)] d(4) q v by (simp_all add: server_ok_def)
  have m: "custom_OnMessage (remote om) (msg om) ?s = Inr s" using u by (simp add: update_round_def pop_front_Cons [OF q])
  from custom_message_served [OF s1, of "msg om"] m have len: "length (objects s) = length (objects (srv h))"
    by (auto dest: servedD(1))
  have o: "objects s ! r = fold Send (replies ?s om r) (objects (srv h) ! r)" if "r < length (objects s)" for r
    using custom_replies [OF s1 m] that len by simp
  have old: "announcements (follow z s h) r = announcements h r" for r
    by (rule announcements_cong [OF ok]) (use o len in simp_all)
  have "account_ok ?h r (outgoing (links ?h ! r))" if r: "r < length (objects s)" for r
  proof -
    have out: "outgoing (links ?h ! r) = outgoing (links h ! r) + mset (replies ?s om r)"
      using outgoing_follow [OF ok _ r o [OF r]] r len by simp
    obtain ann where ann: "outgoing (links h ! r) = add_mset accept_message (mset (answers h r) + ann)"
      "ann \<subseteq># mset (announcements h r)"
      using acc r len by (auto simp: accounts_ok_def account_ok_def)
    obtain i where i: "remote om = Some i" "i < length (objects (srv h))" using s1(2) by (auto simp: valid_ref_def)
    have id: "conn_id (objects s ! i) = conn_id (objects (srv h) ! i)" using o [of i] i(2) len by simp
    have a: "answers ?h r = answers h r @ (if of_type ServerPing (msg om) \<and> remote om = Some r then [msg om] else [])"
      by (simp add: answers_def)
    have "announcements ?h r = announcements (follow z s h) r @ (if of_type MessageAll (msg om) \<and> remote om \<noteq> Some r
        then [server_message (conn_id (objects s ! i))] else [])"
      using i(1) by (simp add: announcements_def)
    then have b: "announcements ?h r = announcements h r @ (if of_type MessageAll (msg om) \<and> remote om \<noteq> Some r
        then [server_message (conn_id (objects (srv h) ! i))] else [])"
      by (simp add: old id)
    define new where "new = (if of_type ServerPing (msg om) then [] else replies ?s om r)"
    have n: "mset new \<subseteq># mset (if of_type MessageAll (msg om) \<and> remote om \<noteq> Some r
        then [server_message (conn_id (objects (srv h) ! i))] else [])"
      using i(1) by (simp add: new_def replies_def)
    have "outgoing (links ?h ! r) = add_mset accept_message (mset (answers ?h r) + (ann + mset new))"
      unfolding out ann(1) a by (simp add: new_def replies_def)
    moreover have "ann + mset new \<subseteq># mset (announcements ?h r)"
      unfolding b mset_append by (rule subset_mset.add_mono [OF ann(2) n])
    ultimately show ?thesis unfolding account_ok_def by blast
  qed
  then show ?thesis by (simp add: accounts_ok_def)
qed

definition account_inv :: "u32 history \<Rightarrow> bool" where
  "account_inv h \<longleftrightarrow> history_ok custom_codec h \<and> accounts_ok h"

lemma account_inv_step:
  assumes inv: "account_inv h" and st: "history_step (\<lambda>_. False) custom_callbacks describe z custom_codec h h'"
  shows "account_inv h'"
proof -
  have ok: "history_ok custom_codec h" and acc: "accounts_ok h" using inv by (simp_all add: account_inv_def)
  have "accounts_ok h'"
    using st
  proof cases
    case (starts thread_error b s)
    then show ?thesis using accounts_ok_same [OF ok acc]
      by (auto simp: Start_def WaitForClientConnection_def Let_def split: option.splits if_splits)
  next
    case stops
    then show ?thesis using accounts_ok_same [OF ok acc] by (simp add: Stop_def Let_def)
  next
    case (accepts ec peer s)
    from custom_accepted [OF accepts(4)] accepts(1) show ?thesis
      using accounts_ok_same [OF ok acc] accounts_ok_accept [OF ok acc] by auto
  next
    case (completes r p ec bs c q)
    with accounts_ok_completed [OF ok acc] show ?thesis by blast
  next
    case (processes om rest s)
    with accounts_ok_processed [OF ok acc] show ?thesis by blast
  qed simp_all
  with custom_server.history_ok_step [OF ok st] show ?thesis by (simp add: account_inv_def)
qed

lemma account_inv_init: "account_inv new_history"
  by (simp add: account_inv_def history_ok_init) (simp add: accounts_ok_def new_history_def new_server_def)

interpretation accounts: invariant_system "\<lambda>h. h = new_history"
    "history_step (\<lambda>_. False) custom_callbacks describe z custom_codec" account_inv for describe z
  by unfold_locales (simp add: account_inv_init, rule account_inv_step)

lemma account_reachable:
  "history_reachable (\<lambda>_. False) custom_callbacks describe z custom_codec h \<Longrightarrow> account_inv h"
  unfolding history_reachable_def by (rule accounts.inv_reachable [OF refl])

section \<open>What the client is handed\<close>

lemma deliver_mem:
  "m \<in> set (deliver old ms) \<Longrightarrow> \<exists>m' \<in> set ms. header m = header m' \<and> (body m' \<noteq> [] \<longrightarrow> m = m')"
  by (induction old ms rule: deliver.induct) (auto split: if_splits)

lemma deliver_of_type:
  "(\<And>m. m \<in> set ms \<Longrightarrow> of_type t m \<Longrightarrow> body m \<noteq> []) \<Longrightarrow> filter (of_type t) (deliver old ms) = filter (of_type t) ms"
  by (induction old ms rule: deliver.induct) (auto simp: of_type_def)

lemma filter_prefix: "prefix xs ys \<Longrightarrow> prefix (filter P xs) (filter P ys)"
  by (auto simp: prefix_def)

lemma prefix_mset: "prefix xs ys \<Longrightarrow> mset xs \<subseteq># mset ys"
  by (auto simp: prefix_def)

text \<open>The two requests of \<open>CustomClient\<close>.\<close>

definition simple_request :: "u32 message \<Rightarrow> bool" where
  "simple_request m \<longleftrightarrow> m = new_message MessageAll \<or> length (body m) = 8 \<and> m = ping_message (body m)"

lemma pushed_once:
  assumes "length bs < 2 ^ 32"
  shows "push_data (new_message t) bs = \<lparr>header = \<lparr>hdr_id = t, hdr_size = of_nat (length bs)\<rparr>, body = bs\<rparr>"
  using assms by (simp add: push_data_def new_message_def msg_size_def memcpy_into_def vector_resize_def ucast_size_t
      unat_of_nat_size_t)

lemma request_cases:
  assumes "simple_request m"
  shows "of_type MessageAll m \<and> body m = [] \<or> of_type ServerPing m \<and> length (body m) = 8" "wire_ok m"
proof -
  have p: "ping_message t = \<lparr>header = \<lparr>hdr_id = ServerPing, hdr_size = 8\<rparr>, body = t\<rparr>" if "length t = 8" for t
    using pushed_once [of t ServerPing] that by (simp add: ping_message_def)
  consider "m = new_message MessageAll"
    | "m = \<lparr>header = \<lparr>hdr_id = ServerPing, hdr_size = 8\<rparr>, body = body m\<rparr>" "length (body m) = 8"
    using assms p [of "body m"] by (auto simp: simple_request_def)
  then have "(of_type MessageAll m \<and> body m = [] \<or> of_type ServerPing m \<and> length (body m) = 8) \<and> wire_ok m"
  proof cases
    case 2
    then have "header m = \<lparr>hdr_id = ServerPing, hdr_size = 8\<rparr>" by (metis message.select_convs(1))
    with 2(2) show ?thesis by (simp add: of_type_def wire_ok_def)
  qed (simp add: of_type_def new_message_def wire_ok_def)
  then show "of_type MessageAll m \<and> body m = [] \<or> of_type ServerPing m \<and> length (body m) = 8" "wire_ok m"
    by blast+
qed

text \<open>A round of \<open>main\<close>'s loop gives the connection these requests only.\<close>

lemma client_round_requests:
  assumes "client_round span timeNow number c = Inr (quit, c')" "length timeNow = 8" "m_connection c = Some k"
  shows "\<exists>ms. m_connection c' = Some (fold Send ms k) \<and> list_all simple_request ms"
proof -
  have "body (ping_message timeNow) = timeNow" using pushed_once [of timeNow ServerPing] assms(2) by (simp add: ping_message_def)
  then have req: "simple_request (ping_message timeNow)" "simple_request (new_message MessageAll)"
    using assms(2) by (simp_all add: simple_request_def)
  have kept: "m_connection d' = m_connection d" if "handle_message span timeNow m d = Inr d'" for m d d'
    using that by (auto simp: handle_message_def cl_say_def rbind_Inr_iff split: if_splits)
  define ms where "ms = (if \<not> sock_open k then [] else if number = 1 then [ping_message timeNow] else if number = 2 then [new_message MessageAll] else [])"
  have "m_connection c' = Some (fold Send ms k)"
    using assms(1,3)
    by (auto simp: ms_def client_round_def PingServer_def cl_MessageAll_def cl_Send_def cl_IsConnected_def cl_say_def
        Let_def rbind_Inr_iff Send_def IsConnected_def
        dest!: kept split: if_splits)
  moreover have "list_all simple_request ms" using req by (simp add: ms_def)
  ultimately show ?thesis by blast
qed

lemma server_message_shape: "of_type ServerMessage (server_message i)" "length (body (server_message i)) = 4"
  "wire_ok (server_message i)"
  by (simp_all add: server_message_def pushed_once of_type_def wire_ok_def)

text \<open>What a client that only sends requests is sent by the server.\<close>

definition simple_reply :: "u32 message \<Rightarrow> bool" where
  "simple_reply m \<longleftrightarrow> m = accept_message \<or> of_type ServerPing m \<and> length (body m) = 8 \<and> wire_ok m \<or>
     of_type ServerMessage m \<and> length (body m) = 4 \<and> wire_ok m"

lemma announced: "m \<in> set (announcements h r) \<Longrightarrow> \<exists>i. m = server_message i"
  by (auto simp: announcements_def)

lemma answers_pings:
  assumes acc: "account_ok h r out"
  shows "filter_mset (of_type ServerPing) out = mset (answers h r)"
proof -
  obtain ann where o: "out = add_mset accept_message (mset (answers h r) + ann)" "ann \<subseteq># mset (announcements h r)"
    using acc by (auto simp: account_ok_def)
  have "\<not> of_type ServerPing m" if "m \<in># ann" for m
    using announced [of m h r] mset_subset_eqD [OF o(2) that] server_message_shape(1) by (auto simp: of_type_def msg_type_defs)
  then have "filter_mset (of_type ServerPing) ann = {#}" by (simp add: filter_mset_eq_conv)
  moreover have "\<not> of_type ServerPing accept_message" by (simp add: of_type_def accept_message_eq msg_type_defs)
  moreover have "filter (of_type ServerPing) (answers h r) = answers h r" by (simp add: answers_def)
  ultimately show ?thesis by (simp add: o(1) flip: mset_filter)
qed

text \<open>A ping has a body, so it is delivered as it was sent.\<close>

lemma pings_delivered:
  assumes "\<And>m. m \<in> set ms \<Longrightarrow> simple_request m \<or> simple_reply m"
  shows "filter (of_type ServerPing) (deliver [] ms) = filter (of_type ServerPing) ms"
  using assms
  by (intro deliver_of_type)
    (fastforce simp: simple_reply_def accept_message_eq of_type_def msg_type_defs dest!: request_cases(1))

lemma account_replies:
  assumes acc: "account_ok h r out" and asked: "prefix (from_client r (handled h)) (deliver [] ms)"
    and ms: "list_all simple_request ms"
  shows "m \<in># out \<Longrightarrow> simple_reply m" "filter_mset (of_type ServerPing) out \<subseteq># mset ms"
proof -
  have "filter (of_type ServerPing) (deliver [] ms) = filter (of_type ServerPing) ms"
    using ms by (intro pings_delivered) (simp add: list_all_iff)
  then have a: "prefix (answers h r) (filter (of_type ServerPing) ms)"
    using filter_prefix [OF asked, of "of_type ServerPing"] by (simp add: answers_def)
  obtain ann where o: "out = add_mset accept_message (mset (answers h r) + ann)" "ann \<subseteq># mset (announcements h r)"
    using acc by (auto simp: account_ok_def)
  have pings: "simple_reply m" if "m \<in> set (answers h r)" for m
  proof -
    have m: "m \<in> set ms" "of_type ServerPing m" using that set_mono_prefix [OF a] by auto
    then have "simple_request m" using ms by (simp add: list_all_iff)
    from request_cases [OF this] m(2) show ?thesis
      by (auto simp: simple_reply_def of_type_def msg_type_defs)
  qed
  have "simple_reply m" if "m \<in># ann" for m
    using announced [of m h r] mset_subset_eqD [OF o(2) that] server_message_shape by (auto simp: simple_reply_def)
  then show "m \<in># out \<Longrightarrow> simple_reply m" using o(1) pings by (auto simp: simple_reply_def)
  have "mset (answers h r) \<subseteq># mset (filter (of_type ServerPing) ms)" using a by (rule prefix_mset)
  also have "\<dots> \<subseteq># mset ms" by (simp add: mset_filter)
  finally show "filter_mset (of_type ServerPing) out \<subseteq># mset ms" by (simp add: answers_pings [OF acc])
qed

lemma reply_handled:
  assumes "simple_reply m" "header m' = header m" "body m \<noteq> [] \<longrightarrow> m' = m"
  shows "\<exists>c'. handle_message span now m' c = Inr c'"
proof -
  consider "m = accept_message" | "of_type ServerPing m" "length (body m) = 8"
    | "of_type ServerMessage m" "length (body m) = 4"
    using assms(1) by (auto simp: simple_reply_def)
  then show ?thesis
  proof cases
    case 1
    then show ?thesis using assms(2) by (simp add: handle_message_def accept_message_eq msg_type_defs)
  next
    case 2
    then have "m' = m" using assms(3) by auto
    with 2 show ?thesis by (simp add: handle_message_def of_type_def msg_type_defs pop_data_enough)
  next
    case 3
    then have "m' = m" using assms(3) by auto
    with 3 show ?thesis by (simp add: handle_message_def of_type_def msg_type_defs pop_data_enough)
  qed
qed

lemma pinging_requests: "list_all simple_request (accepted pinging_client)"
  by (simp add: pinging_client_facts simple_request_def time_ping_def) (simp add: ping_message_def pushed_once)

text \<open>A client of \<open>simple_client.cpp\<close> and its connection on the server, over a network that keeps the order.\<close>

lemma simple_traffic:
  assumes h: "history_reachable (\<lambda>_. False) custom_callbacks describe z custom_codec h" "r < length (objects (srv h))"
    and w: "link_reachable custom_codec (Inr w)" "list_all simple_request (accepted w)"
    and net: "prefix (wire_in (links h ! r)) (wire_out w)"
  shows "account_ok h r (outgoing (links h ! r))" "prefix (from_client r (handled h)) (deliver [] (accepted w))"
    "m \<in> set (accepted (links h ! r)) \<Longrightarrow> simple_reply m"
    "write_inv custom_codec (links h ! r)" "read_inv custom_codec (links h ! r)"
    "write_inv custom_codec w" "read_inv custom_codec w"
    "received (links h ! r) = from_client r (handled h @ deqQueue (m_qMessagesIn (srv h)))"
    "lk (links h ! r) = objects (srv h) ! r"
proof -
  have inv: "history_ok custom_codec h" "accounts_ok h"
    using account_reachable [OF h(1)] by (simp_all add: account_inv_def)
  note d = history_okD [OF inv(1)]
  show l: "write_inv custom_codec (links h ! r)" "read_inv custom_codec (links h ! r)" "lk (links h ! r) = objects (srv h) ! r"
    using d(5) [OF h(2)] by (simp_all add: link_ok_def)
  show v: "write_inv custom_codec w" "read_inv custom_codec w" using link_reachableE [OF w(1)] by blast+
  have "prefix (received (links h ! r)) (deliver [] (accepted w))"
    using custom.received_from [OF v(1) l(2) net] w(2) request_cases(2) by (auto simp: list_all_iff)
  then show asked: "prefix (from_client r (handled h)) (deliver [] (accepted w))"
    using d(6) [OF h(2)] append_prefixD by fastforce
  show acc: "account_ok h r (outgoing (links h ! r))" using inv(2) h(2) by (simp add: accounts_ok_def)
  show "m \<in> set (accepted (links h ! r)) \<Longrightarrow> simple_reply m"
    using account_replies(1) [OF acc asked w(2), of m] by (simp add: outgoing_def)
  show "received (links h ! r) = from_client r (handled h @ deqQueue (m_qMessagesIn (srv h)))" by (rule d(6) [OF h(2)])
qed

lemma simple_reply_wire: "simple_reply m \<Longrightarrow> wire_ok m"
  by (auto simp: simple_reply_def accept_message_eq wire_ok_def)

section \<open>Properties\<close>

text \<open>
  C14: What \<open>simple_server.cpp\<close> sends, on every execution: each connection is given the greeting once,
  every ping of its client that was handled once, and besides only announcements of other clients'
  \<open>MessageAll\<close>, each at most once and with the identifier of the client that asked for it.
\<close>

theorem simple_server_account:
  assumes "history_reachable (\<lambda>_. False) custom_callbacks describe z custom_codec h"
    and "r < length (objects (srv h))"
  shows "\<exists>ann. mset (accepted (links h ! r)) + mset (posted_messages (objects (srv h) ! r)) =
      add_mset accept_message (mset (filter (of_type ServerPing) (from_client r (handled h))) + ann) \<and>
    ann \<subseteq># mset (announcements h r)"
proof -
  have inv: "history_ok custom_codec h" "accounts_ok h"
    using account_reachable [OF assms(1)] by (simp_all add: account_inv_def)
  have "lk (links h ! r) = objects (srv h) ! r" using history_okD(5) [OF inv(1) assms(2)] by (simp add: link_ok_def)
  with inv(2) assms(2) show ?thesis
    by (auto simp: accounts_ok_def account_ok_def outgoing_def answers_def)
qed

theorem simple_server_account_witness:
  "\<exists>ann. mset (accepted (links served_history ! 0)) + mset (posted_messages (objects (srv served_history) ! 0)) =
      add_mset accept_message (mset (filter (of_type ServerPing) (from_client 0 (handled served_history))) + ann) \<and>
    ann \<subseteq># mset (announcements served_history 0)"
  by (rule simple_server_account [OF served_history_reachable]) (simp add: served_history_facts)

text \<open>
  C4: The two programs together: a client that sends only the requests of \<open>CustomClient\<close>, to a server
  that only runs \<open>CustomServer\<close>, over a network that delivers bytes in order, gets back no ping but its
  own, each at most once, and every message it gets can be handled: no \<open>operator>>\<close> of its main loop
  reads before the start of a body.
\<close>

theorem simple_programs_agree:
  assumes h: "history_reachable (\<lambda>_. False) custom_callbacks describe z custom_codec h" "r < length (objects (srv h))"
    and w: "link_reachable custom_codec (Inr w)" "list_all simple_request (accepted w)"
    and net: "prefix (wire_in (links h ! r)) (wire_out w)" "prefix (wire_in w) (wire_out (links h ! r))"
  shows "filter_mset (of_type ServerPing) (mset (received w)) \<subseteq># mset (accepted w) \<and>
    list_all (\<lambda>m. \<exists>c'. handle_message span now m c = Inr c') (received w)"
proof -
  let ?acc = "accepted (links h ! r)"
  note t = simple_traffic [OF h w net(1)]
  have got: "prefix (received w) (deliver [] ?acc)"
    by (rule custom.received_from [OF t(4,7) net(2)]) (rule simple_reply_wire [OF t(3)])
  have "\<exists>c'. handle_message span now m c = Inr c'" if "m \<in> set (received w)" for m
  proof -
    have "m \<in> set (deliver [] ?acc)" using set_mono_prefix [OF got] that by blast
    from deliver_mem [OF this] obtain m' where m: "m' \<in> set ?acc" "header m = header m'" "body m' \<noteq> [] \<longrightarrow> m = m'"
      by blast
    show ?thesis by (rule reply_handled [OF t(3) [OF m(1)] m(2,3)])
  qed
  moreover have "filter (of_type ServerPing) (deliver [] ?acc) = filter (of_type ServerPing) ?acc"
    using t(3) by (intro pings_delivered) blast
  then have "filter_mset (of_type ServerPing) (mset (received w)) \<subseteq># mset (filter (of_type ServerPing) ?acc)"
    using prefix_mset [OF filter_prefix [OF got, of "of_type ServerPing"]] by simp
  then have "filter_mset (of_type ServerPing) (mset (received w)) \<subseteq># filter_mset (of_type ServerPing) (outgoing (links h ! r))"
    by (rule subset_mset.order_trans) (simp add: outgoing_def)
  ultimately show ?thesis
    using account_replies(2) [OF t(1,2) w(2)] subset_mset.order_trans by (auto simp: list_all_iff)
qed

theorem simple_programs_agree_witness:
  "filter_mset (of_type ServerPing) (mset [accept_message, time_ping]) \<subseteq># mset [time_ping] \<and>
   list_all (\<lambda>m. \<exists>c'. handle_message (\<lambda>_ _. []) [] m connected_client = Inr c') [accept_message, time_ping]"
proof -
  have "0 < length (objects (srv served_history))" by (simp add: served_history_facts)
  moreover have "prefix (wire_in (links served_history ! 0)) (wire_out pinging_client)"
    "prefix (wire_in pinging_client) (wire_out (links served_history ! 0))"
    by (simp_all add: served_history_facts pinging_client_facts)
  ultimately show ?thesis
    using simple_programs_agree [OF served_history_reachable _ pinging_client_reachable pinging_requests]
    unfolding pinging_client_facts(1,4) by blast
qed

text \<open>
  Nothing is left to do for a client and its connection: nothing waits to be written on either side,
  everything written has arrived, both ends wait for a header, and the server's queue holds no
  message of this client.
\<close>

definition at_rest :: "u32 history \<Rightarrow> nat \<Rightarrow> u32 link \<Rightarrow> bool" where
  "at_rest h r w \<longleftrightarrow>
     deqQueue (m_qMessagesOut (lk w)) = [] \<and> wire_in (links h ! r) = wire_out w \<and>
     Read_header_op \<in> set (pending (objects (srv h) ! r)) \<and>
     from_client r (deqQueue (m_qMessagesIn (srv h))) = [] \<and>
     posted_messages (objects (srv h) ! r) = [] \<and> deqQueue (m_qMessagesOut (objects (srv h) ! r)) = [] \<and>
     wire_in w = wire_out (links h ! r) \<and> Read_header_op \<in> set (pending (lk w))"

lemma all_arrived:
  assumes "write_inv custom_codec w" "read_inv custom_codec v" "deqQueue (m_qMessagesOut (lk w)) = []"
    "wire_in v = wire_out w" "Read_header_op \<in> set (pending (lk v))" "\<And>m. m \<in> set (accepted w) \<Longrightarrow> wire_ok m"
  shows "received v = deliver [] (accepted w)"
  using custom.received_all [OF assms(2) _ assms(5,6)] assms(1,3,4) by (auto simp: write_inv_def drained_wire)

text \<open>
  The two programs together, at rest: whatever other clients do meanwhile, the server has handled
  every request of this client, in order, and the client has got back each of its pings exactly as
  often as it sent it.
\<close>

theorem pings_all_returned:
  assumes h: "history_reachable (\<lambda>_. False) custom_callbacks describe z custom_codec h" "r < length (objects (srv h))"
    and w: "link_reachable custom_codec (Inr w)" "list_all simple_request (accepted w)" and rest: "at_rest h r w"
  shows "from_client r (handled h) = deliver [] (accepted w) \<and>
    filter_mset (of_type ServerPing) (mset (received w)) = filter_mset (of_type ServerPing) (mset (accepted w))"
proof -
  note q = rest [unfolded at_rest_def]
  have "prefix (wire_in (links h ! r)) (wire_out w)" using q by simp
  note t = simple_traffic [OF h w this]
  have "received (links h ! r) = deliver [] (accepted w)"
    by (rule all_arrived [OF t(6,5)]) (use q w(2) request_cases(2) in \<open>auto simp: t(9) list_all_iff\<close>)
  then have asked: "from_client r (handled h) = deliver [] (accepted w)" using t(8) q by simp
  have "received w = deliver [] (accepted (links h ! r))"
    by (rule all_arrived [OF t(4,7)]) (use q t(3) simple_reply_wire in \<open>auto simp: t(9)\<close>)
  then have "filter (of_type ServerPing) (received w) = filter (of_type ServerPing) (accepted (links h ! r))"
    using t(3) by (simp add: pings_delivered)
  then have "filter_mset (of_type ServerPing) (mset (received w)) = filter_mset (of_type ServerPing) (outgoing (links h ! r))"
    using q by (simp add: outgoing_def t(9) flip: mset_filter)
  also have "\<dots> = mset (answers h r)" by (rule answers_pings [OF t(1)])
  also have "answers h r = filter (of_type ServerPing) (accepted w)"
    using asked w(2) by (simp add: answers_def pings_delivered list_all_iff)
  finally show ?thesis using asked by simp
qed

text \<open>The run of one client that sends one ping is at rest at its end.\<close>

lemma served_at_rest: "at_rest served_history 0 pinging_client"
proof -
  have "deqQueue (m_qMessagesOut (lk pinging_client)) = []" "Read_header_op \<in> set (pending (lk pinging_client))"
    by (simp_all add: pinging_client_def pinging_run_def run_simps Let_def time_ping_eq time_bytes time_of_bytes)
  moreover have "pending (objects (srv served_history) ! 0) = [Read_header_op]"
    "deqQueue (m_qMessagesIn (srv served_history)) = []" "deqQueue (m_qMessagesOut (objects (srv served_history) ! 0)) = []"
    by (simp_all add: served_history_def served_run_def new_history_def server_run_simps Let_def follow_def completed_def
        track_def link_of_def link_start_def observe_def time_ping_eq time_bytes time_of_bytes vector_resize_def
        update_round_def custom_OnMessage_def msg_type_defs hdr_of_bytes)
  ultimately show ?thesis
    by (simp add: at_rest_def served_history_facts pinging_client_facts posted_messages_def)
qed

theorem pings_all_returned_witness:
  "from_client 0 (handled served_history) = deliver [] [time_ping] \<and>
   filter_mset (of_type ServerPing) (mset [accept_message, time_ping]) = filter_mset (of_type ServerPing) (mset [time_ping])"
proof -
  have "0 < length (objects (srv served_history))" by (simp add: served_history_facts)
  then show ?thesis
    using pings_all_returned [OF served_history_reachable _ pinging_client_reachable pinging_requests served_at_rest]
    unfolding pinging_client_facts(1,4) by blast
qed

end
