(* ===== verification/Simple_Progress.thy ===== *)
theory Simple_Progress
  imports Simple_System
begin

text \<open>
  \<open>simple_server.cpp\<close> and a client of \<open>simple_client.cpp\<close>: as long as the sockets between them are open,
  no ping gets stuck. A connection of the server whose socket is open is in the deque and always has
  its read, and its write when it has something to write, in flight (\<open>server_live\<close>): whatever failed on
  it closed the socket. So either a step of the client, of its connection or of \<open>Update\<close> is possible, or
  every ping is back.
\<close>

section \<open>Open connections of the server\<close>






lemma fold_Send_pending [simp]:
  "m_qMessagesOut (fold Send ms c) = m_qMessagesOut c" "pending (fold Send ms c) = pending c @ map Send_task ms"
  by (induction ms arbitrary: c) (simp_all add: Send_def)


section \<open>Every step keeps them so\<close>








section \<open>What can still happen\<close>





text \<open>The connection as a link of \<open>Connection_Progress\<close>, with the shared queue in front of it.\<close>

definition served_link :: "u32 history \<Rightarrow> nat \<Rightarrow> u32 link" where
  "served_link h r = (links h ! r)\<lparr>lk_in := m_qMessagesIn (srv h)\<rparr>"

lemma served_link_simps [simp]:
  "lk (served_link h r) = lk (links h ! r)" "accepted (served_link h r) = accepted (links h ! r)"
  "wire_in (served_link h r) = wire_in (links h ! r)" "wire_out (served_link h r) = wire_out (links h ! r)"
  "received (served_link h r) = received (links h ! r)" "started (served_link h r) = started (links h ! r)"
  "outgoing (served_link h r) = outgoing (links h ! r)"
  by (simp_all add: served_link_def outgoing_def)




section \<open>The client and its connection\<close>








section \<open>The end of the exchange\<close>










section \<open>Properties\<close>









end
