(* ===== verification/Sync_Threads.thy ===== *)
theory Sync_Threads
  imports Sync_Server
begin

text \<open>
  The synchronous servers of \<open>ch4_server\<close> with their threads: \<open>main\<close>, which starts the server, sleeps,
  stops it and destroys it; the thread of \<open>Server::Run\<close>; and in the parallel server one detached thread
  for each client. \<open>Sync_Server\<close> runs the same code one call after the other; here every atomic
  access, every call of asio and every wait is a step of its own, in any interleaving. The two
  servers differ in \<open>Acceptor::Accept\<close> only, which is the interface \<open>acceptor\<close>. A detached thread may
  outlive the \<open>io_context\<close> its socket belongs to.
\<close>

section \<open>A service\<close>

datatype service_pc =
    Reading          \<comment> \<open>in \<open>read_until\<close>\<close>
  | Computing
  | Responding       \<comment> \<open>in \<open>write\<close>\<close>
  | Reporting        \<comment> \<open>in the \<open>catch\<close> block\<close>
  | Deleting         \<comment> \<open>at \<open>delete this\<close>, or the end of the life of \<open>svc\<close>\<close>
  | Releasing        \<comment> \<open>the socket is destroyed: the last \<open>shared_ptr\<close>, or the end of the life of \<open>sock\<close>\<close>
  | Service_done

record service_thread =
  svc_io :: client_io
  svc_at :: service_pc
  svc_sent :: "string option"
  svc_thrown :: "error_code option"
  svc_printed :: "error_code option"

definition new_svc :: "client_io \<Rightarrow> service_thread" where
  "new_svc io = \<lparr>svc_io = io, svc_at = Reading, svc_sent = None, svc_thrown = None, svc_printed = None\<rparr>"

text \<open>
  \<open>HandleClient\<close>, a piece at a time. What the client does is an argument of the service, fixed when it
  connects: how its \<open>read_until\<close> and its \<open>write\<close> end. When the \<open>read_until\<close> ends is open, as any step is:
  a client that stays silent is a run in which this step, which is always available, is not taken.
\<close>

definition service_step :: "service_thread \<Rightarrow> service_thread" where
  "service_step v =
     (case svc_at v of
        Reading \<Rightarrow> (case fst (svc_io v) of
            Inl e \<Rightarrow> v\<lparr>svc_thrown := Some e, svc_at := Reporting\<rparr>
          | Inr request \<Rightarrow> v\<lparr>svc_at := Computing\<rparr>)
      | Computing \<Rightarrow> (case busy_loop 0 of None \<Rightarrow> v | Some i \<Rightarrow> v\<lparr>svc_at := Responding\<rparr>)
      | Responding \<Rightarrow> (case snd (svc_io v) of
            Some e \<Rightarrow> v\<lparr>svc_thrown := Some e, svc_at := Reporting\<rparr>
          | None \<Rightarrow> v\<lparr>svc_sent := Some response_text, svc_at := Deleting\<rparr>)
      | Reporting \<Rightarrow> v\<lparr>svc_printed := svc_thrown v, svc_at := Deleting\<rparr>
      | Deleting \<Rightarrow> v\<lparr>svc_at := Releasing\<rparr>
      | Releasing \<Rightarrow> v\<lparr>svc_at := Service_done\<rparr>
      | Service_done \<Rightarrow> v)"

text \<open>The steps that use the socket, and with it the \<open>io_context\<close>.\<close>

definition uses_context :: "service_thread \<Rightarrow> bool" where
  "uses_context v \<longleftrightarrow> svc_at v \<in> {Reading, Responding, Releasing}"

definition ended :: "service_thread \<Rightarrow> bool" where
  "ended v \<longleftrightarrow> svc_at v = Service_done"

section \<open>The server\<close>

datatype user_pc =
    Starting | Sleeping | Stopping | Joining
  | Destroying       \<comment> \<open>at the end of the \<open>try\<close> block, where \<open>srv\<close> is destroyed\<close>
  | Exiting          \<comment> \<open>at \<open>return 0\<close>\<close>
  | Exited

datatype loop_pc =
    Not_started
  | Opening          \<comment> \<open>the constructor of \<open>Acceptor\<close>\<close>
  | Testing          \<comment> \<open>at \<open>m_stop.load()\<close>\<close>
  | Accepting        \<comment> \<open>in \<open>accept\<close>\<close>
  | Handling nat     \<comment> \<open>in \<open>HandleClient\<close> of the service with this number\<close>
  | Loop_returned

record sync_server =
  user_at :: user_pc
  loop_at :: loop_pc
  m_stop :: bool
  ioc_alive :: bool
  services :: "service_thread list"
  start_error :: "error_code option"   \<comment> \<open>the exception \<open>main\<close> caught\<close>

definition starting :: sync_server where
  "starting = \<lparr>user_at = Starting, loop_at = Not_started, m_stop = False, ioc_alive = True,
     services = [], start_error = None\<rparr>"

text \<open>\<open>Start\<close>; \<open>thrown\<close>: what the constructor of \<open>std::thread\<close> throws, if it does.\<close>

definition server_Start :: "error_code option \<Rightarrow> sync_server \<Rightarrow> sync_server" where
  "server_Start thrown s =
     (case thrown of
        None \<Rightarrow> s\<lparr>loop_at := Opening, user_at := Sleeping\<rparr>
      | Some e \<Rightarrow> s\<lparr>start_error := Some e, user_at := Destroying\<rparr>)"

text \<open>\<open>Stop\<close>: the store, then the \<open>join\<close>.\<close>

definition stop_store :: "sync_server \<Rightarrow> sync_server" where
  "stop_store s = s\<lparr>m_stop := True, user_at := Joining\<rparr>"

definition stop_join :: "sync_server \<Rightarrow> sync_server" where
  "stop_join s = s\<lparr>user_at := Destroying\<rparr>"

definition destroy_server :: "sync_server \<Rightarrow> sync_server" where
  "destroy_server s = s\<lparr>ioc_alive := False, user_at := Exiting\<rparr>"

text \<open>The constructor of the acceptor, in the server's thread, where no exception is caught.\<close>

definition open_acceptor :: "error_code option \<Rightarrow> sync_server \<Rightarrow> fault + sync_server" where
  "open_acceptor thrown s = (case thrown of None \<Rightarrow> Inr (s\<lparr>loop_at := Testing\<rparr>) | Some e \<Rightarrow> Inl Terminate)"

definition loop_test :: "sync_server \<Rightarrow> sync_server" where
  "loop_test s = s\<lparr>loop_at := (if \<not> m_stop s then Accepting else Loop_returned)\<rparr>"

text \<open>
  The rest of \<open>Accept\<close> once a client has connected: the service in this thread, or in one of its own (an
  exception of the constructor of that \<open>std::thread\<close>, which ends the process as one of \<open>accept\<close> does,
  is not modelled).
\<close>

definition iterative_Accept :: "client_io \<Rightarrow> sync_server \<Rightarrow> sync_server" where
  "iterative_Accept io s = s\<lparr>services := services s @ [new_svc io], loop_at := Handling (length (services s))\<rparr>"

definition parallel_Accept :: "client_io \<Rightarrow> sync_server \<Rightarrow> sync_server" where
  "parallel_Accept io s = s\<lparr>services := services s @ [new_svc io], loop_at := Testing\<rparr>"

definition run_service :: "nat \<Rightarrow> sync_server \<Rightarrow> fault + sync_server" where
  "run_service i s =
     (if uses_context (services s ! i) \<and> \<not> ioc_alive s then Inl Use_after_free
      else Inr (s\<lparr>services := (services s)[i := service_step (services s ! i)]\<rparr>))"

text \<open>\<open>acc\<close> is the \<open>Accept\<close> of the server. Nothing runs once the process has exited.\<close>

inductive sync_step :: "(client_io \<Rightarrow> sync_server \<Rightarrow> sync_server) \<Rightarrow>
    fault + sync_server \<Rightarrow> fault + sync_server \<Rightarrow> bool" for acc where
  start: "user_at s = Starting \<Longrightarrow> sync_step acc (Inr s) (Inr (server_Start thrown s))"
| wake: "user_at s = Sleeping \<Longrightarrow> sync_step acc (Inr s) (Inr (s\<lparr>user_at := Stopping\<rparr>))"
| store: "user_at s = Stopping \<Longrightarrow> sync_step acc (Inr s) (Inr (stop_store s))"
| join: "user_at s = Joining \<Longrightarrow> loop_at s = Loop_returned \<Longrightarrow> sync_step acc (Inr s) (Inr (stop_join s))"
| destroy: "user_at s = Destroying \<Longrightarrow> sync_step acc (Inr s) (Inr (destroy_server s))"
| exit: "user_at s = Exiting \<Longrightarrow> sync_step acc (Inr s) (Inr (s\<lparr>user_at := Exited\<rparr>))"
| opens: "loop_at s = Opening \<Longrightarrow> user_at s \<noteq> Exited \<Longrightarrow> sync_step acc (Inr s) (open_acceptor thrown s)"
| tests: "loop_at s = Testing \<Longrightarrow> user_at s \<noteq> Exited \<Longrightarrow> sync_step acc (Inr s) (Inr (loop_test s))"
| accepts: "loop_at s = Accepting \<Longrightarrow> user_at s \<noteq> Exited \<Longrightarrow> sync_step acc (Inr s) (Inr (acc io s))"
| accept_fails: "loop_at s = Accepting \<Longrightarrow> user_at s \<noteq> Exited \<Longrightarrow> sync_step acc (Inr s) (Inl Terminate)"
| handled: "loop_at s = Handling i \<Longrightarrow> ended (services s ! i) \<Longrightarrow> user_at s \<noteq> Exited \<Longrightarrow>
    sync_step acc (Inr s) (Inr (s\<lparr>loop_at := Testing\<rparr>))"
| serves: "i < length (services s) \<Longrightarrow> \<not> ended (services s ! i) \<Longrightarrow> user_at s \<noteq> Exited \<Longrightarrow>
    sync_step acc (Inr s) (run_service i s)"

definition sync_reachable :: "(client_io \<Rightarrow> sync_server \<Rightarrow> sync_server) \<Rightarrow> fault + sync_server \<Rightarrow> bool" where
  "sync_reachable acc r \<longleftrightarrow> (sync_step acc)\<^sup>*\<^sup>* (Inr starting) r"

inductive_simps no_step_after_fault [simp]: "sync_step acc (Inl f) r"

lemmas sync_defs =
  server_Start_def stop_store_def stop_join_def destroy_server_def open_acceptor_def loop_test_def

lemma sync_reachable_step: "sync_reachable acc r \<Longrightarrow> sync_step acc r r' \<Longrightarrow> sync_reachable acc r'"
  unfolding sync_reachable_def by (rule rtranclp.rtrancl_into_rtrancl)

section \<open>What a service does\<close>

lemma busy_loop_0 [simp]: "busy_loop 0 = Some 1000000"
  by (rule busy_loop_returns) simp

text \<open>What \<open>HandleClient\<close> of \<open>Sync_Server\<close> gives: the response sent, and the error printed.\<close>

definition handled_as :: "client_io \<Rightarrow> string option \<times> error_code option" where
  "handled_as io = (case io of
     (Inr _, None) \<Rightarrow> (Some response_text, None) | (Inl e, _) \<Rightarrow> (None, Some e) | (Inr _, Some e) \<Rightarrow> (None, Some e))"

lemma HandleClient_handled_as: "HandleClient io = Some (handled_as io)"
  by (simp add: HandleClient_returns handled_as_def)

fun service_ok :: "service_pc \<Rightarrow> service_thread \<Rightarrow> bool" where
  "service_ok Reading v \<longleftrightarrow> svc_sent v = None \<and> svc_thrown v = None \<and> svc_printed v = None"
| "service_ok Computing v \<longleftrightarrow> svc_sent v = None \<and> svc_thrown v = None \<and> svc_printed v = None \<and> \<not> isl (fst (svc_io v))"
| "service_ok Responding v \<longleftrightarrow> svc_sent v = None \<and> svc_thrown v = None \<and> svc_printed v = None \<and> \<not> isl (fst (svc_io v))"
| "service_ok Reporting v \<longleftrightarrow> svc_printed v = None \<and> (svc_sent v, svc_thrown v) = handled_as (svc_io v)"
| "service_ok _ v \<longleftrightarrow> (svc_sent v, svc_printed v) = handled_as (svc_io v)"

definition svc_ok :: "service_thread \<Rightarrow> bool" where
  "svc_ok v \<longleftrightarrow> service_ok (svc_at v) v"

lemma svc_ok_new: "svc_ok (new_svc io)"
  by (simp add: svc_ok_def new_svc_def)

lemma svc_ok_step: "svc_ok v \<Longrightarrow> svc_ok (service_step v)"
  by (cases "svc_at v"; cases "svc_io v")
    (auto simp: svc_ok_def service_step_def handled_as_def split: sum.splits option.splits)

lemma svc_ok_ended: "svc_ok v \<Longrightarrow> ended v \<Longrightarrow> (svc_sent v, svc_printed v) = handled_as (svc_io v)"
  by (simp add: svc_ok_def ended_def)

text \<open>A service runs forward only: the steps it has left.\<close>

fun pc_left :: "service_pc \<Rightarrow> nat" where
  "pc_left Reading = 6"
| "pc_left Computing = 5"
| "pc_left Responding = 4"
| "pc_left Reporting = 3"
| "pc_left Deleting = 2"
| "pc_left Releasing = 1"
| "pc_left Service_done = 0"

lemma service_step_left: "\<not> ended v \<Longrightarrow> pc_left (svc_at (service_step v)) < pc_left (svc_at v)"
  by (cases "svc_at v") (auto simp: service_step_def ended_def split: sum.split option.split)

lemma service_step_io [simp]: "svc_io (service_step v) = svc_io v"
  by (cases "svc_at v") (auto simp: service_step_def split: sum.split option.split)

text \<open>The program points in the order of a run, so that running forward is being monotone.\<close>

lemma pc_left_inj: "pc_left p = pc_left q \<Longrightarrow> p = q"
  by (cases p; cases q) simp_all

instantiation service_pc :: linorder
begin

definition less_eq_service_pc :: "service_pc \<Rightarrow> service_pc \<Rightarrow> bool" where
  "less_eq_service_pc p q \<longleftrightarrow> pc_left q \<le> pc_left p"

definition less_service_pc :: "service_pc \<Rightarrow> service_pc \<Rightarrow> bool" where
  "less_service_pc p q \<longleftrightarrow> pc_left q < pc_left p"

instance
  by intro_classes (auto simp: less_eq_service_pc_def less_service_pc_def intro: pc_left_inj)

end

lemma service_step_forward: "\<not> ended v \<Longrightarrow> svc_at v < svc_at (service_step v)"
  using service_step_left by (simp add: less_service_pc_def)

section \<open>The interface of \<open>Accept\<close>\<close>

text \<open>
  What the loop and \<open>main\<close> rely on: a client that connects gets a service of its own, and the loop goes
  on with its test, at once or when that service has ended.
\<close>

locale acceptor =
  fixes acc :: "client_io \<Rightarrow> sync_server \<Rightarrow> sync_server"
  assumes accepted: "services (acc io s) = services s @ [new_svc io]"
    and goes_on: "loop_at (acc io s) = Testing \<or> loop_at (acc io s) = Handling (length (services s))"
    and keeps: "user_at (acc io s) = user_at s" "m_stop (acc io s) = m_stop s" "ioc_alive (acc io s) = ioc_alive s"

interpretation iterative: acceptor iterative_Accept
  by unfold_locales (simp_all add: iterative_Accept_def)

interpretation parallel: acceptor parallel_Accept
  by unfold_locales (simp_all add: parallel_Accept_def)

definition loop_off :: "loop_pc \<Rightarrow> bool" where
  "loop_off l \<longleftrightarrow> l = Not_started \<or> l = Loop_returned"

definition user_past_try :: "user_pc \<Rightarrow> bool" where
  "user_past_try u \<longleftrightarrow> u = Destroying \<or> u = Exiting \<or> u = Exited"

definition sync_ok :: "sync_server \<Rightarrow> bool" where
  "sync_ok s \<longleftrightarrow> list_all svc_ok (services s) \<and>
     (ioc_alive s \<longleftrightarrow> user_at s \<noteq> Exiting \<and> user_at s \<noteq> Exited) \<and>
     (user_past_try (user_at s) \<longrightarrow> loop_off (loop_at s)) \<and>
     (user_at s = Starting \<longleftrightarrow> loop_at s = Not_started \<and> \<not> user_past_try (user_at s)) \<and>
     (m_stop s \<longrightarrow> user_at s = Joining \<or> user_past_try (user_at s)) \<and>
     (user_at s = Joining \<longrightarrow> m_stop s) \<and> (loop_at s = Loop_returned \<longrightarrow> m_stop s) \<and>
     (\<forall>i. loop_at s = Handling i \<longrightarrow> i < length (services s))"

definition sync_side :: "fault + sync_server \<Rightarrow> bool" where
  "sync_side r \<longleftrightarrow> (case r of Inl f \<Rightarrow> f = Terminate \<or> f = Use_after_free | Inr s \<Rightarrow> sync_ok s)"

lemma list_all_update: "list_all P xs \<Longrightarrow> P x \<Longrightarrow> list_all P (xs[i := x])"
  by (auto simp: list_all_iff dest!: set_update_subset_insert [THEN subsetD])

lemma run_service_cases:
  "run_service i s = Inl Use_after_free \<and> uses_context (services s ! i) \<and> \<not> ioc_alive s \<or>
   run_service i s = Inr (s\<lparr>services := (services s)[i := service_step (services s ! i)]\<rparr>)"
  by (simp add: run_service_def)

context acceptor
begin

lemma sync_side_step:
  assumes "sync_side r" "sync_step acc r r'"
  shows "sync_side r'"
  using assms(2)
proof cases
  case (serves i s)
  then have ok: "sync_ok s" using assms(1) by (simp add: sync_side_def)
  then have "svc_ok (service_step (services s ! i))" using serves(3) by (simp add: sync_ok_def list_all_length svc_ok_step)
  with ok serves run_service_cases [of i s] show ?thesis
    by (auto simp: sync_side_def sync_ok_def list_all_update)
next
  case (accepts s io)
  then show ?thesis using assms(1) goes_on [of io s]
    by (auto simp: sync_side_def sync_ok_def accepted keeps svc_ok_new user_past_try_def loop_off_def)
qed (use assms(1) in \<open>auto simp: sync_side_def sync_ok_def sync_defs user_past_try_def loop_off_def split: option.splits\<close>)

end

sublocale acceptor \<subseteq> safety: invariant_system "\<lambda>r. r = Inr starting" "sync_step acc" sync_side
  by unfold_locales
    (simp add: sync_side_def sync_ok_def starting_def user_past_try_def, rule sync_side_step)

context acceptor
begin

lemma reachable_side: "sync_reachable acc r \<Longrightarrow> sync_side r"
  unfolding sync_reachable_def by (rule safety.inv_reachable) auto

lemma reachable_ok: "sync_reachable acc (Inr s) \<Longrightarrow> sync_ok s"
  using reachable_side by (fastforce simp: sync_side_def)

end

section \<open>What the loop reads\<close>

text \<open>
  The accesses to \<open>m_stop\<close> in the order of an execution: the store of \<open>Stop\<close>, and the load with which
  the loop leaves its test, with the value the flag has in the state the step is taken in.
\<close>

datatype flag_access = Stored | Loaded bool

definition accessed :: "sync_server \<Rightarrow> sync_server \<Rightarrow> flag_access list" where
  "accessed s t =
     (if loop_at s = Testing \<and> loop_at t \<noteq> Testing then [Loaded (m_stop s)] else []) @
     (if user_at s = Stopping \<and> user_at t \<noteq> Stopping then [Stored] else [])"

inductive observed :: "(client_io \<Rightarrow> sync_server \<Rightarrow> sync_server) \<Rightarrow> flag_access list \<Rightarrow> sync_server \<Rightarrow> bool" for acc where
  begins: "observed acc [] starting"
| continues: "observed acc as s \<Longrightarrow> sync_step acc (Inr s) (Inr t) \<Longrightarrow> observed acc (as @ accessed s t) t"

fun loads :: "flag_access list \<Rightarrow> bool list" where
  "loads [] = []"
| "loads (Stored # as) = loads as"
| "loads (Loaded b # as) = b # loads as"

text \<open>Every load reads true exactly when a store came before it, or the flag was set to begin with.\<close>

fun coherent :: "bool \<Rightarrow> flag_access list \<Rightarrow> bool" where
  "coherent b [] \<longleftrightarrow> True"
| "coherent b (Stored # as) \<longleftrightarrow> coherent True as"
| "coherent b (Loaded c # as) \<longleftrightarrow> c = b \<and> coherent b as"

lemma loads_append [simp]: "loads (as @ bs) = loads as @ loads bs"
  by (induction as rule: loads.induct) simp_all

lemma coherent_append [simp]: "coherent b (as @ bs) \<longleftrightarrow> coherent b as \<and> coherent (b \<or> Stored \<in> set as) bs"
  by (induction b as rule: coherent.induct) auto

lemma observed_reachable: "observed acc as s \<Longrightarrow> sync_reachable acc (Inr s)"
  by (induction rule: observed.induct) (auto intro: sync_reachable_step simp: sync_reachable_def)

definition tested :: "loop_pc \<Rightarrow> bool list" where
  "tested l = (if l = Accepting then [False] else if l = Loop_returned then [True] else [])"

definition flag_ok :: "flag_access list \<Rightarrow> sync_server \<Rightarrow> bool" where
  "flag_ok as s \<longleftrightarrow> coherent False as \<and> (m_stop s \<longleftrightarrow> Stored \<in> set as) \<and>
     loads as = replicate (length (services s)) False @ tested (loop_at s)"

context acceptor
begin

lemma flag_ok_step:
  assumes "flag_ok as s" "sync_ok s" "sync_step acc (Inr s) (Inr t)"
  shows "flag_ok (as @ accessed s t) t"
  using assms(3)
proof cases
  case (accepts io)
  then show ?thesis using assms(1) goes_on [of io s]
    by (auto simp: flag_ok_def accessed_def tested_def accepted keeps replicate_append_same)
next
  case (start thrown)
  then show ?thesis using assms(1,2)
    by (auto simp: flag_ok_def accessed_def tested_def sync_ok_def user_past_try_def server_Start_def split: option.splits)
next
  case (serves i)
  then show ?thesis using assms(1) run_service_cases [of i s] by (auto simp: flag_ok_def accessed_def)
qed (use assms(1) in \<open>auto simp: flag_ok_def accessed_def tested_def sync_defs split: option.splits\<close>)

lemma observed_loads: "observed acc as s \<Longrightarrow> flag_ok as s"
proof (induction rule: observed.induct)
  case begins
  then show ?case by (simp add: flag_ok_def starting_def tested_def)
next
  case (continues as s t)
  from flag_ok_step [OF continues.IH reachable_ok [OF observed_reachable [OF continues.hyps(1)]] continues.hyps(2)]
  show ?case .
qed

end

text \<open>The loop of the sequential model, for the loads of a loop that waits or has returned.\<close>

lemma Run_replicate:
  "Run (\<lambda>n. (replicate (length ios) False @ [b]) ! n) 0 (map Inr ios) =
    (map HandleClient ios, if b then Returned else Waiting)"
proof -
  have F: "Run stop n (map Inr ios) = (map HandleClient ios, if stop (n + length ios) then Returned else Waiting)"
    if "\<And>i. i < length ios \<Longrightarrow> \<not> stop (n + i)" for stop n
    using that
  proof (induction ios arbitrary: n)
    case (Cons io ios)
    have "\<not> stop (Suc n + i)" if "i < length ios" for i using Cons.prems [of "Suc i"] that by simp
    from Cons.IH [of "Suc n", OF this] Cons.prems [of 0] show ?case by simp
  qed simp
  show ?thesis by (subst F) (simp_all add: nth_append)
qed

section \<open>Stopping\<close>

text \<open>
  Once the flag is stored the loop takes at most one more client, the one whose \<open>accept\<close> it is in.
\<close>

definition may_accept :: "sync_server \<Rightarrow> nat" where
  "may_accept s = length (services s) + (if loop_at s = Accepting then 1 else 0)"

definition stopping :: "nat \<Rightarrow> fault + sync_server \<Rightarrow> bool" where
  "stopping n r \<longleftrightarrow> (\<forall>s. r = Inr s \<longrightarrow> m_stop s \<and> sync_ok s \<and> may_accept s \<le> n)"

text \<open>The steps left after the flag was stored.\<close>

fun loop_left :: "loop_pc \<Rightarrow> nat" where
  "loop_left Not_started = 0"
| "loop_left Opening = 3"
| "loop_left Testing = 1"
| "loop_left Accepting = 9"
| "loop_left (Handling _) = 2"
| "loop_left Loop_returned = 0"

fun user_left :: "user_pc \<Rightarrow> nat" where
  "user_left Starting = 0"
| "user_left Sleeping = 0"
| "user_left Stopping = 0"
| "user_left Joining = 3"
| "user_left Destroying = 2"
| "user_left Exiting = 1"
| "user_left Exited = 0"

definition sync_left :: "fault + sync_server \<Rightarrow> nat" where
  "sync_left r = (case r of Inl f \<Rightarrow> 0
     | Inr s \<Rightarrow> 1 + sum_list (map (\<lambda>v. pc_left (svc_at v)) (services s)) + loop_left (loop_at s) + user_left (user_at s))"

definition stopped :: "fault + sync_server \<Rightarrow> bool" where
  "stopped r \<longleftrightarrow> (\<forall>s. r = Inr s \<longrightarrow> m_stop s \<and> sync_ok s)"

context acceptor
begin

lemma sync_ok_step: "sync_ok s \<Longrightarrow> sync_step acc (Inr s) (Inr t) \<Longrightarrow> sync_ok t"
  using sync_side_step [of "Inr s" "Inr t"] by (simp add: sync_side_def)

lemma stays_stopped:
  assumes "sync_step acc (Inr s) (Inr t)" "m_stop s"
  shows "m_stop t"
  using assms
  by cases (auto simp: sync_defs keeps run_service_def split: option.splits if_splits)

lemma stopped_step: "stopped r \<Longrightarrow> sync_step acc r r' \<Longrightarrow> stopped r'"
  by (cases r) (auto simp: stopped_def intro: sync_ok_step stays_stopped)

lemma stopped_decreases:
  assumes "stopped r" "sync_step acc r r'"
  shows "sync_left r' < sync_left r"
  using assms(2)
proof cases
  case (serves i s)
  have "sum_list (map (\<lambda>v. pc_left (svc_at v)) ((services s)[i := service_step (services s ! i)]))
      < sum_list (map (\<lambda>v. pc_left (svc_at v)) (services s))"
    by (rule sum_list_decrease [OF serves(3)]) (simp add: service_step_left serves(4))
  with serves run_service_cases [of i s] show ?thesis by (auto simp: sync_left_def)
next
  case (accepts s io)
  then show ?thesis using goes_on [of io s] by (auto simp: sync_left_def accepted keeps new_svc_def)
next
  case (opens s thrown)
  then show ?thesis by (auto simp: sync_left_def open_acceptor_def split: option.split)
qed (use assms(1) in \<open>auto simp: sync_left_def stopped_def sync_ok_def sync_defs user_past_try_def\<close>)

end

sublocale acceptor \<subseteq> ends: terminating_system "sync_step acc" stopped sync_left
  by unfold_locales (auto intro: stopped_step stopped_decreases)

context acceptor
begin

lemma may_accept_step:
  assumes "sync_step acc (Inr s) (Inr t)" "m_stop s" "sync_ok s"
  shows "may_accept t \<le> may_accept s"
  using assms(1)
proof cases
  case (accepts io)
  then show ?thesis using goes_on [of io s] by (auto simp: may_accept_def accepted)
qed (use assms(2,3) in \<open>auto simp: may_accept_def sync_defs run_service_def sync_ok_def user_past_try_def
      split: option.splits if_splits\<close>)

lemma after_stop_step: "stopping n r \<Longrightarrow> sync_step acc r r' \<Longrightarrow> stopping n r'"
  by (cases r) (auto simp: stopping_def intro: sync_ok_step stays_stopped order_trans [OF may_accept_step])

end

sublocale acceptor \<subseteq> stopping: invariant_system "stopping n" "sync_step acc" "stopping n" for n
  by unfold_locales (auto intro: after_stop_step)

context acceptor
begin

lemma stopping_steps: "stopping n r \<Longrightarrow> (sync_step acc)\<^sup>*\<^sup>* r r' \<Longrightarrow> stopping n r'"
  by (rule stopping.inv_reachable)

end

section \<open>The iterative server\<close>

text \<open>Only the service the loop is in has not ended.\<close>

definition iterative_ok :: "sync_server \<Rightarrow> bool" where
  "iterative_ok s \<longleftrightarrow> sync_ok s \<and>
     (\<forall>i < length (services s). ended (services s ! i) \<or> loop_at s = Handling i) \<and>
     (\<forall>i. loop_at s = Handling i \<longrightarrow> Suc i = length (services s))"

definition iterative_side :: "fault + sync_server \<Rightarrow> bool" where
  "iterative_side r \<longleftrightarrow> (case r of Inl f \<Rightarrow> f = Terminate | Inr s \<Rightarrow> iterative_ok s)"

lemma iterative_alive:
  assumes "iterative_ok s" "i < length (services s)" "\<not> ended (services s ! i)"
  shows "ioc_alive s"
proof -
  have "loop_at s = Handling i" using assms unfolding iterative_ok_def by blast
  then have "\<not> user_past_try (user_at s)" using assms(1) by (simp add: iterative_ok_def sync_ok_def loop_off_def)
  then show ?thesis using assms(1) by (simp add: iterative_ok_def sync_ok_def user_past_try_def)
qed

lemma iterative_side_step:
  assumes side: "iterative_side r" and st: "sync_step iterative_Accept r r'"
  shows "iterative_side r'"
proof -
  have ok: "sync_ok t" if "r = Inr s" "r' = Inr t" for s t
    using iterative.sync_ok_step [of s t] side st that by (simp add: iterative_side_def iterative_ok_def)
  from st show ?thesis
  proof cases
    case (serves i s)
    then have s: "iterative_ok s" using side by (simp add: iterative_side_def)
    then have "r' = Inr (s\<lparr>services := (services s)[i := service_step (services s ! i)]\<rparr>)"
      using iterative_alive [OF s serves(3,4)] serves(2) by (simp add: run_service_def)
    moreover from this have "sync_ok (s\<lparr>services := (services s)[i := service_step (services s ! i)]\<rparr>)"
      using ok serves(1) by blast
    ultimately show ?thesis using s serves(3,4)
      by (auto simp: iterative_side_def iterative_ok_def nth_list_update)
  next
    case (accepts s io)
    then show ?thesis using side ok
      by (auto simp: iterative_side_def iterative_ok_def iterative_Accept_def nth_append less_Suc_eq)
  next
    case (opens s thrown)
    then show ?thesis using side ok
      by (auto simp: iterative_side_def iterative_ok_def open_acceptor_def split: option.splits)
  next
    case (start s thrown)
    then have "loop_at s = Not_started" using side by (simp add: iterative_side_def iterative_ok_def sync_ok_def)
    then show ?thesis using start side ok
      by (auto simp: iterative_side_def iterative_ok_def server_Start_def split: option.splits)
  qed (use side ok in \<open>auto simp: iterative_side_def iterative_ok_def sync_defs split: option.splits\<close>)
qed

interpretation iterative_safety: invariant_system "\<lambda>r. r = Inr starting" "sync_step iterative_Accept" iterative_side
proof unfold_locales
  have "sync_ok starting" using iterative.reachable_ok [of starting] by (simp add: sync_reachable_def)
  then show "r = Inr starting \<Longrightarrow> iterative_side r" for r
    by (auto simp: iterative_side_def iterative_ok_def starting_def)
qed (rule iterative_side_step)

lemma iterative_reachable_side: "sync_reachable iterative_Accept r \<Longrightarrow> iterative_side r"
  unfolding sync_reachable_def by (rule iterative_safety.inv_reachable) auto

lemma iterative_reachable_ok: "sync_reachable iterative_Accept (Inr s) \<Longrightarrow> iterative_ok s"
  using iterative_reachable_side by (fastforce simp: iterative_side_def)

lemma iterative_ended:
  "iterative_ok s \<Longrightarrow> i < length (services s) \<Longrightarrow> ended (services s ! i) \<or> loop_at s = Handling i"
  unfolding iterative_ok_def by blast

lemma iterative_split:
  assumes "iterative_ok s"
  shows "\<exists>xs ys. services s = xs @ ys \<and> list_all ended xs \<and>
    (ys = [] \<or> (\<exists>v i. ys = [v] \<and> loop_at s = Handling i))"
proof (cases "\<exists>i. loop_at s = Handling i")
  case True
  then obtain i where i: "loop_at s = Handling i" "Suc i = length (services s)"
    using assms by (auto simp: iterative_ok_def)
  have "ended (services s ! n)" if "n < i" for n
    using iterative_ended [OF assms, of n] that i by simp
  then have "ended (butlast (services s) ! n)" if "n < i" for n using that i(2) by (simp add: nth_butlast)
  moreover have "length (butlast (services s)) = i" using i(2) by simp
  ultimately have "list_all ended (butlast (services s))" by (simp add: list_all_length)
  moreover have "services s = butlast (services s) @ [last (services s)]" using i(2) by (cases "services s") simp_all
  ultimately show ?thesis using i(1) by blast
next
  case False
  then have "list_all ended (services s)" using assms by (auto simp: iterative_ok_def list_all_length)
  then show ?thesis by (intro exI [of _ "services s"] exI [of _ "[]"]) simp
qed

lemma iterative_left_bound:
  assumes ok: "iterative_ok s" and stop: "m_stop s"
  shows "sync_left (Inr s) \<le> 13"
proof -
  let ?w = "\<lambda>vs. sum_list (map (\<lambda>v. pc_left (svc_at v)) vs)"
  obtain xs ys where xy: "services s = xs @ ys" "list_all ended xs" "ys = [] \<or> (\<exists>v i. ys = [v] \<and> loop_at s = Handling i)"
    using iterative_split [OF ok] by blast
  have "?w xs = 0" using xy(2) by (induction xs) (simp_all add: ended_def)
  then have "?w (services s) = ?w ys" by (simp add: xy(1))
  then have w: "sync_left (Inr s) = 1 + ?w ys + loop_left (loop_at s) + user_left (user_at s)"
    by (simp only: sync_left_def sum.case)
  have pc: "pc_left p \<le> 6" for p by (cases p) simp_all
  have u: "user_left (user_at s) \<le> 3" by (cases "user_at s") simp_all
  have l: "loop_left (loop_at s) \<le> 9" by (cases "loop_at s") simp_all
  from xy(3) show ?thesis
  proof (elim disjE exE conjE)
    assume "ys = []"
    then show ?thesis using w u l by simp
  next
    fix v i
    assume "ys = [v]" "loop_at s = Handling i"
    then show ?thesis using w u pc [of "svc_at v"] by simp
  qed
qed

text \<open>Something can happen besides a client connecting.\<close>

definition can_go_on :: "(client_io \<Rightarrow> sync_server \<Rightarrow> sync_server) \<Rightarrow> sync_server \<Rightarrow> bool" where
  "can_go_on acc s \<longleftrightarrow> (\<exists>t. sync_step acc (Inr s) (Inr t) \<and> length (services t) = length (services s))"

lemma iterative_goes_on:
  assumes ok: "iterative_ok s" and u: "user_at s = Joining" and l: "loop_at s \<noteq> Accepting"
  shows "can_go_on iterative_Accept s"
proof (cases "loop_at s")
  case Not_started
  then show ?thesis using ok u by (auto simp: iterative_ok_def sync_ok_def user_past_try_def)
next
  case Opening
  then show ?thesis using sync_step.opens [of s iterative_Accept None] u
    by (auto simp: can_go_on_def open_acceptor_def)
next
  case Testing
  then show ?thesis using sync_step.tests [of s iterative_Accept] u by (auto simp: can_go_on_def loop_test_def)
next
  case (Handling i)
  then have i: "i < length (services s)" using ok by (auto simp: iterative_ok_def)
  show ?thesis
  proof (cases "ended (services s ! i)")
    case True
    then show ?thesis using sync_step.handled [OF Handling, of iterative_Accept] u by (auto simp: can_go_on_def)
  next
    case False
    with sync_step.serves [OF i, of iterative_Accept] iterative_alive [OF ok i] u show ?thesis
      by (auto simp: can_go_on_def run_service_def)
  qed
next
  case Loop_returned
  from sync_step.join [OF u this, of iterative_Accept] show ?thesis by (fastforce simp: can_go_on_def stop_join_def)
qed (use l in simp)

section \<open>The parallel server\<close>

text \<open>A service that has not ended when the server is destroyed comes to a use of its socket.\<close>

lemma orphan_faults:
  assumes "i < length (services s)" "\<not> ended (services s ! i)" "\<not> ioc_alive s" "user_at s = Exiting"
  shows "(sync_step acc)\<^sup>*\<^sup>* (Inr s) (Inl Use_after_free)"
  using assms
proof (induction "pc_left (svc_at (services s ! i))" arbitrary: s rule: less_induct)
  case less
  have st: "sync_step acc (Inr s) (run_service i s)" using less.prems by (simp add: sync_step.serves)
  show ?case
  proof (cases "uses_context (services s ! i)")
    case True
    with st less.prems(3) show ?thesis by (auto simp: run_service_def)
  next
    case False
    let ?t = "s\<lparr>services := (services s)[i := service_step (services s ! i)]\<rparr>"
    have "\<not> ended (service_step (services s ! i))"
      using less.prems(2) False
      by (cases "svc_at (services s ! i)") (auto simp: service_step_def ended_def uses_context_def)
    then have "(sync_step acc)\<^sup>*\<^sup>* (Inr ?t) (Inl Use_after_free)"
      using less.prems service_step_left [OF less.prems(2)] by (intro less.hyps) simp_all
    moreover have "sync_step acc (Inr s) (Inr ?t)" using st False by (simp add: run_service_def)
    ultimately show ?thesis by (rule converse_rtranclp_into_rtranclp [rotated])
  qed
qed

text \<open>With no service left after the \<open>try\<close> block nothing runs but the end of \<open>main\<close>.\<close>

definition nothing_left :: "fault + sync_server \<Rightarrow> bool" where
  "nothing_left r \<longleftrightarrow> (\<exists>s. r = Inr s \<and> user_past_try (user_at s) \<and> loop_off (loop_at s) \<and> list_all ended (services s))"

lemma nothing_left_step: "nothing_left r \<Longrightarrow> sync_step acc r r' \<Longrightarrow> nothing_left r'"
  by (erule sync_step.cases)
    (auto simp: nothing_left_def user_past_try_def loop_off_def destroy_server_def list_all_length)

interpretation nothing_left: invariant_system nothing_left "sync_step acc" nothing_left for acc
  by unfold_locales (auto intro: nothing_left_step)

section \<open>Concrete runs\<close>

datatype sync_event =
    Ev_start | Ev_wake | Ev_store | Ev_join | Ev_destroy | Ev_exit | Ev_open | Ev_test
  | Ev_accept client_io | Ev_handled nat | Ev_serve nat

fun sync_exec :: "(client_io \<Rightarrow> sync_server \<Rightarrow> sync_server) \<Rightarrow> sync_event \<Rightarrow> sync_server \<Rightarrow> (fault + sync_server) option" where
  "sync_exec acc Ev_start s = (if user_at s = Starting then Some (Inr (server_Start None s)) else None)"
| "sync_exec acc Ev_wake s = (if user_at s = Sleeping then Some (Inr (s\<lparr>user_at := Stopping\<rparr>)) else None)"
| "sync_exec acc Ev_store s = (if user_at s = Stopping then Some (Inr (stop_store s)) else None)"
| "sync_exec acc Ev_join s =
     (if user_at s = Joining \<and> loop_at s = Loop_returned then Some (Inr (stop_join s)) else None)"
| "sync_exec acc Ev_destroy s = (if user_at s = Destroying then Some (Inr (destroy_server s)) else None)"
| "sync_exec acc Ev_exit s = (if user_at s = Exiting then Some (Inr (s\<lparr>user_at := Exited\<rparr>)) else None)"
| "sync_exec acc Ev_open s =
     (if loop_at s = Opening \<and> user_at s \<noteq> Exited then Some (open_acceptor None s) else None)"
| "sync_exec acc Ev_test s =
     (if loop_at s = Testing \<and> user_at s \<noteq> Exited then Some (Inr (loop_test s)) else None)"
| "sync_exec acc (Ev_accept io) s =
     (if loop_at s = Accepting \<and> user_at s \<noteq> Exited then Some (Inr (acc io s)) else None)"
| "sync_exec acc (Ev_handled i) s =
     (if loop_at s = Handling i \<and> ended (services s ! i) \<and> user_at s \<noteq> Exited
      then Some (Inr (s\<lparr>loop_at := Testing\<rparr>)) else None)"
| "sync_exec acc (Ev_serve i) s =
     (if i < length (services s) \<and> \<not> ended (services s ! i) \<and> user_at s \<noteq> Exited then Some (run_service i s) else None)"

fun sync_run :: "(client_io \<Rightarrow> sync_server \<Rightarrow> sync_server) \<Rightarrow> sync_event list \<Rightarrow> fault + sync_server \<Rightarrow>
    (fault + sync_server) option" where
  "sync_run acc [] r = Some r"
| "sync_run acc (e # es) (Inl f) = None"
| "sync_run acc (e # es) (Inr s) = (case sync_exec acc e s of None \<Rightarrow> None | Some r \<Rightarrow> sync_run acc es r)"

lemma sync_exec_step: "sync_exec acc e s = Some r \<Longrightarrow> sync_step acc (Inr s) r"
  by (cases e) (auto split: if_splits intro: sync_step.intros)

lemma sync_run_steps: "sync_run acc es r = Some r' \<Longrightarrow> (sync_step acc ^^ length es) r r'"
proof (induction acc es r rule: sync_run.induct)
  case (3 acc e es s)
  then obtain v where v: "sync_exec acc e s = Some v" "sync_run acc es v = Some r'" by (auto split: option.splits)
  from sync_exec_step [OF v(1)] "3.IH" [OF v] show ?case
    by (auto simp: relpowp_commute simp del: relpowp.simps(2) intro!: relpowp_Suc_I2)
qed simp_all

lemma sync_run_reachable: "sync_run acc es (Inr starting) = Some r \<Longrightarrow> sync_reachable acc r"
  unfolding sync_reachable_def by (drule sync_run_steps) (rule relpowp_imp_rtranclp)

text \<open>One client comes before the stop; the flag is stored while the next is awaited, and one more comes.\<close>

definition one_client :: "sync_event list" where
  "one_client = [Ev_start, Ev_open, Ev_test, Ev_accept (Inr ''x'', None)]"

definition serve_0 :: "sync_event list" where
  "serve_0 = [Ev_serve 0, Ev_serve 0, Ev_serve 0, Ev_serve 0, Ev_serve 0]"

definition sync_end :: "(client_io \<Rightarrow> sync_server \<Rightarrow> sync_server) \<Rightarrow> sync_event list \<Rightarrow> sync_server" where
  "sync_end acc es = (case sync_run acc es (Inr starting) of Some (Inr s) \<Rightarrow> s | _ \<Rightarrow> starting)"

lemma sync_end_reachable: "sync_reachable acc (Inr (sync_end acc es))"
  using sync_run_reachable [of acc es]
  by (auto simp: sync_end_def sync_reachable_def split: option.split sum.split)

lemmas sync_run_simps =
  sync_end_def one_client_def serve_0_def starting_def sync_defs iterative_Accept_def parallel_Accept_def
  run_service_def service_step_def new_svc_def uses_context_def ended_def

definition waiting_iterative :: sync_server where
  "waiting_iterative = sync_end iterative_Accept (one_client @ serve_0 @ [Ev_handled 0, Ev_test, Ev_wake, Ev_store])"

lemma waiting_iterative_facts:
  "m_stop waiting_iterative" "user_at waiting_iterative = Joining" "loop_at waiting_iterative = Accepting"
  "length (services waiting_iterative) = 1"
  by (simp_all add: waiting_iterative_def sync_run_simps)

definition finished_iterative_events :: "sync_event list" where
  "finished_iterative_events =
     one_client @ serve_0 @ [Ev_handled 0, Ev_wake, Ev_store, Ev_test, Ev_join, Ev_destroy, Ev_exit]"

definition finished_iterative :: sync_server where
  "finished_iterative = sync_end iterative_Accept finished_iterative_events"

lemma finished_iterative_facts:
  "loop_at finished_iterative = Loop_returned" "user_at finished_iterative = Exited"
  "map svc_sent (services finished_iterative) = [Some response_text]"
  "map svc_io (services finished_iterative) = [(Inr ''x'', None)]"
  "\<not> ioc_alive finished_iterative"
  by (simp_all add: finished_iterative_def finished_iterative_events_def sync_run_simps)

text \<open>The accesses to the flag in a concrete run.\<close>

fun run_accesses :: "(client_io \<Rightarrow> sync_server \<Rightarrow> sync_server) \<Rightarrow> sync_event list \<Rightarrow> sync_server \<Rightarrow>
    (flag_access list \<times> sync_server) option" where
  "run_accesses acc [] s = Some ([], s)"
| "run_accesses acc (e # es) s = (case sync_exec acc e s of
     Some (Inr t) \<Rightarrow> map_option (\<lambda>(as, u). (accessed s t @ as, u)) (run_accesses acc es t)
   | _ \<Rightarrow> None)"

lemma observed_run:
  "observed acc as s \<Longrightarrow> run_accesses acc es s = Some (bs, t) \<Longrightarrow> observed acc (as @ bs) t"
proof (induction acc es s arbitrary: as bs rule: run_accesses.induct)
  case (2 acc e es s)
  then obtain u cs where u: "sync_exec acc e s = Some (Inr u)" "run_accesses acc es u = Some (cs, t)"
    "bs = accessed s u @ cs"
    by (auto split: option.splits sum.splits)
  from "2.IH" [OF u(1) refl observed.continues [OF "2.prems"(1) sync_exec_step [OF u(1)]] u(2)] show ?case
    by (simp add: u(3))
qed simp

text \<open>The parallel server is stopped while its only client is being served.\<close>

definition deserted_parallel :: sync_server where
  "deserted_parallel = sync_end parallel_Accept (one_client @ [Ev_wake, Ev_store, Ev_test, Ev_join])"

lemma deserted_parallel_facts:
  "user_at deserted_parallel = Destroying" "map svc_at (services deserted_parallel) = [Reading]"
  by (simp_all add: deserted_parallel_def sync_run_simps)

section \<open>Properties\<close>

text \<open>
  The iterative server, with \<open>main\<close> and the server's thread interleaved in any way: no use of the
  \<open>io_context\<close> after it was destroyed; the only fault is an exception of the acceptor in the server's
  thread, which ends the process; at most one client is being served at a time, and none once the
  server object is gone.
\<close>

theorem iterative_server_safe:
  assumes "sync_reachable iterative_Accept r"
  shows "case r of Inl f \<Rightarrow> f = Terminate
    | Inr s \<Rightarrow> length (filter (\<lambda>v. \<not> ended v) (services s)) \<le> 1 \<and> (ioc_alive s \<or> list_all ended (services s))"
proof (cases r)
  case (Inl f)
  then show ?thesis using iterative_reachable_side [OF assms] by (simp add: iterative_side_def)
next
  case (Inr s)
  then have ok: "iterative_ok s" using iterative_reachable_ok assms by simp
  obtain xs ys where xy: "services s = xs @ ys" "list_all ended xs" "ys = [] \<or> (\<exists>v i. ys = [v] \<and> loop_at s = Handling i)"
    using iterative_split [OF ok] by blast
  from xy(2) have "filter (\<lambda>v. \<not> ended v) xs = []" by (simp add: filter_empty_conv list_all_iff)
  then have "filter (\<lambda>v. \<not> ended v) (services s) = filter (\<lambda>v. \<not> ended v) ys"
    by (simp only: xy(1) filter_append append_Nil)
  then have "length (filter (\<lambda>v. \<not> ended v) (services s)) \<le> 1"
    using xy(3) by (elim disjE exE conjE) simp_all
  moreover have "ioc_alive s \<or> list_all ended (services s)"
    using iterative_alive [OF ok] by (auto simp: list_all_length)
  ultimately show ?thesis using Inr by simp
qed

theorem iterative_server_safe_witness:
  "length (filter (\<lambda>v. \<not> ended v) (services finished_iterative)) \<le> 1 \<and> list_all ended (services finished_iterative)"
  using iterative_server_safe [OF sync_end_reachable [of iterative_Accept]] finished_iterative_facts(5)
  unfolding finished_iterative_def by fastforce

text \<open>
  C23: The threads implement the sequential model. In any execution, when the loop of the iterative server
  waits in \<open>accept\<close> or has returned, it has done with the clients that connected, in their order, what
  \<open>Run\<close> does when its \<open>n\<close>-th test of \<open>m_stop\<close> reads what the \<open>n\<close>-th load of the execution read: it made
  one load more than it took clients, each client was given what \<open>HandleClient\<close> gives, and it waits where
  \<open>Run\<close> waits and has returned where \<open>Run\<close> has. And a load reads true exactly when the store of \<open>Stop\<close>
  came before it.
\<close>

theorem iterative_implements_Run:
  assumes "observed iterative_Accept as s" "loop_at s = Accepting \<or> loop_at s = Loop_returned"
  shows "length (loads as) = Suc (length (services s)) \<and>
    Run (\<lambda>n. loads as ! n) 0 (map (\<lambda>v. Inr (svc_io v)) (services s)) =
      (map (\<lambda>v. Some (svc_sent v, svc_printed v)) (services s), if loop_at s = Accepting then Waiting else Returned) \<and>
    coherent False as"
proof -
  have ok: "iterative_ok s" by (rule iterative_reachable_ok [OF observed_reachable [OF assms(1)]])
  from iterative.observed_loads [OF assms(1)] assms(2)
  have loads: "loads as = replicate (length (services s)) False @ [loop_at s = Loop_returned]" and "coherent False as"
    by (auto simp: flag_ok_def tested_def)
  moreover have "Run (\<lambda>n. loads as ! n) 0 (map Inr (map svc_io (services s))) =
      (map HandleClient (map svc_io (services s)), if loop_at s = Accepting then Waiting else Returned)"
    unfolding loads using Run_replicate [of "map svc_io (services s)" "loop_at s = Loop_returned"] assms(2) by auto
  moreover have "HandleClient (svc_io v) = Some (svc_sent v, svc_printed v)" if v: "v \<in> set (services s)" for v
  proof -
    have "ended v" "svc_ok v"
      using ok v assms(2) by (auto simp: iterative_ok_def sync_ok_def list_all_iff in_set_conv_nth)
    then show ?thesis by (simp add: HandleClient_handled_as svc_ok_ended)
  qed
  ultimately show ?thesis by (simp add: comp_def)
qed

theorem iterative_implements_Run_witness:
  "Run (\<lambda>n. [False, True] ! n) 0 (map (\<lambda>v. Inr (svc_io v)) (services finished_iterative)) =
    (map (\<lambda>v. Some (svc_sent v, svc_printed v)) (services finished_iterative), Returned)"
proof -
  have "observed iterative_Accept [Loaded False, Stored, Loaded True] finished_iterative"
    using observed_run [OF observed.begins, of iterative_Accept finished_iterative_events]
    by (simp add: finished_iterative_def finished_iterative_events_def sync_run_simps accessed_def)
  from iterative_implements_Run [OF this] show ?thesis by (simp add: finished_iterative_facts)
qed

text \<open>
  Both servers: once \<open>Stop\<close> has stored the flag, at most one more client is taken.
\<close>

theorem stop_takes_one_more:
  assumes "acceptor acc" "sync_reachable acc (Inr s)" "m_stop s" "(sync_step acc)\<^sup>*\<^sup>* (Inr s) (Inr t)"
  shows "length (services t) \<le> Suc (length (services s))"
proof -
  have "sync_ok s" by (rule acceptor.reachable_ok [OF assms(1,2)])
  then have "stopping (Suc (length (services s))) (Inr s)" using assms(3) by (simp add: stopping_def may_accept_def)
  from acceptor.stopping_steps [OF assms(1) this assms(4)] have "stopping (Suc (length (services s))) (Inr t)" .
  then show ?thesis by (simp add: stopping_def may_accept_def)
qed

theorem stop_takes_one_more_witness:
  "length (services (iterative_Accept (Inr ''y'', None) waiting_iterative)) \<le> Suc (length (services waiting_iterative))"
proof (rule stop_takes_one_more [OF iterative.acceptor_axioms])
  show "sync_reachable iterative_Accept (Inr waiting_iterative)"
    unfolding waiting_iterative_def by (rule sync_end_reachable)
  show "m_stop waiting_iterative" by (rule waiting_iterative_facts)
  show "(sync_step iterative_Accept)\<^sup>*\<^sup>* (Inr waiting_iterative) (Inr (iterative_Accept (Inr ''y'', None) waiting_iterative))"
    by (rule r_into_rtranclp, rule sync_step.accepts) (simp_all add: waiting_iterative_facts)
qed

text \<open>
  C26: \<open>Stop\<close> of the iterative server: after the flag is stored at most twelve more steps happen, and
  when they are over the program has ended, or the server still waits in \<open>accept\<close>, no client being
  served, for a client that need not come. The end of the \<open>read_until\<close> of a client that is being
  served counts as a step that can happen.
\<close>

theorem iterative_stop_ends:
  assumes "sync_reachable iterative_Accept (Inr s)" "m_stop s" "(sync_step iterative_Accept ^^ n) (Inr s) (Inr t)"
  shows "n \<le> 12 \<and> (user_at t = Exited \<or> can_go_on iterative_Accept t \<or>
    user_at t = Joining \<and> loop_at t = Accepting \<and> list_all ended (services t))"
proof -
  have s: "iterative_ok s" by (rule iterative_reachable_ok [OF assms(1)])
  have "sync_reachable iterative_Accept (Inr t)"
    using assms(1) relpowp_imp_rtranclp [OF assms(3)] unfolding sync_reachable_def by (rule rtranclp_trans)
  then have t: "iterative_ok t" by (rule iterative_reachable_ok)
  have "stopped (Inr s)" using s assms(2) by (simp add: stopped_def iterative_ok_def)
  from iterative.ends.steps_bounded [OF assms(3) this] have n: "n + sync_left (Inr t) \<le> sync_left (Inr s)"
    and st: "m_stop t" by (simp_all add: stopped_def)
  have "sync_left (Inr s) \<le> 13" using s assms(2) by (rule iterative_left_bound)
  moreover have "1 \<le> sync_left (Inr t)" by (simp add: sync_left_def)
  moreover have "user_at t = Exited \<or> can_go_on iterative_Accept t \<or> user_at t = Joining \<and> loop_at t = Accepting"
  proof (cases "user_at t = Joining")
    case True
    then show ?thesis using iterative_goes_on [OF t True] by blast
  next
    case False
    then have "user_past_try (user_at t)" using t st by (simp add: iterative_ok_def sync_ok_def)
    then show ?thesis using sync_step.destroy [of t iterative_Accept] sync_step.exit [of t iterative_Accept]
      unfolding user_past_try_def can_go_on_def destroy_server_def by fastforce
  qed
  moreover have "list_all ended (services t)" if "loop_at t = Accepting"
    using iterative_ended [OF t] that by (simp add: list_all_length)
  ultimately show ?thesis using n by auto
qed

theorem iterative_stop_ends_witness:
  "1 \<le> (12 :: nat) \<and> (let t = iterative_Accept (Inr ''y'', None) waiting_iterative in
    user_at t = Exited \<or> can_go_on iterative_Accept t \<or>
    user_at t = Joining \<and> loop_at t = Accepting \<and> list_all ended (services t))"
proof -
  have "sync_step iterative_Accept (Inr waiting_iterative) (Inr (iterative_Accept (Inr ''y'', None) waiting_iterative))"
    by (rule sync_step.accepts) (simp_all add: waiting_iterative_facts)
  then have "(sync_step iterative_Accept ^^ 1) (Inr waiting_iterative)
      (Inr (iterative_Accept (Inr ''y'', None) waiting_iterative))" by (simp add: relcompp_apply)
  moreover have "sync_reachable iterative_Accept (Inr waiting_iterative)"
    unfolding waiting_iterative_def by (rule sync_end_reachable)
  ultimately show ?thesis using iterative_stop_ends [of waiting_iterative 1] waiting_iterative_facts(1)
    unfolding Let_def by blast
qed

text \<open>
  C27: The parallel server does not wait for its detached threads: when \<open>main\<close> destroys the server, a
  thread goes on to use the destroyed \<open>io_context\<close> in some execution if and only if there is a client
  that is still being served.
\<close>

theorem parallel_use_after_free_iff:
  assumes "sync_reachable parallel_Accept (Inr s)" "user_at s = Destroying"
  shows "(sync_step parallel_Accept)\<^sup>*\<^sup>* (Inr s) (Inl Use_after_free) \<longleftrightarrow> \<not> list_all ended (services s)"
proof
  assume steps: "(sync_step parallel_Accept)\<^sup>*\<^sup>* (Inr s) (Inl Use_after_free)"
  show "\<not> list_all ended (services s)"
  proof
    assume "list_all ended (services s)"
    moreover have "user_past_try (user_at s)" "loop_off (loop_at s)"
      using parallel.reachable_ok [OF assms(1)] assms(2) by (auto simp: sync_ok_def user_past_try_def)
    ultimately have "nothing_left (Inr s)" by (simp add: nothing_left_def)
    from nothing_left.inv_reachable [OF this steps] show False by (simp add: nothing_left_def)
  qed
next
  assume "\<not> list_all ended (services s)"
  then obtain i where i: "i < length (services s)" "\<not> ended (services s ! i)" by (auto simp: list_all_length)
  let ?t = "destroy_server s"
  have "sync_step parallel_Accept (Inr s) (Inr ?t)" by (rule sync_step.destroy [OF assms(2)])
  moreover have "(sync_step parallel_Accept)\<^sup>*\<^sup>* (Inr ?t) (Inl Use_after_free)"
    by (rule orphan_faults [of i]) (use i in \<open>simp_all add: destroy_server_def\<close>)
  ultimately show "(sync_step parallel_Accept)\<^sup>*\<^sup>* (Inr s) (Inl Use_after_free)"
    by (rule converse_rtranclp_into_rtranclp)
qed

theorem parallel_use_after_free_iff_witness:
  "(sync_step parallel_Accept)\<^sup>*\<^sup>* (Inr deserted_parallel) (Inl Use_after_free)"
proof -
  have "sync_reachable parallel_Accept (Inr deserted_parallel)"
    unfolding deserted_parallel_def by (rule sync_end_reachable)
  moreover have "\<not> list_all ended (services deserted_parallel)"
    using deserted_parallel_facts(2) by (auto simp: ended_def map_eq_Cons_conv)
  ultimately show ?thesis using parallel_use_after_free_iff deserted_parallel_facts(1) by blast
qed

end
