(* ===== verification/Pool_Program.thy ===== *)
theory Pool_Program
  imports Pool_Client Async_Program
begin

text \<open>
  The program of \<open>src/asio-cookbook/ch3_client/async_tcp_client_mt.cpp\<close> on the client of
  \<open>Pool_Client\<close> with its four threads: \<open>main\<close> issues its calls one after the other, whatever the
  threads of the pool do in between. Shown: no run has more than sixty-six steps, a run that is not
  over can go on (its one \<open>CancelRequest\<close> cannot deadlock with a handler), and a run that is over
  has called back each of the three requests once.
\<close>

section \<open>The program\<close>

datatype user_call =
    Call_request u32 u32   \<comment> \<open>duration and identifier\<close>
  | Call_cancel u32
  | Call_close

definition main_calls :: "user_call list" where
  "main_calls = [Call_request 10 1, Call_request 11 2, Call_cancel 1, Call_request 12 3, Call_close]"

record program =
  pool_of :: pool
  calls_left :: "user_call list"

definition main_start :: program where
  "main_start = \<lparr>pool_of = AsyncTCPClientMT 4, calls_left = main_calls\<rparr>"

text \<open>\<open>address\<close> and \<open>open_error\<close>: what \<open>make_address\<close> and \<open>open\<close> come to.\<close>

fun make_call :: "error_code + nat \<Rightarrow> error_code option \<Rightarrow> user_call \<Rightarrow> pool \<Rightarrow> error_code + pool" where
  "make_call address open_error (Call_request duration_sec request_id) p =
     begin_request duration_sec address open_error request_id p"
| "make_call address open_error (Call_cancel request_id) p = Inr (begin_cancel request_id p)"
| "make_call address open_error Call_close p = Inr (begin_close p)"

text \<open>
  A step of the pool, or the next call of \<open>main\<close>. An exception leaves the block of \<open>client\<close>, whose
  threads are destroyed without having been joined: the process ends before the handler is reached.
\<close>

inductive program_step :: "error_code \<Rightarrow> fault + program \<Rightarrow> fault + program \<Rightarrow> bool" for aborted where
  runs: "running_step aborted (pool_of s) q \<Longrightarrow> program_step aborted (Inr s) (Inr (s\<lparr>pool_of := q\<rparr>))"
| completes: "start_handler i ec bs (pool_of s) = Some q \<Longrightarrow> program_step aborted (Inr s) (Inr (s\<lparr>pool_of := q\<rparr>))"
| exits: "thread_exit (pool_of s) = Some q \<Longrightarrow> program_step aborted (Inr s) (Inr (s\<lparr>pool_of := q\<rparr>))"
| calls: "user_at (pool_of s) = User_idle \<Longrightarrow> calls_left s = c # cs \<Longrightarrow>
    make_call address open_error c (pool_of s) = Inr q \<Longrightarrow>
    program_step aborted (Inr s) (Inr \<lparr>pool_of = q, calls_left = cs\<rparr>)"
| throws: "user_at (pool_of s) = User_idle \<Longrightarrow> calls_left s = c # cs \<Longrightarrow>
    make_call address open_error c (pool_of s) = Inl e \<Longrightarrow> program_step aborted (Inr s) (Inl Terminate)"

inductive_simps no_step_after_throw [simp]: "program_step aborted (Inl f) r"
inductive_cases program_stepE: "program_step aborted (Inr s) (Inr t)"

text \<open>What its callback prints.\<close>

definition pool_handler :: "(error_code \<Rightarrow> string) \<Rightarrow> error_code \<Rightarrow> u32 \<Rightarrow> string \<Rightarrow> error_code \<Rightarrow> string" where
  "pool_handler message aborted request_id response ec =
     ''Request #'' @ show_nat (unat request_id) @
     (if ec_value ec = 0 then '' has completed. Response: '' @ response
      else if ec = aborted then '' has been cancelled by the user.''
      else '' failed! Error code = '' @ show_int (ec_value ec) @ ''. Error message = '' @ message ec)"

lemma pool_handler_same: "pool_handler = callback_output"
  by (intro ext) (simp add: pool_handler_def callback_output_def)

section \<open>What a step changes\<close>

definition uncancelled :: "pool \<Rightarrow> bool" where
  "uncancelled p \<longleftrightarrow> list_all (\<lambda>s. \<not> m_was_canceled (shared s)) (mt_sessions p)"

text \<open>The sessions there are, or will be when the call is over.\<close>

fun inserting :: "user_at \<Rightarrow> nat" where
  "inserting (User_insert _) = 1"
| "inserting (User_inserting _) = 1"
| "inserting _ = 0"

fun cancelling :: "user_at \<Rightarrow> bool" where
  "cancelling (User_cancel _) = True"
| "cancelling (User_find _) = True"
| "cancelling (User_found _ _) = True"
| "cancelling (User_mark _ _) = True"
| "cancelling _ = False"

definition closing :: "user_at \<Rightarrow> bool" where
  "closing u \<longleftrightarrow> u = User_join \<or> u = User_closed"

definition known :: "pool \<Rightarrow> nat" where
  "known p = length (mt_sessions p) + inserting (user_at p)"

text \<open>No session is marked but by the step that ends a \<open>CancelRequest\<close>.\<close>

definition same_calls :: "pool \<Rightarrow> pool \<Rightarrow> bool" where
  "same_calls p q \<longleftrightarrow> known q = known p \<and> (cancelling (user_at q) \<longrightarrow> cancelling (user_at p)) \<and>
     closing (user_at q) = closing (user_at p) \<and>
     (cancelling (user_at q) \<or> \<not> cancelling (user_at p) \<longrightarrow> uncancelled p \<longrightarrow> uncancelled q)"

lemma uncancelled_put:
  "uncancelled p \<Longrightarrow> mt_sessions q = (mt_sessions p)[i := s] \<Longrightarrow> \<not> m_was_canceled (shared s) \<Longrightarrow> uncancelled q"
  by (auto simp: uncancelled_def list_all_iff dest!: set_update_subset_insert [THEN subsetD])

definition touches :: "nat \<Rightarrow> pool \<Rightarrow> pool \<Rightarrow> bool" where
  "touches i p q \<longleftrightarrow> i < length (mt_sessions p) \<and> user_at q = user_at p \<and>
     (\<exists>s. mt_sessions q = (mt_sessions p)[i := s] \<and>
       m_was_canceled (shared s) = m_was_canceled (shared (mt_sessions p ! i)))"

lemma touches_same_calls: "touches i p q \<Longrightarrow> same_calls p q"
  by (auto simp: touches_def same_calls_def known_def uncancelled_def list_all_length nth_list_update split: if_splits)

lemma handler_step_touches: "handler_step aborted i p = Some q \<Longrightarrow> touches i p q"
  by (cases "at (mt_sessions p ! i)")
    (auto simp: touches_def handler_step_def Let_def split: if_splits option.splits)

lemma leave_step_touches: "leave_step i p = Some q \<Longrightarrow> touches i p q"
  by (auto simp: touches_def leave_step_def split: if_splits)

lemma start_handler_touches:
  assumes "start_handler i ec bs p = Some q"
  shows "touches i p q"
proof -
  obtain st s a where h: "i < length (mt_sessions p)"
    "begin_handler ec bs st (shared (mt_sessions p ! i)) = (s, a)"
    "q = put i ((mt_sessions p ! i)\<lparr>shared := s, at := a\<rparr>) (p\<lparr>idle_threads := idle_threads p - 1\<rparr>)"
    using assms by (auto simp: start_handler_def split: if_splits option.splits prod.splits)
  from begin_handler_cases [OF h(2)] h(1,3) show ?thesis
    unfolding touches_def by (intro conjI exI [of _ "(mt_sessions p ! i)\<lparr>shared := s, at := a\<rparr>"]) simp_all
qed

lemma user_step_same_calls:
  assumes "pool_ok p" "user_step p = Some q"
  shows "same_calls p q"
proof (cases "user_at p")
  case (User_inserting s)
  then have "\<not> m_was_canceled s" using pool_okD(4) [OF assms(1)] by (auto simp: fresh_session_def new_session_def)
  with User_inserting assms(2) show ?thesis
    by (auto simp: same_calls_def user_step_def known_def closing_def uncancelled_def)
next
  case (User_connect i)
  then have "i < length (mt_sessions p)" using pool_okD(4) [OF assms(1)] by simp
  with User_connect assms(2) show ?thesis
    by (auto simp: same_calls_def user_step_def known_def closing_def uncancelled_def list_all_length nth_list_update
        split: if_splits)
next
  case (User_found rid i)
  then have "i < length (mt_sessions p)" using pool_okD(4,5) [OF assms(1)] by simp
  with User_found assms(2) show ?thesis
    by (auto simp: same_calls_def user_step_def known_def closing_def uncancelled_def list_all_length nth_list_update
        split: if_splits)
qed (use assms(2) in \<open>auto simp: same_calls_def user_step_def known_def closing_def uncancelled_def
      split: if_splits option.splits\<close>)

lemma running_step_same_calls: "pool_ok p \<Longrightarrow> running_step aborted p q \<Longrightarrow> same_calls p q"
  by (erule running_step.cases)
    (auto intro: handler_step_touches leave_step_touches touches_same_calls user_step_same_calls)

lemma thread_exit_same_calls: "thread_exit p = Some q \<Longrightarrow> same_calls p q"
  by (auto simp: thread_exit_def same_calls_def known_def uncancelled_def split: if_splits)

section \<open>Invariant\<close>

fun is_request :: "user_call \<Rightarrow> bool" where
  "is_request (Call_request _ _) = True"
| "is_request _ = False"

definition cancel_to_come :: "program \<Rightarrow> bool" where
  "cancel_to_come s \<longleftrightarrow> Call_cancel 1 \<in> set (calls_left s)"

definition program_ok :: "program \<Rightarrow> bool" where
  "program_ok s \<longleftrightarrow> pool_ok (pool_of s) \<and> m_threads (pool_of s) = 4 \<and> suffix (calls_left s) main_calls \<and>
     known (pool_of s) + length (filter is_request (calls_left s)) = 3 \<and>
     (calls_left s = [] \<longleftrightarrow> closing (user_at (pool_of s))) \<and>
     (cancelling (user_at (pool_of s)) \<longrightarrow> \<not> cancel_to_come s) \<and>
     (cancelling (user_at (pool_of s)) \<or> cancel_to_come s \<longrightarrow> uncancelled (pool_of s))"

lemma program_ok_inside:
  assumes "program_ok s" "pool_step aborted (pool_of s) q" "same_calls (pool_of s) q"
  shows "program_ok (s\<lparr>pool_of := q\<rparr>)"
  using assms pool_ok_step [of "pool_of s" aborted q] pool_step_threads [of aborted "pool_of s" q]
  by (auto simp: program_ok_def same_calls_def cancel_to_come_def)

lemma calls_cases:
  assumes "suffix (c # cs) main_calls"
  obtains "c = Call_request 10 1" "cs = [Call_request 11 2, Call_cancel 1, Call_request 12 3, Call_close]"
  | "c = Call_request 11 2" "cs = [Call_cancel 1, Call_request 12 3, Call_close]"
  | "c = Call_cancel 1" "cs = [Call_request 12 3, Call_close]"
  | "c = Call_request 12 3" "cs = [Call_close]" | "c = Call_close" "cs = []"
  using assms by (auto simp: main_calls_def suffix_Cons)

lemma make_call_step:
  assumes "make_call address open_error c p = Inr q" "user_at p = User_idle"
  shows "pool_step aborted p q"
  using assms by (cases c) (auto intro: pool_step.request pool_step.cancel pool_step.close)

lemma make_call_user:
  assumes "make_call address open_error c p = Inr q"
  shows "mt_sessions q = mt_sessions p" "inserting (user_at q) = (if is_request c then 1 else 0)"
    "cancelling (user_at q) \<longleftrightarrow> (\<exists>rid. c = Call_cancel rid)" "closing (user_at q) \<longleftrightarrow> c = Call_close"
  using assms
  by (cases c; auto simp: begin_request_def begin_cancel_def begin_close_def closing_def rbind_Inr_iff Let_def
      split: option.splits)+

lemma program_ok_calls:
  assumes ok: "program_ok s" and idle: "user_at (pool_of s) = User_idle" and c: "calls_left s = c # cs"
    and q: "make_call address open_error c (pool_of s) = Inr q"
  shows "program_ok \<lparr>pool_of = q, calls_left = cs\<rparr>"
proof -
  note st = make_call_step [OF q idle]
  have "pool_ok q" "m_threads q = 4"
    using pool_ok_step [OF _ st] pool_step_threads [OF st] ok by (simp_all add: program_ok_def)
  moreover have sf: "suffix (c # cs) main_calls" using ok c by (simp add: program_ok_def)
  moreover from this have "suffix cs main_calls" by (metis suffix_ConsD)
  moreover have "known q + length (filter is_request cs) = 3"
    using ok c idle make_call_user(1,2) [OF q] by (simp add: program_ok_def known_def split: if_splits)
  moreover have "uncancelled (pool_of s)" if "cancel_to_come s" using ok that by (simp add: program_ok_def)
  moreover have "uncancelled q = uncancelled (pool_of s)" using make_call_user(1) [OF q] by (simp add: uncancelled_def)
  ultimately show ?thesis using make_call_user(3,4) [OF q] c
    by (elim calls_cases) (simp_all add: program_ok_def cancel_to_come_def)
qed

definition program_side :: "fault + program \<Rightarrow> bool" where
  "program_side r \<longleftrightarrow> (case r of Inl f \<Rightarrow> f = Terminate | Inr s \<Rightarrow> program_ok s)"

lemma program_side_step:
  assumes "program_side r" "program_step aborted r r'"
  shows "program_side r'"
  using assms(2)
proof cases
  case (runs s q)
  then have ok: "program_ok s" using assms(1) by (simp add: program_side_def)
  then have "same_calls (pool_of s) q" using running_step_same_calls runs(3) by (simp add: program_ok_def)
  with program_ok_inside [OF ok, of aborted q] runs show ?thesis by (auto simp: program_side_def intro: pool_step.running)
next
  case (completes i ec bs s q)
  then have ok: "program_ok s" using assms(1) by (simp add: program_side_def)
  with completes touches_same_calls [OF start_handler_touches] program_ok_inside [OF ok, of aborted q] show ?thesis
    by (auto simp: program_side_def intro: pool_step.start)
next
  case (exits s q)
  then have ok: "program_ok s" using assms(1) by (simp add: program_side_def)
  with exits thread_exit_same_calls program_ok_inside [OF ok, of aborted q] show ?thesis
    by (auto simp: program_side_def intro: pool_step.exit)
next
  case (calls s c cs address open_error q)
  with program_ok_calls assms(1) show ?thesis by (auto simp: program_side_def)
qed (simp add: program_side_def)

lemma program_ok_start: "program_ok main_start"
  using pool_ok_init [of 4]
  by (simp add: program_ok_def main_start_def known_def closing_def main_calls_def cancel_to_come_def uncancelled_def)
    (simp add: AsyncTCPClientMT_eq)

interpretation program: invariant_system "\<lambda>r. r = Inr main_start" "program_step aborted" program_side for aborted
  by unfold_locales (simp add: program_side_def program_ok_start, rule program_side_step)

section \<open>Every step is a step towards the end\<close>

fun stage_left :: "stage option \<Rightarrow> nat" where
  "stage_left (Some Connecting) = 13"
| "stage_left (Some Writing) = 9"
| "stage_left (Some Reading) = 5"
| "stage_left None = 0"

text \<open>A session at \<open>a\<close> with the operation \<open>fl\<close> in flight, all its later operations counted.\<close>

fun at_left :: "stage option \<Rightarrow> handler_at \<Rightarrow> nat" where
  "at_left fl Starting = 14"
| "at_left fl Waiting = stage_left fl"
| "at_left fl (Checking st) = (if st = Connecting then 12 else 8)"
| "at_left fl (Checked st) = (if st = Connecting then 11 else 7)"
| "at_left fl (Completing _) = 4"
| "at_left fl (Locking _) = 3"
| "at_left fl (Erasing _) = 2"
| "at_left fl (Calling _) = 1"
| "at_left fl Returned = 0"

definition request_left :: "pool_session \<Rightarrow> nat" where
  "request_left s = at_left (in_flight (shared s)) (at s) + of_bool (leaving s)"

fun call_left :: "user_at \<Rightarrow> nat" where
  "call_left (User_insert _) = 17"
| "call_left (User_inserting _) = 16"
| "call_left (User_connect _) = 1"
| "call_left (User_cancel _) = 4"
| "call_left (User_find _) = 3"
| "call_left (User_found _ _) = 2"
| "call_left (User_mark _ _) = 1"
| "call_left User_join = 1"
| "call_left _ = 0"

fun cost :: "user_call \<Rightarrow> nat" where
  "cost (Call_request _ _) = 18"
| "cost (Call_cancel _) = 5"
| "cost Call_close = 2"

definition pool_left :: "pool \<Rightarrow> nat" where
  "pool_left p = sum_list (map request_left (mt_sessions p)) + call_left (user_at p) + (m_threads p - exited_threads p)"

definition program_left :: "fault + program \<Rightarrow> nat" where
  "program_left r = (case r of Inl f \<Rightarrow> 0 | Inr s \<Rightarrow> 1 + pool_left (pool_of s) + sum_list (map cost (calls_left s)))"

lemma pool_left_less:
  assumes "mt_sessions q = (mt_sessions p)[i := s]" "i < length (mt_sessions p)"
    and "m_threads q = m_threads p" "exited_threads q = exited_threads p"
    and "request_left s + call_left (user_at q) < request_left (mt_sessions p ! i) + call_left (user_at p)"
  shows "pool_left q < pool_left p"
  using sum_list_replace [OF assms(2), of request_left s] assms(1,3-5) by (simp add: pool_left_def)

lemma handler_step_less: "handler_step aborted i p = Some q \<Longrightarrow> pool_left q < pool_left p"
proof -
  assume st: "handler_step aborted i p = Some q"
  then have i: "i < length (mt_sessions p)" by (simp add: handler_step_def Let_def split: if_splits)
  have "stage_left (Some (next_stage st)) = (if st = Connecting then 9 else 5)" for st by (cases st) simp_all
  then show ?thesis
    using st i
    by (cases "at (mt_sessions p ! i)")
      (auto simp: handler_step_def Let_def request_left_def split: if_splits option.splits
        intro!: pool_left_less [OF _ i])
qed

lemma leave_step_less: "leave_step i p = Some q \<Longrightarrow> pool_left q < pool_left p"
  by (auto simp: leave_step_def request_left_def split: if_splits intro!: pool_left_less [of _ _ i])

lemma start_handler_less:
  assumes "start_handler i ec bs p = Some q"
  shows "pool_left q < pool_left p"
proof -
  obtain st s a where h: "i < length (mt_sessions p)" "at (mt_sessions p ! i) = Waiting"
    "in_flight (shared (mt_sessions p ! i)) = Some st"
    "begin_handler ec bs st (shared (mt_sessions p ! i)) = (s, a)"
    "q = put i ((mt_sessions p ! i)\<lparr>shared := s, at := a\<rparr>) (p\<lparr>idle_threads := idle_threads p - 1\<rparr>)"
    using assms by (auto simp: start_handler_def split: if_splits option.splits prod.splits)
  have "at_left None a < stage_left (Some st)"
    using begin_handler_cases [OF h(4)] by (cases st) auto
  then show ?thesis using h begin_handler_cases [OF h(4)]
    by (intro pool_left_less [OF _ h(1), of _ "(mt_sessions p ! i)\<lparr>shared := s, at := a\<rparr>"])
      (simp_all add: request_left_def)
qed

lemma user_step_less:
  assumes ok: "pool_ok p" and st: "user_step p = Some q"
  shows "pool_left q < pool_left p"
proof (cases "user_at p")
  case (User_inserting s)
  then have "in_flight s = None" using pool_okD(4) [OF ok] by (auto simp: fresh_session_def new_session_def)
  with User_inserting st show ?thesis by (auto simp: user_step_def pool_left_def request_left_def)
next
  case (User_connect i)
  then have i: "i < length (mt_sessions p)" using pool_okD(4) [OF ok] by simp
  then have "at (mt_sessions p ! i) = Starting" using pool_okD(1) [OF ok i] User_connect by (simp add: session_ok_def)
  with User_connect st i show ?thesis
    by (auto simp: user_step_def request_left_def intro!: pool_left_less [OF _ i])
next
  case (User_found rid i)
  then have i: "i < length (mt_sessions p)" using pool_okD(4,5) [OF ok] by simp
  with User_found st show ?thesis
    by (auto simp: user_step_def request_left_def split: if_splits intro!: pool_left_less [OF _ i])
next
  case (User_mark rid i)
  then have i: "i < length (mt_sessions p)" using pool_okD(4,5) [OF ok] by simp
  with User_mark st show ?thesis
    by (auto simp: user_step_def request_left_def intro!: pool_left_less [OF _ i])
qed (use st in \<open>auto simp: user_step_def pool_left_def split: if_splits option.splits\<close>)

lemma thread_exit_less: "pool_ok p \<Longrightarrow> thread_exit p = Some q \<Longrightarrow> pool_left q < pool_left p"
  using pool_okD(3) [of p] by (auto simp: thread_exit_def pool_left_def split: if_splits)

lemma make_call_left:
  assumes "make_call address open_error c p = Inr q" "user_at p = User_idle"
  shows "pool_left q < pool_left p + cost c"
  using assms
  by (cases c)
    (auto simp: begin_request_def begin_cancel_def begin_close_def pool_left_def rbind_Inr_iff Let_def split: option.splits)

lemma program_decreases:
  assumes "program_side r" "program_step aborted r r'"
  shows "program_left r' < program_left r"
  using assms(2)
proof cases
  case (runs s q)
  then have "pool_ok (pool_of s)" using assms(1) by (simp add: program_side_def program_ok_def)
  from runs(3) this have "pool_left q < pool_left (pool_of s)"
    by (auto elim!: running_step.cases intro: handler_step_less leave_step_less user_step_less)
  with runs show ?thesis by (simp add: program_left_def)
next
  case (completes i ec bs s q)
  with start_handler_less show ?thesis by (simp add: program_left_def)
next
  case (exits s q)
  then have "pool_ok (pool_of s)" using assms(1) by (simp add: program_side_def program_ok_def)
  with thread_exit_less exits show ?thesis by (simp add: program_left_def)
next
  case (calls s c cs address open_error q)
  with make_call_left show ?thesis by (fastforce simp: program_left_def)
qed (simp add: program_left_def)

interpretation program_ends: terminating_system "program_step aborted" program_side program_left for aborted
  by unfold_locales (auto intro: program_side_step program_decreases)

section \<open>Something can happen until the end\<close>

lemma not_deadlocked: "program_ok s \<Longrightarrow> \<not> deadlocked (pool_of s)"
proof
  assume ok: "program_ok s" and dead: "deadlocked (pool_of s)"
  then obtain rid i where u: "user_at (pool_of s) = User_found rid i" "m_was_canceled (shared (mt_sessions (pool_of s) ! i))"
    by (auto simp: deadlocked_def)
  then have "uncancelled (pool_of s)" using ok by (simp add: program_ok_def)
  moreover have "i < length (mt_sessions (pool_of s))"
    using pool_okD(4,5) [of "pool_of s"] ok u(1) by (simp add: program_ok_def)
  ultimately show False using u(2) by (simp add: uncancelled_def list_all_length)
qed

lemma quiet_threads:
  assumes ok: "pool_ok p" and quiet: "quiet p"
  shows "idle_threads p + exited_threads p = m_threads p"
proof -
  have "list_all (\<lambda>s. busy s = 0) (mt_sessions p)"
    using quiet by (auto simp: quiet_def list_all_iff busy_def)
  then have "sum_list (map busy (mt_sessions p)) = 0" by (simp add: sum_list_eq_0_iff list_all_iff)
  then show ?thesis using pool_okD(3) [OF ok] by linarith
qed

text \<open>A pool that is being closed and has nothing to do of its own ends a thread or an operation.\<close>

lemma closing_pool_goes_on:
  assumes ok: "pool_ok p" and quiet: "quiet p" and u: "user_at p = User_join" and n: "0 < m_threads p"
    and user: "user_step p = None"
  shows "(\<exists>q. thread_exit p = Some q) \<or> (\<exists>i ec bs q. start_handler i ec bs p = Some q)"
proof -
  note th = quiet_threads [OF ok quiet]
  have ex: "exited_threads p \<noteq> m_threads p" using user u by (simp add: user_step_def split: if_splits)
  have work: "\<not> mt_work p" using ok u by (simp add: pool_ok_def)
  show ?thesis
  proof (cases "list_all (\<lambda>s. at s = Returned \<and> \<not> leaving s) (mt_sessions p)")
    case True
    then show ?thesis using th ex work by (simp add: thread_exit_def)
  next
    case False
    then obtain i where i: "i < length (mt_sessions p)" "at (mt_sessions p ! i) \<noteq> Returned \<or> leaving (mt_sessions p ! i)"
      by (auto simp: list_all_length)
    then have "exited_threads p = 0" using ok by (auto simp: pool_ok_def)
    then have idle: "0 < idle_threads p" using th n by simp
    have "\<not> leaving (mt_sessions p ! i)" "\<not> runs_handler (at (mt_sessions p ! i))"
      using quiet i(1) by (simp_all add: quiet_def list_all_length)
    moreover have so: "session_ok p i (mt_sessions p ! i)" by (rule pool_okD(1) [OF ok i(1)])
    ultimately have at: "at (mt_sessions p ! i) = Waiting" using i(2) u by (auto simp: runs_handler_def session_ok_def)
    then obtain st where "in_flight (shared (mt_sessions p ! i)) = Some st" using so by (auto simp: session_ok_def)
    then have "\<exists>q. start_handler i \<lparr>ec_value = 1, ec_category = 0\<rparr> [] p = Some q"
      using i(1) at idle by (simp add: start_handler_def split: prod.split)
    then show ?thesis by blast
  qed
qed

lemma program_goes_on:
  assumes ok: "program_ok s" and u: "user_at (pool_of s) \<noteq> User_closed"
  shows "\<exists>r. program_step aborted (Inr s) r"
proof (cases "\<exists>q. running_step aborted (pool_of s) q")
  case True
  then show ?thesis by (blast intro: program_step.runs)
next
  case False
  have p: "pool_ok (pool_of s)" "m_threads (pool_of s) = 4" using ok by (simp_all add: program_ok_def)
  have quiet: "quiet (pool_of s)" using blocked_cases [OF p(1), of aborted] False not_deadlocked [OF ok] by blast
  show ?thesis
  proof (cases "user_at (pool_of s) = User_idle")
    case True
    then have "calls_left s \<noteq> []" using ok by (simp add: program_ok_def closing_def)
    then obtain c cs where c: "calls_left s = c # cs" by (cases "calls_left s") auto
    have "\<exists>q. make_call (Inr 0) None c (pool_of s) = Inr q" by (cases c) (simp_all add: begin_request_def Let_def)
    then show ?thesis using program_step.calls [OF True c] by blast
  next
    case busy: False
    then have j: "user_at (pool_of s) = User_join" using quiet u by (auto simp: quiet_def)
    have "user_step (pool_of s) = None" using False by (metis not_None_eq running_step.user)
    from closing_pool_goes_on [OF p(1) quiet j _ this] p(2) show ?thesis
      by (auto intro: program_step.completes program_step.exits)
  qed
qed

lemma program_reports:
  assumes ok: "program_ok s" and u: "user_at (pool_of s) = User_closed"
  shows "mset (map fst (callbacks (pool_of s))) = {#0, 1, 2#}"
proof -
  let ?p = "pool_of s"
  have p: "pool_ok ?p" "m_threads ?p = 4" using ok by (simp_all add: program_ok_def)
  then have ex: "0 < exited_threads ?p" using pool_okD(4) [OF p(1)] u by simp
  have "calls_left s = []" using ok u by (simp add: program_ok_def closing_def)
  then have n: "length (mt_sessions ?p) = 3" using ok u by (simp add: program_ok_def known_def)
  have "mset (map fst (callbacks ?p)) = mset [0..<3]"
  proof (rule each_once)
    fix i :: nat
    assume "i < 3"
    then have i: "i < length (mt_sessions ?p)" using n by simp
    then have "at (mt_sessions ?p ! i) = Returned" using p(1) ex by (simp add: pool_ok_def)
    then show "length (filter (\<lambda>x. fst x = i) (callbacks ?p)) = 1"
      using pool_okD(1) [OF p(1) i] by (simp add: session_ok_def)
  next
    show "x \<in> set (callbacks ?p) \<Longrightarrow> fst x < 3" for x using p(1) n by (auto simp: pool_ok_def)
  qed
  then show ?thesis by (simp add: upt_rec)
qed

section \<open>Properties\<close>

text \<open>
  C20: The program of the client with a pool of threads ends: no run has more than sixty-six steps,
  whatever completes and in whatever order the threads go on; a run that has not come to the end of
  \<open>main\<close> can go on, unless an exception ended the process; and at the end each of the three requests
  has been called back exactly once.
\<close>

theorem pool_program_ends:
  assumes "(program_step aborted ^^ n) (Inr main_start) r"
  shows "n \<le> 66 \<and> (case r of
      Inl f \<Rightarrow> f = Terminate
    | Inr s \<Rightarrow> if user_at (pool_of s) = User_closed then mset (map fst (callbacks (pool_of s))) = {#0, 1, 2#}
        else (\<exists>r'. program_step aborted (Inr s) r'))"
proof -
  have "program_side (Inr main_start)" by (simp add: program_side_def program_ok_start)
  from program_ends.steps_bounded [OF assms this]
  have side: "program_side r" and n: "n + program_left r \<le> program_left (Inr main_start)" by blast+
  have "program_left (Inr main_start) = 66"
    by (simp add: program_left_def pool_left_def main_start_def main_calls_def AsyncTCPClientMT_eq)
  with n side show ?thesis
    using program_goes_on program_reports by (auto simp: program_side_def split: sum.splits)
qed

text \<open>
  A whole run: the first request is cancelled, the second goes the whole way and its answer is
  printed, the third cannot connect.
\<close>

fun inside :: "move \<Rightarrow> bool" where
  "inside (Request _) = False"
| "inside (Cancel _) = False"
| "inside Shut = False"
| "inside _ = True"

fun perform :: "move option \<Rightarrow> program \<Rightarrow> program option" where
  "perform (Some m) s =
     (if inside m then map_option (\<lambda>q. s\<lparr>pool_of := q\<rparr>) (play m (pool_of s)) else None)"
| "perform None s =
     (case calls_left s of
        [] \<Rightarrow> None
      | c # cs \<Rightarrow>
          if user_at (pool_of s) = User_idle
          then (case make_call (Inr 0) None c (pool_of s) of
                  Inl _ \<Rightarrow> None
                | Inr q \<Rightarrow> Some \<lparr>pool_of = q, calls_left = cs\<rparr>)
          else None)"

fun performs :: "move option list \<Rightarrow> program \<Rightarrow> program option" where
  "performs [] s = Some s"
| "performs (m # ms) s = (case perform m s of None \<Rightarrow> None | Some t \<Rightarrow> performs ms t)"

lemma perform_step: "perform m s = Some t \<Longrightarrow> program_step operation_aborted (Inr s) (Inr t)"
proof (cases m)
  case None
  then show "perform m s = Some t \<Longrightarrow> ?thesis"
    by (auto intro: program_step.calls split: list.splits if_splits sum.splits)
next
  case (Some a)
  then show "perform m s = Some t \<Longrightarrow> ?thesis"
    by (cases a) (auto intro: program_step.runs program_step.completes program_step.exits running_step.intros)
qed

lemma performs_run:
  "performs ms s = Some t \<Longrightarrow> (program_step operation_aborted ^^ length ms) (Inr s) (Inr t)"
proof (induction ms arbitrary: s)
  case (Cons m ms)
  then obtain u where "perform m s = Some u" "performs ms u = Some t" by (auto split: option.splits)
  then have "(program_step operation_aborted ^^ Suc (length ms)) (Inr s) (Inr t)"
    using perform_step Cons.IH relpowp_Suc_I2 by metis
  then show ?case by simp
qed simp

definition whole_run :: "move option list" where
  "whole_run =
     [None, Some User, Some User, Some User, None, Some User, Some User, Some User,
      None, Some User, Some User, Some User, Some User, None, Some User, Some User, Some User,
      Some (Start 1 no_error []), Some (Start 0 operation_aborted []),
      Some (Handler 1), Some (Handler 1), Some (Leave 1),
      Some (Start 2 \<lparr>ec_value = 111, ec_category = 0\<rparr> []),
      Some (Start 1 no_error []), Some (Handler 1), Some (Handler 1), Some (Leave 1), None,
      Some (Handler 0), Some (Handler 2), Some (Start 1 no_error (''OK'' @ [newline])),
      Some (Handler 0), Some (Handler 0), Some (Handler 0), Some (Handler 2), Some (Handler 2), Some (Handler 2),
      Some (Handler 1), Some (Handler 1), Some (Handler 1), Some (Handler 1),
      Some Exit, Some Exit, Some Exit, Some Exit, Some User]"

definition whole_end :: program where
  "whole_end = the (performs whole_run main_start)"

lemma whole_run_ends:
  "performs whole_run main_start = Some whole_end" "user_at (pool_of whole_end) = User_closed"
  "map (\<lambda>(i, rid, response, ec). (i, rid, response)) (callbacks (pool_of whole_end)) =
     [(0, 1, []), (2, 3, []), (1, 2, ''OK'')]"
  by (simp_all add: whole_end_def whole_run_def main_start_def main_calls_def play_simps operation_aborted_def
      getline_def newline_def)

theorem pool_program_ends_witness:
  "length whole_run \<le> 66 \<and> mset (map fst (callbacks (pool_of whole_end))) = {#0, 1, 2#}"
  using pool_program_ends [OF performs_run [OF whole_run_ends(1)]] by (simp add: whole_run_ends(2))

end
