(* ===== verification/Request_System.thy ===== *)
theory Request_System
  imports Async_Tcp_Client Async_Server
begin

text \<open>
  The asynchronous client of \<open>ch3_client\<close> and the asynchronous server of \<open>ch4_server\<close> over TCP: each
  session of the client, all of which ask this server, gets a line of its own, bytes travel one at a
  time in either direction, and handlers of both programs run in any order. Shown: together they implement remote calls that are
  executed at most once, and as long as nothing fails and nothing is cancelled every request is
  answered with the response of the server.
\<close>

section \<open>The system\<close>

text \<open>
  A line: the session that connected, the service that was made for it, what the session has written
  and not been heard yet, what \<open>async_read_until\<close> has in the buffer of the service, and the same for
  the way back.
\<close>

record tcp_line =
  caller :: nat
  callee :: "nat option"
  pushed :: nat
  on_way :: string
  heard :: string
  replied :: nat
  on_return :: string
  gathered :: string

definition new_line :: "nat \<Rightarrow> tcp_line" where
  "new_line i = \<lparr>caller = i, callee = None, pushed = 0, on_way = [], heard = [],
     replied = 0, on_return = [], gathered = []\<rparr>"

record call_system =
  caller_side :: async_client
  server_side :: async_server
  lines :: "tcp_line list"

definition session_at :: "call_system \<Rightarrow> tcp_line \<Rightarrow> session" where
  "session_at s l = sessions (caller_side s) ! caller l"

definition service_at :: "call_system \<Rightarrow> nat \<Rightarrow> service" where
  "service_at s k = services (server_side s) ! k"

definition put_line :: "nat \<Rightarrow> tcp_line \<Rightarrow> call_system \<Rightarrow> call_system" where
  "put_line j l s = s\<lparr>lines := (lines s)[j := l]\<rparr>"

text \<open>
  The steps in which nothing fails. A connection is established as soon as the acceptor listens, and
  accepted in the order of arrival. A write or read of asio succeeds when the whole buffer is on the
  line, or a newline has arrived.
\<close>

inductive smooth_step :: "error_code \<Rightarrow> call_system \<Rightarrow> call_system \<Rightarrow> bool" for aborted where
  connects: "m_thread (caller_side s) \<Longrightarrow> i < length (sessions (caller_side s)) \<Longrightarrow>
    in_flight (sessions (caller_side s) ! i) = Some Connecting \<Longrightarrow> acceptor_open (server_side s) \<Longrightarrow>
    smooth_step aborted s (s\<lparr>caller_side := io_event aborted i no_error [] (caller_side s),
      lines := lines s @ [new_line i]\<rparr>)"
| sends: "j < length (lines s) \<Longrightarrow> lines s ! j = l \<Longrightarrow> in_flight (session_at s l) = Some Writing \<Longrightarrow>
    pushed l < length (m_request (session_at s l)) \<Longrightarrow>
    smooth_step aborted s (put_line j (l\<lparr>pushed := Suc (pushed l),
      on_way := on_way l @ [m_request (session_at s l) ! pushed l]\<rparr>) s)"
| wrote: "m_thread (caller_side s) \<Longrightarrow> j < length (lines s) \<Longrightarrow> lines s ! j = l \<Longrightarrow>
    in_flight (session_at s l) = Some Writing \<Longrightarrow> pushed l = length (m_request (session_at s l)) \<Longrightarrow>
    smooth_step aborted s (s\<lparr>caller_side := io_event aborted (caller l) no_error [] (caller_side s)\<rparr>)"
| accepts: "ioc_runs (server_side s) \<Longrightarrow> 0 < accepting_ops (server_side s) \<Longrightarrow> j < length (lines s) \<Longrightarrow>
    callee (lines s ! j) = None \<Longrightarrow> list_all (\<lambda>l. callee l \<noteq> None) (take j (lines s)) \<Longrightarrow>
    smooth_step aborted s
      (put_line j ((lines s ! j)\<lparr>callee := Some (length (services (server_side s)))\<rparr>)
        (s\<lparr>server_side := OnAccept no_error
          ((server_side s)\<lparr>accepting_ops := accepting_ops (server_side s) - 1\<rparr>)\<rparr>))"
| hears: "j < length (lines s) \<Longrightarrow> lines s ! j = l \<Longrightarrow> callee l = Some k \<Longrightarrow>
    Read_request \<in> set (svc_ops (service_at s k)) \<Longrightarrow> on_way l = b # bs \<Longrightarrow>
    smooth_step aborted s (put_line j (l\<lparr>heard := heard l @ [b], on_way := bs\<rparr>) s)"
| received: "ioc_runs (server_side s) \<Longrightarrow> j < length (lines s) \<Longrightarrow> lines s ! j = l \<Longrightarrow> callee l = Some k \<Longrightarrow>
    Read_request \<in> set (svc_ops (service_at s k)) \<Longrightarrow> newline \<in> set (heard l) \<Longrightarrow>
    svc_event k Read_request no_error (heard l) (server_side s) = Inr (Some r) \<Longrightarrow>
    smooth_step aborted s (s\<lparr>server_side := r\<rparr>)"
| replies: "j < length (lines s) \<Longrightarrow> lines s ! j = l \<Longrightarrow> callee l = Some k \<Longrightarrow>
    Write_response w \<in> set (svc_ops (service_at s k)) \<Longrightarrow> replied l < length w \<Longrightarrow>
    smooth_step aborted s (put_line j (l\<lparr>replied := Suc (replied l), on_return := on_return l @ [w ! replied l]\<rparr>) s)"
| responded: "ioc_runs (server_side s) \<Longrightarrow> j < length (lines s) \<Longrightarrow> lines s ! j = l \<Longrightarrow> callee l = Some k \<Longrightarrow>
    Write_response w \<in> set (svc_ops (service_at s k)) \<Longrightarrow> replied l = length w \<Longrightarrow>
    svc_event k (Write_response w) no_error [] (server_side s) = Inr (Some r) \<Longrightarrow>
    smooth_step aborted s (s\<lparr>server_side := r\<rparr>)"
| gathers: "j < length (lines s) \<Longrightarrow> lines s ! j = l \<Longrightarrow> in_flight (session_at s l) = Some Reading \<Longrightarrow>
    on_return l = b # bs \<Longrightarrow>
    smooth_step aborted s (put_line j (l\<lparr>gathered := gathered l @ [b], on_return := bs\<rparr>) s)"
| reads: "m_thread (caller_side s) \<Longrightarrow> j < length (lines s) \<Longrightarrow> lines s ! j = l \<Longrightarrow>
    in_flight (session_at s l) = Some Reading \<Longrightarrow> newline \<in> set (gathered l) \<Longrightarrow>
    smooth_step aborted s (s\<lparr>caller_side := io_event aborted (caller l) no_error (gathered l) (caller_side s)\<rparr>)"

text \<open>
  All steps: those, the calls of the user, failures of either side at any time, what the server does
  for other clients, and \<open>Stop\<close>.
\<close>

inductive call_step :: "error_code \<Rightarrow> call_system \<Rightarrow> call_system \<Rightarrow> bool" for aborted where
  smooth: "smooth_step aborted s t \<Longrightarrow> call_step aborted s t"
| request: "EmulateLongComputationOp d address open_error rid (caller_side s) = Inr c \<Longrightarrow>
    call_step aborted s (s\<lparr>caller_side := c\<rparr>)"
| cancel: "call_step aborted s (s\<lparr>caller_side := CancelRequest rid (caller_side s)\<rparr>)"
| close: "Close (caller_side s) = Some c \<Longrightarrow> call_step aborted s (s\<lparr>caller_side := c\<rparr>)"
| client_fails: "event_enabled i ec bs (caller_side s) \<Longrightarrow> failed ec \<Longrightarrow>
    call_step aborted s (s\<lparr>caller_side := io_event aborted i ec bs (caller_side s)\<rparr>)"
| service_fails: "ioc_runs (server_side s) \<Longrightarrow> k < length (services (server_side s)) \<Longrightarrow>
    p \<in> set (svc_ops (service_at s k)) \<Longrightarrow> failed ec \<Longrightarrow>
    svc_event k p ec bs (server_side s) = Inr (Some r) \<Longrightarrow> call_step aborted s (s\<lparr>server_side := r\<rparr>)"
| other_client: "ioc_runs (server_side s) \<Longrightarrow> k < length (services (server_side s)) \<Longrightarrow>
    list_all (\<lambda>l. callee l \<noteq> Some k) (lines s) \<Longrightarrow> p \<in> set (svc_ops (service_at s k)) \<Longrightarrow>
    svc_event k p ec bs (server_side s) = Inr (Some r) \<Longrightarrow> call_step aborted s (s\<lparr>server_side := r\<rparr>)"
| other_accept: "ioc_runs (server_side s) \<Longrightarrow> 0 < accepting_ops (server_side s) \<Longrightarrow>
    call_step aborted s (s\<lparr>server_side := OnAccept ec
      ((server_side s)\<lparr>accepting_ops := accepting_ops (server_side s) - 1\<rparr>)\<rparr>)"
| stop_acceptor: "call_step aborted s (s\<lparr>server_side := StopAcceptor (server_side s)\<rparr>)"
| stop_context: "call_step aborted s (s\<lparr>server_side := StopContext (server_side s)\<rparr>)"

definition calls_start :: "call_system \<Rightarrow> bool" where
  "calls_start s \<longleftrightarrow> (\<exists>n. StartServer n new_async_server = Inr (server_side s)) \<and>
     caller_side s = AsyncTCPClient \<and> lines s = []"

section \<open>The specification\<close>

text \<open>
  A remote call: how often the server has executed it, and everything the caller was told, one entry
  for each callback. It is executed at most once, the caller is told once, and a success only after
  the execution.
\<close>

record remote_call =
  executed :: nat
  reported :: "(error_code + string) list"

inductive remote_step :: "remote_call list \<Rightarrow> remote_call list \<Rightarrow> bool" where
  issues: "remote_step cs (cs @ [\<lparr>executed = 0, reported = []\<rparr>])"
| executes: "i < length cs \<Longrightarrow> executed (cs ! i) = 0 \<Longrightarrow>
    remote_step cs (cs[i := (cs ! i)\<lparr>executed := 1\<rparr>])"
| answers: "i < length cs \<Longrightarrow> executed (cs ! i) = 1 \<Longrightarrow> reported (cs ! i) = [] \<Longrightarrow>
    remote_step cs (cs[i := (cs ! i)\<lparr>reported := [Inr ''Response'']\<rparr>])"
| fails: "i < length cs \<Longrightarrow> reported (cs ! i) = [] \<Longrightarrow> failed ec \<Longrightarrow>
    remote_step cs (cs[i := (cs ! i)\<lparr>reported := [Inl ec]\<rparr>])"

text \<open>
  What is observed of the system: the calls of \<open>ProcessRequest\<close> by the services on the lines of a
  session, and the arguments of all calls of its callback.
\<close>

definition runs_for :: "async_server \<Rightarrow> tcp_line \<Rightarrow> nat" where
  "runs_for r l = (case callee l of None \<Rightarrow> 0 | Some k \<Rightarrow> processed (services r ! k))"

definition executions :: "call_system \<Rightarrow> nat \<Rightarrow> nat" where
  "executions s i = sum_list (map (runs_for (server_side s)) (filter (\<lambda>l. caller l = i) (lines s)))"

definition reports_to :: "async_client \<Rightarrow> nat \<Rightarrow> (error_code + string) list" where
  "reports_to c i = map (\<lambda>(j, rid, response, ec). if failed ec then Inl ec else Inr response) (calls_of i c)"

definition remote_calls :: "call_system \<Rightarrow> remote_call list" where
  "remote_calls s = map (\<lambda>i. \<lparr>executed = executions s i, reported = reports_to (caller_side s) i\<rparr>)
     [0..<length (sessions (caller_side s))]"

text \<open>
  The invariants below are stated with these: whether a line was served, whether a request was
  executed, and its first report; they will determine the counts (\<open>remote_calls_view\<close>).
\<close>

definition served_by :: "async_server \<Rightarrow> tcp_line \<Rightarrow> bool" where
  "served_by r l \<longleftrightarrow> (case callee l of None \<Rightarrow> False | Some k \<Rightarrow> svc_response (services r ! k) \<noteq> [])"

definition executed_for :: "call_system \<Rightarrow> nat \<Rightarrow> bool" where
  "executed_for s i \<longleftrightarrow> list_ex (\<lambda>l. caller l = i \<and> served_by (server_side s) l) (lines s)"

definition reported_to :: "async_client \<Rightarrow> nat \<Rightarrow> (error_code + string) option" where
  "reported_to c i = (case calls_of i c of
     [] \<Rightarrow> None
   | (j, rid, response, ec) # _ \<Rightarrow> Some (if failed ec then Inl ec else Inr response))"

definition told :: "(error_code + string) option \<Rightarrow> (error_code + string) list" where
  "told x = (case x of None \<Rightarrow> [] | Some y \<Rightarrow> [y])"

lemma told_simps [simp]: "told None = []" "told (Some y) = [y]"
  by (simp_all add: told_def)

definition call_view :: "call_system \<Rightarrow> remote_call list" where
  "call_view s = map (\<lambda>i. \<lparr>executed = (if executed_for s i then 1 else 0), reported = told (reported_to (caller_side s) i)\<rparr>)
     [0..<length (sessions (caller_side s))]"

section \<open>What a completion does to the client\<close>

fun following :: "stage \<Rightarrow> stage" where
  "following Connecting = Writing"
| "following _ = Reading"

text \<open>The session goes on, or its request is over; only a read reports success.\<close>

definition over :: "error_code \<Rightarrow> nat \<Rightarrow> session \<Rightarrow> async_client \<Rightarrow> async_client \<Rightarrow> bool" where
  "over aborted i v c c' \<longleftrightarrow> completed aborted i v c c' \<and> m_request v = m_request (sessions c ! i)"

lemma go_on_moves:
  assumes i: "i < length (sessions c)" and a: "failed aborted"
  defines "d \<equiv> set_session i ((sessions c ! i)\<lparr>in_flight := None\<rparr>) c"
  shows "if \<not> failed ec \<and> \<not> m_was_canceled (sessions c ! i)
    then go_on aborted st i ec d = set_session i ((sessions c ! i)\<lparr>in_flight := Some st\<rparr>) c
    else (\<exists>v. over aborted i v c (go_on aborted st i ec d) \<and> failed (outcome aborted v))"
proof -
  let ?s = "(sessions c ! i)\<lparr>in_flight := None\<rparr>"
  consider "failed ec" | "\<not> failed ec" "m_was_canceled ?s" | "\<not> failed ec" "\<not> m_was_canceled ?s" by blast
  then show ?thesis
  proof cases
    case 1
    then have "go_on aborted st i ec d = OnRequestComplete aborted i (set_session i (?s\<lparr>m_ec := ec\<rparr>) c)"
      using i by (simp add: go_on_def d_def failed_def Let_def)
    with 1 OnRequestComplete_completed [of i c "?s\<lparr>m_ec := ec\<rparr>" aborted] i show ?thesis
      by (auto simp: over_def outcome_def intro!: exI [of _ "?s\<lparr>m_ec := ec, shut_down := True\<rparr>"])
  next
    case 2
    then have "go_on aborted st i ec d = OnRequestComplete aborted i (set_session i ?s c)"
      using i by (simp add: go_on_def d_def failed_def Let_def)
    with 2 OnRequestComplete_completed [of i c ?s aborted] i a show ?thesis
      by (auto simp: over_def outcome_def intro!: exI [of _ "?s\<lparr>shut_down := True\<rparr>"])
  next
    case 3
    with i show ?thesis by (auto simp: go_on_def d_def failed_def Let_def)
  qed
qed

lemma on_read_moves:
  assumes i: "i < length (sessions c)"
  defines "d \<equiv> set_session i ((sessions c ! i)\<lparr>in_flight := None\<rparr>) c"
  shows "\<exists>v. over aborted i v c (on_read aborted i ec bs d) \<and> (if failed ec then failed (outcome aborted v)
    else m_response v = fst (getline (m_response_buf (sessions c ! i) @ bs)) \<and> m_ec v = m_ec (sessions c ! i))"
proof -
  let ?s = "(sessions c ! i)\<lparr>in_flight := None, m_response_buf := m_response_buf (sessions c ! i) @ bs\<rparr>"
  obtain line rest where g: "getline (m_response_buf ?s) = (line, rest)" by force
  show ?thesis
  proof (cases "failed ec")
    case True
    with i have "on_read aborted i ec bs d = OnRequestComplete aborted i (set_session i (?s\<lparr>m_ec := ec\<rparr>) c)"
      by (simp add: on_read_def d_def failed_def Let_def)
    with True OnRequestComplete_completed [of i c "?s\<lparr>m_ec := ec\<rparr>" aborted] i show ?thesis
      by (auto simp: over_def outcome_def intro!: exI [of _ "?s\<lparr>m_ec := ec, shut_down := True\<rparr>"])
  next
    case False
    with g i have "on_read aborted i ec bs d =
        OnRequestComplete aborted i (set_session i (?s\<lparr>m_response_buf := rest, m_response := line\<rparr>) c)"
      by (simp add: on_read_def d_def failed_def Let_def)
    with False g OnRequestComplete_completed [of i c "?s\<lparr>m_response_buf := rest, m_response := line\<rparr>" aborted] i
    show ?thesis
      by (auto simp: over_def intro!: exI [of _ "?s\<lparr>m_response_buf := rest, m_response := line, shut_down := True\<rparr>"])
  qed
qed

lemma io_event_moves:
  assumes "i < length (sessions c)" "in_flight (sessions c ! i) = Some st" "failed aborted"
  obtains (goes) "st \<noteq> Reading" "\<not> failed ec" "\<not> m_was_canceled (sessions c ! i)"
      "io_event aborted i ec bs c = set_session i ((sessions c ! i)\<lparr>in_flight := Some (following st)\<rparr>) c"
  | (fails) v where "over aborted i v c (io_event aborted i ec bs c)" "failed (outcome aborted v)"
      "failed ec \<or> m_was_canceled (sessions c ! i)"
  | (answered) v where "over aborted i v c (io_event aborted i ec bs c)" "\<not> failed ec" "st = Reading"
      "m_response v = fst (getline (m_response_buf (sessions c ! i) @ bs))" "m_ec v = m_ec (sessions c ! i)"
proof (cases st)
  case Reading
  then show thesis
    using on_read_moves [OF assms(1), of aborted ec bs] assms(2) fails answered
    by (auto simp: io_event_def Let_def split: if_splits)
next
  case Connecting
  then show thesis
    using go_on_moves [OF assms(1,3), of ec Writing] assms(2) goes fails
    by (auto simp: io_event_def on_connect_def Let_def split: if_splits)
next
  case Writing
  then show thesis
    using go_on_moves [OF assms(1,3), of ec Reading] assms(2) goes fails
    by (auto simp: io_event_def on_write_def Let_def split: if_splits)
qed

section \<open>What a completion does to the server\<close>

lemma response_text_nonempty [simp]: "response_text \<noteq> []" "[] \<noteq> response_text"
  by (simp_all add: response_text_def)

text \<open>The services that have computed a response keep it.\<close>

definition response_ok :: "service \<Rightarrow> bool" where
  "response_ok w \<longleftrightarrow> (if svc_deleted w then True
     else svc_ops w = [if svc_response w = [] then Read_request else Write_response response_text]) \<and>
     (svc_response w = [] \<and> processed w = 0 \<or> svc_response w = response_text \<and> processed w = 1)"

lemma response_ok_start [simp]: "response_ok StartHandling"
  by (simp add: response_ok_def StartHandling_def)

lemma svc_event_moves:
  assumes ok: "service_ok (services r ! k)" "response_ok (services r ! k)"
    and p: "p \<in> set (svc_ops (services r ! k))" and e: "svc_event k p ec bs r = Inr (Some r')"
  obtains (computes) w where "p = Read_request" "\<not> failed ec" "svc_response (services r ! k) = []"
      "r' = r\<lparr>services := (services r)[k := w]\<rparr>" "\<not> svc_deleted w" "svc_response w = response_text"
      "service_ok w" "response_ok w"
  | (deletes) w where "r' = r\<lparr>services := (services r)[k := w]\<rparr>" "svc_deleted w"
      "svc_response w = svc_response (services r ! k)" "service_ok w" "response_ok w"
      "failed ec \<or> p = Write_response response_text \<and> svc_response (services r ! k) = response_text"
proof -
  have live: "\<not> svc_deleted (services r ! k)" and one: "svc_ops (services r ! k) = [p]"
    using ok p by (auto simp: service_ok_def split: if_splits)
  have none: "responses (services r ! k) = 0" using ok(1) live by (simp add: service_ok_def)
  show thesis
  proof (cases "p = Read_request \<and> \<not> failed ec")
    case True
    with live one none ok e show thesis
      by (intro computes [of "(services r ! k)\<lparr>svc_response := response_text, svc_ops := [Write_response response_text],
          processed := 1\<rparr>"])
        (auto simp: svc_event_def OnRequestReceived_def ProcessRequest_def busy_loop_returns failed_def
          response_ok_def service_ok_def Let_def split: if_splits)
  next
    case False
    define w where "w = (if failed ec then (services r ! k)\<lparr>svc_ops := [], svc_deleted := True\<rparr>
      else (services r ! k)\<lparr>svc_ops := [], responses := 1, svc_deleted := True\<rparr>)"
    from False live one none e have r: "r' = r\<lparr>services := (services r)[k := w]\<rparr>"
      by (cases p) (auto simp: w_def svc_event_def OnRequestReceived_def OnResponseSent_def OnFinish_def
          failed_def Let_def split: if_splits)
    show thesis
      by (rule deletes [OF r]) (use False live one ok in \<open>auto simp: w_def service_ok_def response_ok_def split: if_splits\<close>)
  qed
qed

section \<open>Invariant\<close>

definition session_ready :: "session \<Rightarrow> bool" where
  "session_ready v \<longleftrightarrow> (\<exists>d. m_request v = request_text d) \<and>
     (in_flight v \<noteq> None \<longrightarrow> m_response_buf v = [] \<and> \<not> failed (m_ec v))"

text \<open>The way out, and the way back.\<close>

definition out_ok :: "session \<Rightarrow> tcp_line \<Rightarrow> bool" where
  "out_ok v l \<longleftrightarrow> in_flight v \<noteq> Some Connecting \<and> pushed l \<le> length (m_request v) \<and>
     heard l @ on_way l = take (pushed l) (m_request v) \<and>
     (in_flight v = Some Reading \<longrightarrow> pushed l = length (m_request v))"

definition back_ok :: "service list \<Rightarrow> tcp_line \<Rightarrow> bool" where
  "back_ok ws l \<longleftrightarrow> replied l \<le> length response_text \<and> gathered l @ on_return l = take (replied l) response_text \<and>
     (case callee l of
        None \<Rightarrow> heard l = [] \<and> replied l = 0
      | Some k \<Rightarrow> k < length ws \<and> (if svc_response (ws ! k) = [] then replied l = 0 else newline \<in> set (heard l)))"

definition line_ok :: "call_system \<Rightarrow> tcp_line \<Rightarrow> bool" where
  "line_ok s l \<longleftrightarrow> caller l < length (sessions (caller_side s)) \<and> out_ok (session_at s l) l \<and>
     back_ok (services (server_side s)) l"

text \<open>Every session that is past its connect has a line, no two lines share a session or a service.\<close>

definition lines_ok :: "call_system \<Rightarrow> bool" where
  "lines_ok s \<longleftrightarrow> list_all (line_ok s) (lines s) \<and> distinct (map caller (lines s)) \<and>
     (\<forall>i < length (sessions (caller_side s)).
        in_flight (sessions (caller_side s) ! i) \<in> {Some Writing, Some Reading} \<longrightarrow> i \<in> caller ` set (lines s)) \<and>
     (\<forall>j < length (lines s). \<forall>j' < length (lines s). \<forall>k.
        callee (lines s ! j) = Some k \<longrightarrow> callee (lines s ! j') = Some k \<longrightarrow> j = j')"

definition services_ok :: "async_server \<Rightarrow> bool" where
  "services_ok r \<longleftrightarrow> async_server_ok (Inr (Some r)) \<and> list_all response_ok (services r)"

definition sessions_ok :: "async_client \<Rightarrow> bool" where
  "sessions_ok c \<longleftrightarrow> async_inv c \<and> list_all session_ready (sessions c)"

text \<open>What was reported as a success is the response to a request that was executed.\<close>

definition reports_ok :: "call_system \<Rightarrow> bool" where
  "reports_ok s \<longleftrightarrow> (\<forall>i < length (sessions (caller_side s)). \<forall>response.
     reported_to (caller_side s) i = Some (Inr response) \<longrightarrow> response = ''Response'' \<and> executed_for s i)"

definition system_ok :: "call_system \<Rightarrow> bool" where
  "system_ok s \<longleftrightarrow> sessions_ok (caller_side s) \<and> services_ok (server_side s) \<and> lines_ok s \<and> reports_ok s"

section \<open>What keeps the invariant\<close>

lemma put_line_simps [simp]:
  "caller_side (put_line j l s) = caller_side s" "server_side (put_line j l s) = server_side s"
  "lines (put_line j l s) = (lines s)[j := l]"
  by (simp_all add: put_line_def)

lemma line_ok_put [simp]: "line_ok (put_line j l s) = line_ok s"
  by (intro ext) (simp add: line_ok_def session_at_def)

lemma system_okD:
  assumes "system_ok s"
  shows "sessions_ok (caller_side s)" "services_ok (server_side s)" "lines_ok s" "reports_ok s"
  using assms by (simp_all add: system_ok_def)

lemma line_okD:
  assumes "system_ok s" "j < length (lines s)"
  shows "line_ok s (lines s ! j)"
  using assms by (simp add: system_ok_def lines_ok_def list_all_length)

lemma same_caller:
  assumes "system_ok s" "l \<in> set (lines s)" "l' \<in> set (lines s)"
  shows "caller l = caller l' \<longleftrightarrow> l = l'"
proof -
  have "inj_on caller (set (lines s))" using system_okD(3) [OF assms(1)] by (simp add: lines_ok_def distinct_map)
  then show ?thesis using assms(2,3) by (rule inj_on_eq_iff)
qed

text \<open>A byte moves on a line.\<close>

lemma executed_for_put:
  assumes "j < length (lines s)" "caller l = caller (lines s ! j)" "callee l = callee (lines s ! j)"
  shows "executed_for (put_line j l s) = executed_for s"
proof
  fix i
  have "(\<exists>n < length (lines s). caller ((lines s)[j := l] ! n) = i \<and> served_by (server_side s) ((lines s)[j := l] ! n)) \<longleftrightarrow>
      (\<exists>n < length (lines s). caller (lines s ! n) = i \<and> served_by (server_side s) (lines s ! n))"
    using assms by (intro ex_cong1 conj_cong) (simp_all add: nth_update_if served_by_def)
  then show "executed_for (put_line j l s) i = executed_for s i" by (simp add: executed_for_def list_ex_length)
qed

lemma byte_moves:
  assumes ok: "system_ok s" and j: "j < length (lines s)"
    and l: "caller l = caller (lines s ! j)" "callee l = callee (lines s ! j)" "line_ok s l"
  shows "system_ok (put_line j l s) \<and> call_view (put_line j l s) = call_view s"
proof -
  have ex: "executed_for (put_line j l s) = executed_for s" by (rule executed_for_put [OF j l(1,2)])
  have callers: "map caller ((lines s)[j := l]) = map caller (lines s)" using l(1) by (simp add: map_update_same)
  then have "caller ` set ((lines s)[j := l]) = caller ` set (lines s)" by (metis list.set_map)
  moreover have "callee ((lines s)[j := l] ! n) = callee (lines s ! n)" for n using l(2) by (simp add: nth_update_if)
  moreover have "list_all (line_ok s) ((lines s)[j := l])"
    using system_okD(3) [OF ok] l(3) by (simp add: lines_ok_def list_all_length nth_update_if)
  ultimately have "lines_ok (put_line j l s)" using system_okD(3) [OF ok] callers by (simp add: lines_ok_def)
  then show ?thesis using ok ex by (simp add: system_ok_def reports_ok_def call_view_def)
qed

text \<open>The server goes on.\<close>

lemma server_moves:
  assumes ok: "system_ok s" and r: "services_ok r"
    and kept: "list_all (back_ok (services r)) (lines s)"
    and served: "list_all (\<lambda>l. served_by (server_side s) l \<longrightarrow> served_by r l) (lines s)"
  shows "system_ok (s\<lparr>server_side := r\<rparr>)"
proof -
  have "lines_ok (s\<lparr>server_side := r\<rparr>)"
    using system_okD(3) [OF ok] kept by (auto simp: lines_ok_def line_ok_def session_at_def list_all_iff)
  moreover have "executed_for s i \<Longrightarrow> executed_for (s\<lparr>server_side := r\<rparr>) i" for i
    using served by (auto simp: executed_for_def list_ex_iff list_all_iff)
  ultimately show ?thesis using ok r by (auto simp: system_ok_def reports_ok_def)
qed

text \<open>The client goes on, with a new line when it has connected.\<close>

lemma executed_for_new_line [simp]:
  "ls = [] \<or> ls = [new_line i] \<Longrightarrow>
   executed_for (s\<lparr>caller_side := c, lines := lines s @ ls\<rparr>) = executed_for s"
  by (intro ext) (auto simp: executed_for_def served_by_def new_line_def)

lemma not_connecting:
  assumes "system_ok s" "l \<in> set (lines s)"
  shows "in_flight (sessions (caller_side s) ! caller l) \<noteq> Some Connecting"
  using system_okD(3) [OF assms(1)] assms(2)
  by (auto simp: lines_ok_def list_all_iff line_ok_def out_ok_def session_at_def)

lemma client_moves:
  assumes ok: "system_ok s" and i: "i < length (sessions (caller_side s))"
    and c: "sessions c = (sessions (caller_side s))[i := v]" "async_inv c" and v: "session_ready v"
    and req: "m_request v = m_request (sessions (caller_side s) ! i)"
    and ls: "ls = [] \<or> ls = [new_line i] \<and> in_flight (sessions (caller_side s) ! i) = Some Connecting \<and>
      in_flight v \<in> {None, Some Writing}"
    and stage: "in_flight v = Some Connecting \<Longrightarrow> in_flight (sessions (caller_side s) ! i) = Some Connecting"
      "in_flight v = Some Reading \<Longrightarrow> in_flight (sessions (caller_side s) ! i) = Some Reading \<or>
         list_all (\<lambda>l. caller l = i \<longrightarrow> pushed l = length (m_request v)) (lines s)"
      "in_flight v = Some Writing \<or> in_flight v = Some Reading \<Longrightarrow> i \<in> caller ` set (lines s @ ls)"
    and reports: "reports_ok (s\<lparr>caller_side := c, lines := lines s @ ls\<rparr>)"
  shows "system_ok (s\<lparr>caller_side := c, lines := lines s @ ls\<rparr>)"
proof -
  let ?t = "s\<lparr>caller_side := c, lines := lines s @ ls\<rparr>"
  have old: "line_ok ?t l" if "l \<in> set (lines s)" for l
  proof -
    have "line_ok s l" using that system_okD(3) [OF ok] by (simp add: lines_ok_def list_all_iff)
    then show ?thesis using c(1) req stage(1,2) that i
      by (cases "caller l = i") (auto simp: line_ok_def session_at_def out_ok_def list_all_iff)
  qed
  have new: "line_ok ?t l" if "l \<in> set ls" for l
    using that ls c(1) i by (auto simp: line_ok_def session_at_def out_ok_def back_ok_def new_line_def)
  have "distinct (map caller (lines s @ ls))"
    using ls system_okD(3) [OF ok] not_connecting [OF ok] by (auto simp: lines_ok_def new_line_def)
  moreover have "j = j'" if "j < length (lines s @ ls)" "j' < length (lines s @ ls)"
    "callee ((lines s @ ls) ! j) = Some k" "callee ((lines s @ ls) ! j') = Some k" for j j' k
  proof -
    have "j < length (lines s) \<and> j' < length (lines s)"
      using that ls by (auto simp: nth_append new_line_def less_Suc_eq split: if_splits)
    then show ?thesis using that(3,4) system_okD(3) [OF ok] by (auto simp: lines_ok_def nth_append)
  qed
  moreover have "n \<in> caller ` set (lines s @ ls)"
    if "n < length (sessions c)" "in_flight (sessions c ! n) \<in> {Some Writing, Some Reading}" for n
    using that c(1) stage(3) system_okD(3) [OF ok] by (cases "n = i") (auto simp: lines_ok_def)
  ultimately have "lines_ok ?t" using old new by (simp add: lines_ok_def list_all_iff ball_Un)
  moreover have "sessions_ok c"
    using system_okD(1) [OF ok] c v by (simp add: sessions_ok_def list_all_length nth_update_if)
  ultimately show ?thesis using ok reports by (simp add: system_ok_def)
qed

text \<open>What is reported.\<close>

lemma reported_to_same: "calls c' = calls c \<Longrightarrow> reported_to c' = reported_to c"
  by (intro ext) (simp add: reported_to_def calls_of_def)

lemma reported_to_over:
  assumes "async_inv c" "i < length (sessions c)" "in_flight (sessions c ! i) \<noteq> None" "over aborted i v c c'"
  shows "reported_to c i = None"
    "reported_to c' = (reported_to c)(i := Some (if failed (outcome aborted v) then Inl (outcome aborted v)
       else Inr (m_response v)))"
proof -
  have "length (calls_of i c) = (if in_flight (sessions c ! i) = None then 1 else 0)"
    using assms(1,2) by (simp add: async_inv_def calls_ok_def)
  then have "calls_of i c = []" using assms(3) by simp
  moreover have "calls_of j c' = (if j = i then calls_of j c @ [(i, m_id v, m_response v, outcome aborted v)]
      else calls_of j c)" for j
    using assms(4) by (simp add: over_def completed_def calls_of_def)
  ultimately show "reported_to c i = None"
    "reported_to c' = (reported_to c)(i := Some (if failed (outcome aborted v) then Inl (outcome aborted v)
       else Inr (m_response v)))"
    by (auto simp: reported_to_def fun_eq_iff)
qed

lemma view_reported:
  assumes "length (sessions (caller_side t)) = length (sessions (caller_side s))" "executed_for t = executed_for s"
    and "reported_to (caller_side t) = (reported_to (caller_side s))(i := x)" "i < length (sessions (caller_side s))"
  shows "call_view t = (call_view s)[i := (call_view s ! i)\<lparr>reported := told x\<rparr>]"
  using assms by (intro nth_equalityI) (simp_all add: call_view_def nth_update_if)

text \<open>A completion of the client.\<close>

lemma client_over:
  assumes ok: "system_ok s" and i: "i < length (sessions (caller_side s))"
    and st: "in_flight (sessions (caller_side s) ! i) \<noteq> None" and c: "async_inv c"
    and v: "over aborted i v (caller_side s) c"
    and res: "\<not> failed (outcome aborted v) \<Longrightarrow> m_response v = ''Response'' \<and> executed_for s i"
    and ls: "ls = [] \<or> ls = [new_line i] \<and> in_flight (sessions (caller_side s) ! i) = Some Connecting"
  shows "system_ok (s\<lparr>caller_side := c, lines := lines s @ ls\<rparr>) \<and>
    remote_step (call_view s) (call_view (s\<lparr>caller_side := c, lines := lines s @ ls\<rparr>))"
proof -
  let ?t = "s\<lparr>caller_side := c, lines := lines s @ ls\<rparr>"
  let ?x = "if failed (outcome aborted v) then Inl (outcome aborted v) else Inr (m_response v)"
  note d = v [unfolded over_def completed_def]
  have inv: "async_inv (caller_side s)" using system_okD(1) [OF ok] by (simp add: sessions_ok_def)
  note rep = reported_to_over [OF inv i st v]
  have same: "executed_for ?t = executed_for s" using ls by (intro executed_for_new_line) auto
  have "session_ready (sessions (caller_side s) ! i)"
    using system_okD(1) [OF ok] i by (simp add: sessions_ok_def list_all_length)
  then have ready: "session_ready v" using d by (simp add: session_ready_def)
  have "reports_ok ?t"
    using system_okD(4) [OF ok] res d by (auto simp: reports_ok_def rep(2) same split: if_splits)
  with d ls have "system_ok ?t" by (intro client_moves [OF ok i, of c v, OF _ c ready]) auto
  moreover have calls: "call_view ?t = (call_view s)[i := (call_view s ! i)\<lparr>reported := [?x]\<rparr>]"
    using view_reported [of ?t s i "Some ?x"] d i same rep(2) by simp
  have n: "i < length (call_view s)" "reported (call_view s ! i) = []"
    "executed (call_view s ! i) = (if executed_for s i then 1 else 0)"
    using i rep(1) by (simp_all add: call_view_def)
  have "remote_step (call_view s) (call_view ?t)"
  proof (cases "failed (outcome aborted v)")
    case True
    with remote_step.fails [OF n(1,2)] calls show ?thesis by simp
  next
    case False
    with remote_step.answers [OF n(1) _ n(2)] res n(3) calls show ?thesis by simp
  qed
  ultimately show ?thesis by blast
qed

lemma client_event:
  assumes ok: "system_ok s" and ab: "failed aborted" and i: "i < length (sessions (caller_side s))"
    and st: "in_flight (sessions (caller_side s) ! i) = Some st"
    and ls: "ls = (if st = Connecting \<and> \<not> failed ec then [new_line i] else [])"
    and wrote: "st = Writing \<Longrightarrow> \<not> failed ec \<Longrightarrow>
      list_all (\<lambda>l. caller l = i \<longrightarrow> pushed l = length (m_request (sessions (caller_side s) ! i))) (lines s)"
    and done_: "st = Reading \<Longrightarrow> \<not> failed ec \<Longrightarrow> fst (getline bs) = ''Response'' \<and> executed_for s i"
  defines "c \<equiv> io_event aborted i ec bs (caller_side s)"
  shows "system_ok (s\<lparr>caller_side := c, lines := lines s @ ls\<rparr>) \<and>
    remote_step\<^sup>=\<^sup>= (call_view s) (call_view (s\<lparr>caller_side := c, lines := lines s @ ls\<rparr>))"
proof -
  let ?t = "s\<lparr>caller_side := c, lines := lines s @ ls\<rparr>"
  let ?v = "sessions (caller_side s) ! i"
  have inv: "async_inv (caller_side s)" and ready: "session_ready ?v"
    using system_okD(1) [OF ok] i by (simp_all add: sessions_ok_def list_all_length)
  have inv': "async_inv c" unfolding c_def by (rule async_inv_event [OF inv i]) (simp add: st)
  have lines: "ls = [] \<or> ls = [new_line i] \<and> in_flight ?v = Some Connecting" using ls st by simp
  show ?thesis
    using i st ab
  proof (cases rule: io_event_moves [where ec = ec and bs = bs])
    case goes
    let ?w = "?v\<lparr>in_flight := Some (following st)\<rparr>"
    have c: "sessions c = (sessions (caller_side s))[i := ?w]" "calls c = calls (caller_side s)"
      using goes(4) by (simp_all add: c_def)
    have same: "executed_for ?t = executed_for s" using lines by (intro executed_for_new_line) auto
    have linked: "st = Writing \<Longrightarrow> i \<in> caller ` set (lines s)"
      using system_okD(3) [OF ok] i st by (simp add: lines_ok_def)
    have "system_ok ?t"
    proof (rule client_moves [OF ok i c(1) inv'])
      show "session_ready ?w" using ready by (auto simp: session_ready_def st)
      show "reports_ok ?t"
        using system_okD(4) [OF ok] c by (simp add: reports_ok_def same reported_to_same [OF c(2)])
      show "in_flight ?w = Some Writing \<or> in_flight ?w = Some Reading \<Longrightarrow> i \<in> caller ` set (lines s @ ls)"
        using goes(1,2) linked ls by (cases st) (simp_all add: new_line_def)
      show "ls = [] \<or> ls = [new_line i] \<and> in_flight ?v = Some Connecting \<and> in_flight ?w \<in> {None, Some Writing}"
        using ls st by (cases st) simp_all
      show "in_flight ?w = Some Reading \<Longrightarrow> in_flight ?v = Some Reading \<or>
          list_all (\<lambda>l. caller l = i \<longrightarrow> pushed l = length (m_request ?w)) (lines s)"
        using goes(1,2) wrote by (cases st) simp_all
      show "in_flight ?w = Some Connecting \<Longrightarrow> in_flight ?v = Some Connecting" by (cases st) simp_all
    qed simp
    moreover have "call_view ?t = call_view s"
      using c same by (simp add: call_view_def reported_to_same [OF c(2)])
    ultimately show ?thesis by simp
  next
    case (fails v)
    have "system_ok ?t \<and> remote_step (call_view s) (call_view ?t)"
      using st fails by (intro client_over [OF ok i _ inv' _ _ lines, of _ v]) (auto simp: c_def)
    then show ?thesis by blast
  next
    case (answered v)
    have "m_response_buf ?v = []" using ready st by (simp add: session_ready_def)
    then have "m_response v = ''Response'' \<and> executed_for s i" using answered done_ by simp
    then have "system_ok ?t \<and> remote_step (call_view s) (call_view ?t)"
      using st answered(1) by (intro client_over [OF ok i _ inv' _ _ lines, of _ v]) (auto simp: c_def)
    then show ?thesis by blast
  qed
qed

section \<open>Every step\<close>

lemma services_okD:
  assumes "services_ok r" "k < length (services r)"
  shows "service_ok (services r ! k)" "response_ok (services r ! k)"
  using assms by (simp_all add: services_ok_def async_server_ok_def list_all_length)

lemma services_ok_event:
  assumes "services_ok r" "ioc_runs r" "k < length (services r)" "p \<in> set (svc_ops (services r ! k))"
    "svc_event k p ec bs r = Inr (Some r')"
  shows "services_ok r'"
proof -
  have "server_event (Inr (Some r)) (Inr (Some r'))" using server_event.serviced [OF assms(2-4), of ec bs] assms(5) by simp
  then have "async_server_ok (Inr (Some r'))" using async_server_step assms(1) by (auto simp: services_ok_def)
  moreover have "list_all response_ok (services r')"
    by (rule svc_event_moves [OF services_okD [OF assms(1,3)] assms(4,5)])
      (use assms(1) in \<open>auto simp: services_ok_def list_all_length nth_update_if\<close>)
  ultimately show ?thesis by (simp add: services_ok_def)
qed

lemma OnAccept_services:
  "services (OnAccept ec r) = services r @ (if failed ec then [] else [StartHandling])"
  by (simp add: OnAccept_def InitAccept_def failed_def Let_def)

lemma services_ok_accept:
  assumes "services_ok r" "ioc_runs r" "0 < accepting_ops r"
  shows "services_ok (OnAccept ec (r\<lparr>accepting_ops := accepting_ops r - 1\<rparr>))"
  using async_server_step [OF _ server_event.accepted [OF assms(2,3), of ec]] assms(1)
  by (simp add: services_ok_def OnAccept_services)

lemma services_ok_stop: "services_ok r \<Longrightarrow> services_ok (StopAcceptor r)" "services_ok r \<Longrightarrow> services_ok (StopContext r)"
  by (auto simp: services_ok_def async_server_ok_def StopAcceptor_def StopContext_def)

lemma back_ok_more: "back_ok ws l \<Longrightarrow> back_ok (ws @ xs) l"
  by (auto simp: back_ok_def nth_append split: option.splits)

text \<open>A service goes on.\<close>

lemma executed_for_kept:
  assumes "\<And>l. l \<in> set (lines s) \<Longrightarrow> served_by r l = served_by (server_side s) l"
  shows "executed_for (s\<lparr>server_side := r\<rparr>) = executed_for s"
  using assms by (auto simp: executed_for_def list_ex_iff fun_eq_iff)

lemma view_kept:
  assumes "\<And>l. l \<in> set (lines s) \<Longrightarrow> served_by r l = served_by (server_side s) l"
  shows "call_view (s\<lparr>server_side := r\<rparr>) = call_view s"
  by (simp add: call_view_def executed_for_kept [OF assms])

lemma service_deleted:
  assumes ok: "system_ok s" and k: "k < length (services (server_side s))"
    and r: "services_ok r" "services r = (services (server_side s))[k := w]"
    and w: "svc_response w = svc_response (services (server_side s) ! k)"
  shows "system_ok (s\<lparr>server_side := r\<rparr>) \<and> call_view (s\<lparr>server_side := r\<rparr>) = call_view s"
proof -
  have same: "svc_response (services r ! n) = svc_response (services (server_side s) ! n)" for n
    using r(2) w k by (simp add: nth_update_if)
  have served: "served_by r l = served_by (server_side s) l" for l
    by (simp add: served_by_def same split: option.split)
  have "back_ok (services r) l = back_ok (services (server_side s)) l" for l
    using r(2) same by (simp add: back_ok_def split: option.split)
  then have "list_all (back_ok (services r)) (lines s)"
    using system_okD(3) [OF ok] by (simp add: lines_ok_def line_ok_def list_all_iff)
  then show ?thesis using server_moves [OF ok r(1)] served view_kept [of s r] by (simp add: list_all_iff)
qed

lemma service_computes:
  assumes ok: "system_ok s" and j: "j < length (lines s)" "callee (lines s ! j) = Some k"
    and h: "newline \<in> set (heard (lines s ! j))"
    and r: "services_ok r" "services r = (services (server_side s))[k := w]" "svc_response w = response_text"
    and e: "svc_response (services (server_side s) ! k) = []"
  shows "system_ok (s\<lparr>server_side := r\<rparr>) \<and> remote_step (call_view s) (call_view (s\<lparr>server_side := r\<rparr>))"
proof -
  let ?t = "s\<lparr>server_side := r\<rparr>" and ?i = "caller (lines s ! j)"
  have line: "line_ok s (lines s ! j)" by (rule line_okD [OF ok j(1)])
  then have k: "k < length (services (server_side s))" using j(2) by (simp add: line_ok_def back_ok_def)
  have only: "l = lines s ! j" if "l \<in> set (lines s)" "callee l = Some k" for l
    using that system_okD(3) [OF ok] j by (auto simp: lines_ok_def in_set_conv_nth)
  have same: "svc_response (services r ! n) = (if n = k then response_text else svc_response (services (server_side s) ! n))" for n
    using r(2,3) k by (simp add: nth_update_if)
  have served: "served_by r l \<longleftrightarrow> served_by (server_side s) l \<or> l = lines s ! j" if "l \<in> set (lines s)" for l
    using only [OF that] j(2) e by (auto simp: served_by_def same split: option.split)
  have "back_ok (services r) l" if "l \<in> set (lines s)" for l
  proof -
    have "back_ok (services (server_side s)) l"
      using that system_okD(3) [OF ok] by (simp add: lines_ok_def line_ok_def list_all_iff)
    moreover have "length (services r) = length (services (server_side s))" using r(2) by simp
    ultimately show ?thesis using only [OF that] h e by (auto simp: back_ok_def same split: option.splits if_splits)
  qed
  with served have t: "system_ok ?t" by (intro server_moves [OF ok r(1)]) (auto simp: list_all_iff)
  have one: "caller l = ?i \<longleftrightarrow> l = lines s ! j" if "l \<in> set (lines s)" for l
    by (rule same_caller [OF ok that nth_mem [OF j(1)]])
  have "executed_for ?t = (executed_for s)(?i := True)"
  proof
    fix i
    show "executed_for ?t i = ((executed_for s)(?i := True)) i"
      using served one j(1) by (auto simp: executed_for_def list_ex_iff)
  qed
  moreover have no: "\<not> executed_for s ?i"
    using one j(2) e by (auto simp: executed_for_def list_ex_iff served_by_def split: option.splits)
  moreover have i: "?i < length (sessions (caller_side s))" using line by (simp add: line_ok_def)
  ultimately have "call_view ?t = (call_view s)[?i := (call_view s ! ?i)\<lparr>executed := 1\<rparr>]"
    by (intro nth_equalityI) (simp_all add: call_view_def nth_update_if)
  with remote_step.executes [of ?i "call_view s"] no i t show ?thesis by (simp add: call_view_def)
qed

text \<open>A connection is accepted, for one of the lines or for somebody else.\<close>

lemma accept_other:
  assumes ok: "system_ok s" and r: "services_ok r" "services r = services (server_side s) @ ws"
  shows "system_ok (s\<lparr>server_side := r\<rparr>) \<and> call_view (s\<lparr>server_side := r\<rparr>) = call_view s"
proof -
  have kept: "back_ok (services (server_side s)) l" if "l \<in> set (lines s)" for l
    using that system_okD(3) [OF ok] by (simp add: lines_ok_def line_ok_def list_all_iff)
  then have served: "served_by r l = served_by (server_side s) l" if "l \<in> set (lines s)" for l
    using that r(2) by (force simp: served_by_def back_ok_def nth_append split: option.splits)
  have "list_all (back_ok (services r)) (lines s)" using kept r(2) by (auto simp: list_all_iff intro: back_ok_more)
  then show ?thesis using server_moves [OF ok r(1)] served view_kept [of s r] by (simp add: list_all_iff)
qed

lemma accept_line:
  assumes ok: "system_ok s" and j: "j < length (lines s)" "callee (lines s ! j) = None"
    and fresh: "list_all (\<lambda>l. callee l \<noteq> Some k) (lines s)"
    and k: "k < length (services (server_side s))" "svc_response (services (server_side s) ! k) = []"
  defines "t \<equiv> put_line j ((lines s ! j)\<lparr>callee := Some k\<rparr>) s"
  shows "system_ok t \<and> call_view t = call_view s"
proof -
  let ?l = "(lines s ! j)\<lparr>callee := Some k\<rparr>"
  have line: "line_ok s (lines s ! j)" by (rule line_okD [OF ok j(1)])
  then have "line_ok s ?l" using j(2) k by (auto simp: line_ok_def session_at_def out_ok_def back_ok_def)
  then have all: "list_all (line_ok s) ((lines s)[j := ?l])"
    using system_okD(3) [OF ok] by (simp add: lines_ok_def list_all_length nth_update_if)
  have callers: "map caller ((lines s)[j := ?l]) = map caller (lines s)" by (simp add: map_update_same)
  then have image: "caller ` set ((lines s)[j := ?l]) = caller ` set (lines s)" by (metis list.set_map)
  have only: "n = n'" if "n < length (lines s)" "n' < length (lines s)"
    "callee ((lines s)[j := ?l] ! n) = Some m" "callee ((lines s)[j := ?l] ! n') = Some m" for n n' m
    using that system_okD(3) [OF ok] fresh
    by (cases "n = j"; cases "n' = j") (auto simp: lines_ok_def list_all_length)
  have "lines_ok t"
    using system_okD(3) [OF ok] all callers image only by (auto simp: lines_ok_def t_def)
  moreover have "executed_for t i = executed_for s i" for i
  proof -
    have "served_by (server_side s) ((lines s)[j := ?l] ! n) = served_by (server_side s) (lines s ! n)" for n
      using j(2) k(2) by (auto simp: served_by_def nth_update_if)
    moreover have "caller ((lines s)[j := ?l] ! n) = caller (lines s ! n)" for n by (simp add: nth_update_if)
    ultimately show ?thesis by (simp add: executed_for_def t_def list_ex_length)
  qed
  ultimately show ?thesis using ok by (auto simp: system_ok_def reports_ok_def call_view_def t_def)
qed

text \<open>The calls of the user.\<close>

lemma session_ready_new [simp]: "session_ready ((new_session ep (request_text d) rid)\<lparr>in_flight := st\<rparr>)"
  by (auto simp: session_ready_def new_session_def failed_def no_error_def)

lemma request_moves:
  assumes ok: "system_ok s" and c: "EmulateLongComputationOp d address open_error rid (caller_side s) = Inr c"
  shows "system_ok (s\<lparr>caller_side := c\<rparr>) \<and> remote_step (call_view s) (call_view (s\<lparr>caller_side := c\<rparr>))"
proof -
  let ?t = "s\<lparr>caller_side := c\<rparr>" and ?n = "length (sessions (caller_side s))"
  from c obtain v where v: "sessions c = sessions (caller_side s) @ [v]" "in_flight v = Some Connecting"
    "session_ready v" "calls c = calls (caller_side s)"
    by (auto simp: EmulateLongComputationOp_def rbind_Inr_iff Let_def split: option.splits)
  have inv: "async_inv (caller_side s)" using system_okD(1) [OF ok] by (simp add: sessions_ok_def)
  then have inv': "async_inv c" using async_inv_step async_step.request [OF c] by blast
  have ex: "executed_for ?t = executed_for s" by (intro ext) (simp add: executed_for_def)
  have "line_ok ?t l" if "l \<in> set (lines s)" for l
    using that system_okD(3) [OF ok] v(1) by (auto simp: lines_ok_def list_all_iff line_ok_def session_at_def nth_append)
  moreover have "i \<in> caller ` set (lines s)"
    if "i < length (sessions c)" "in_flight (sessions c ! i) \<in> {Some Writing, Some Reading}" for i
    using that v(1,2) system_okD(3) [OF ok] by (cases "i = ?n") (auto simp: lines_ok_def nth_append)
  ultimately have "lines_ok ?t" using system_okD(3) [OF ok] by (simp add: lines_ok_def list_all_iff)
  have fresh: "reported_to (caller_side s) ?n = None" "\<not> executed_for s ?n"
  proof -
    have "calls_of ?n (caller_side s) = []"
      using inv by (auto simp: async_inv_def calls_ok_def calls_of_def filter_empty_conv)
    then show "reported_to (caller_side s) ?n = None" by (simp add: reported_to_def)
    show "\<not> executed_for s ?n"
      using system_okD(3) [OF ok] by (auto simp: executed_for_def list_ex_iff lines_ok_def list_all_iff line_ok_def)
  qed
  have "reports_ok ?t"
    using system_okD(4) [OF ok] v(1) fresh(1)
    by (auto simp: reports_ok_def ex reported_to_same [OF v(4)] less_Suc_eq)
  moreover have "sessions_ok c" using system_okD(1) [OF ok] inv' v(1,3) by (simp add: sessions_ok_def)
  ultimately have "system_ok ?t" using ok \<open>lines_ok ?t\<close> by (simp add: system_ok_def)
  moreover have "call_view ?t = call_view s @ [\<lparr>executed = 0, reported = []\<rparr>]"
    using v(1) fresh by (simp add: call_view_def ex reported_to_same [OF v(4)])
  ultimately show ?thesis using remote_step.issues [of "call_view s"] by simp
qed

lemma cancel_moves:
  assumes ok: "system_ok s"
  shows "system_ok (s\<lparr>caller_side := CancelRequest rid (caller_side s)\<rparr>) \<and>
    call_view (s\<lparr>caller_side := CancelRequest rid (caller_side s)\<rparr>) = call_view s"
proof -
  let ?c = "CancelRequest rid (caller_side s)"
  have inv: "async_inv ?c"
    using system_okD(1) [OF ok] async_inv_step async_step.cancel by (auto simp: sessions_ok_def)
  have calls: "calls ?c = calls (caller_side s)" by (simp add: CancelRequest_def split: option.split)
  have fields: "length (sessions ?c) = length (sessions (caller_side s))"
    "in_flight (sessions ?c ! i) = in_flight (sessions (caller_side s) ! i)"
    "m_request (sessions ?c ! i) = m_request (sessions (caller_side s) ! i)"
    "m_response_buf (sessions ?c ! i) = m_response_buf (sessions (caller_side s) ! i)"
    "m_ec (sessions ?c ! i) = m_ec (sessions (caller_side s) ! i)" for i
    by (simp_all add: CancelRequest_def nth_update_if split: option.split)
  have ex: "executed_for (s\<lparr>caller_side := ?c\<rparr>) = executed_for s" by (intro ext) (simp add: executed_for_def)
  have "line_ok (s\<lparr>caller_side := ?c\<rparr>) = line_ok s"
    by (intro ext) (simp add: line_ok_def session_at_def out_ok_def fields)
  then have "lines_ok (s\<lparr>caller_side := ?c\<rparr>)" using system_okD(3) [OF ok] by (simp add: lines_ok_def fields)
  moreover have "sessions_ok ?c"
    using system_okD(1) [OF ok] inv by (simp add: sessions_ok_def list_all_length session_ready_def fields)
  ultimately show ?thesis
    using ok by (simp add: system_ok_def reports_ok_def call_view_def ex fields reported_to_same [OF calls])
qed

lemma close_moves:
  assumes ok: "system_ok s" and c: "Close (caller_side s) = Some c"
  shows "system_ok (s\<lparr>caller_side := c\<rparr>) \<and> call_view (s\<lparr>caller_side := c\<rparr>) = call_view s"
proof -
  have same: "sessions c = sessions (caller_side s)" "calls c = calls (caller_side s)"
    using c by (auto simp: Close_def Let_def split: if_splits)
  have inv: "async_inv c"
    using system_okD(1) [OF ok] async_inv_step async_step.close [OF c] by (auto simp: sessions_ok_def)
  have ex: "executed_for (s\<lparr>caller_side := c\<rparr>) = executed_for s" by (intro ext) (simp add: executed_for_def)
  have "line_ok (s\<lparr>caller_side := c\<rparr>) = line_ok s" by (intro ext) (simp add: line_ok_def session_at_def same)
  then have "lines_ok (s\<lparr>caller_side := c\<rparr>)" using system_okD(3) [OF ok] by (simp add: lines_ok_def same)
  moreover have "sessions_ok c" using system_okD(1) [OF ok] inv by (simp add: sessions_ok_def same)
  ultimately show ?thesis
    using ok by (simp add: system_ok_def reports_ok_def call_view_def ex same reported_to_same [OF same(2)])
qed

text \<open>The end of a line of text is its only newline.\<close>

lemma whole_line:
  assumes "newline \<in> set xs" "xs @ ys = take n (line @ [newline])" "newline \<notin> set line"
  shows "xs = line @ [newline]"
proof -
  have "prefix xs (line @ [newline])" using assms(2) by (metis prefixI take_is_prefix prefix_order.trans)
  then have "xs = line @ [newline] \<or> prefix xs line" by simp
  then show ?thesis using assms(1,3) set_mono_prefix by blast
qed

lemma response_line: "response_text = ''Response'' @ [newline]" "newline \<notin> set ''Response''"
  by (simp_all add: response_text_def newline_def)

text \<open>The line a session writes to or reads from.\<close>

lemma line_facts:
  assumes ok: "system_ok s" and j: "j < length (lines s)"
  shows "caller (lines s ! j) < length (sessions (caller_side s))"
    "out_ok (session_at s (lines s ! j)) (lines s ! j)" "back_ok (services (server_side s)) (lines s ! j)"
    "callee (lines s ! j) = Some k \<Longrightarrow> k < length (services (server_side s))"
  using line_okD [OF assms] by (simp_all add: line_ok_def back_ok_def split: option.splits)

lemma connects_moves:
  assumes "system_ok s" "failed aborted" "i < length (sessions (caller_side s))"
    "in_flight (sessions (caller_side s) ! i) = Some Connecting"
  defines "t \<equiv> s\<lparr>caller_side := io_event aborted i no_error [] (caller_side s), lines := lines s @ [new_line i]\<rparr>"
  shows "system_ok t \<and> remote_step\<^sup>=\<^sup>= (call_view s) (call_view t)"
  unfolding t_def by (rule client_event [OF assms(1-4)]) (simp_all add: no_error_def failed_def)

lemma client_event_plain:
  assumes "system_ok s" "failed aborted" "i < length (sessions (caller_side s))"
    "in_flight (sessions (caller_side s) ! i) = Some st" "st = Connecting \<Longrightarrow> failed ec"
    "st = Writing \<Longrightarrow> \<not> failed ec \<Longrightarrow>
      list_all (\<lambda>l. caller l = i \<longrightarrow> pushed l = length (m_request (sessions (caller_side s) ! i))) (lines s)"
    "st = Reading \<Longrightarrow> \<not> failed ec \<Longrightarrow> fst (getline bs) = ''Response'' \<and> executed_for s i"
  defines "t \<equiv> s\<lparr>caller_side := io_event aborted i ec bs (caller_side s)\<rparr>"
  shows "system_ok t \<and> remote_step\<^sup>=\<^sup>= (call_view s) (call_view t)"
  using client_event [OF assms(1-4), of "[]" ec bs] assms(5-7) by (simp add: t_def)

lemma wrote_moves:
  assumes ok: "system_ok s" and ab: "failed aborted" and j: "j < length (lines s)" "lines s ! j = l"
    and st: "in_flight (session_at s l) = Some Writing" and p: "pushed l = length (m_request (session_at s l))"
  defines "t \<equiv> s\<lparr>caller_side := io_event aborted (caller l) no_error [] (caller_side s)\<rparr>"
  shows "system_ok t \<and> remote_step\<^sup>=\<^sup>= (call_view s) (call_view t)"
  unfolding t_def
proof (rule client_event_plain [OF ok ab _ st [unfolded session_at_def]])
  show "caller l < length (sessions (caller_side s))" using line_facts(1) [OF ok j(1)] j(2) by simp
  show "list_all (\<lambda>x. caller x = caller l \<longrightarrow> pushed x = length (m_request (sessions (caller_side s) ! caller l))) (lines s)"
    using same_caller [OF ok, of _ l] j p by (auto simp: list_all_iff session_at_def)
qed simp_all

lemma reads_moves:
  assumes ok: "system_ok s" and ab: "failed aborted" and j: "j < length (lines s)" "lines s ! j = l"
    and st: "in_flight (session_at s l) = Some Reading" and n: "newline \<in> set (gathered l)"
  defines "t \<equiv> s\<lparr>caller_side := io_event aborted (caller l) no_error (gathered l) (caller_side s)\<rparr>"
  shows "system_ok t \<and> remote_step\<^sup>=\<^sup>= (call_view s) (call_view t)"
  unfolding t_def
proof (rule client_event_plain [OF ok ab _ st [unfolded session_at_def]])
  have kept: "back_ok (services (server_side s)) l" using line_facts(3) [OF ok j(1)] j(2) by simp
  then have g: "gathered l = response_text"
    using whole_line [OF n _ response_line(2)] response_line(1) by (auto simp: back_ok_def)
  then have "replied l \<noteq> 0" using kept by (intro notI) (simp add: back_ok_def)
  then have "served_by (server_side s) l" using kept by (auto simp: back_ok_def served_by_def split: option.splits if_splits)
  then show "fst (getline (gathered l)) = ''Response'' \<and> executed_for s (caller l)"
    using g response_line j getline_line [of "''Response''" "[]"] by (auto simp: executed_for_def list_ex_iff)
  show "caller l < length (sessions (caller_side s))" using line_facts(1) [OF ok j(1)] j(2) by simp
qed simp_all

lemma in_use:
  assumes "system_ok s" "j < length (lines s)" "callee (lines s ! j) = Some k" "p \<in> set (svc_ops (service_at s k))"
  shows "p = (if svc_response (service_at s k) = [] then Read_request else Write_response response_text)"
    "k < length (services (server_side s))" "\<not> svc_deleted (service_at s k)"
proof -
  show k: "k < length (services (server_side s))" by (rule line_facts(4) [OF assms(1-3)])
  have "service_ok (service_at s k)" "response_ok (service_at s k)"
    using services_okD [OF system_okD(2) [OF assms(1)] k] by (simp_all add: service_at_def)
  with assms(4) show "p = (if svc_response (service_at s k) = [] then Read_request else Write_response response_text)"
    "\<not> svc_deleted (service_at s k)" by (auto simp: service_ok_def response_ok_def split: if_splits)
qed

lemma byte_steps:
  assumes ok: "system_ok s" and j: "j < length (lines s)" "lines s ! j = l"
  shows "in_flight (session_at s l) = Some Writing \<Longrightarrow> pushed l < length (m_request (session_at s l)) \<Longrightarrow>
      line_ok s (l\<lparr>pushed := Suc (pushed l), on_way := on_way l @ [m_request (session_at s l) ! pushed l]\<rparr>)"
    "callee l = Some k \<Longrightarrow> on_way l = b # bs \<Longrightarrow> line_ok s (l\<lparr>heard := heard l @ [b], on_way := bs\<rparr>)"
    "callee l = Some k \<Longrightarrow> Write_response w \<in> set (svc_ops (service_at s k)) \<Longrightarrow> replied l < length w \<Longrightarrow>
      line_ok s (l\<lparr>replied := Suc (replied l), on_return := on_return l @ [w ! replied l]\<rparr>)"
    "on_return l = b # bs \<Longrightarrow> line_ok s (l\<lparr>gathered := gathered l @ [b], on_return := bs\<rparr>)"
proof -
  have line: "line_ok s l" using line_okD [OF ok j(1)] j(2) by simp
  then show "in_flight (session_at s l) = Some Writing \<Longrightarrow> pushed l < length (m_request (session_at s l)) \<Longrightarrow>
      line_ok s (l\<lparr>pushed := Suc (pushed l), on_way := on_way l @ [m_request (session_at s l) ! pushed l]\<rparr>)"
    by (simp add: line_ok_def session_at_def out_ok_def back_ok_def take_Suc_conv_app_nth flip: append_assoc
        split: option.splits)
  show "callee l = Some k \<Longrightarrow> on_way l = b # bs \<Longrightarrow> line_ok s (l\<lparr>heard := heard l @ [b], on_way := bs\<rparr>)"
    using line by (auto simp: line_ok_def session_at_def out_ok_def back_ok_def)
  show "on_return l = b # bs \<Longrightarrow> line_ok s (l\<lparr>gathered := gathered l @ [b], on_return := bs\<rparr>)"
    using line by (cases "callee l") (auto simp: line_ok_def session_at_def out_ok_def back_ok_def)
  assume w: "callee l = Some k" "Write_response w \<in> set (svc_ops (service_at s k))" "replied l < length w"
  then have "w = response_text" "svc_response (service_at s k) \<noteq> []"
    using in_use(1) [OF ok j(1), of k "Write_response w"] j(2) by (simp_all split: if_splits)
  then show "line_ok s (l\<lparr>replied := Suc (replied l), on_return := on_return l @ [w ! replied l]\<rparr>)"
    using line w by (simp add: line_ok_def session_at_def service_at_def out_ok_def back_ok_def take_Suc_conv_app_nth
        flip: append_assoc)
qed

lemma other_service:
  assumes "callee l \<noteq> Some k"
  shows "served_by (r\<lparr>services := ws[k := w]\<rparr>) l = served_by (r\<lparr>services := ws\<rparr>) l"
    "back_ok (ws[k := w]) l = back_ok ws l"
  using assms by (cases "callee l"; auto simp: served_by_def back_ok_def)+

lemma deletes_moves:
  assumes ok: "system_ok s" and io: "ioc_runs (server_side s)" and k: "k < length (services (server_side s))"
    and p: "p \<in> set (svc_ops (service_at s k))" and e: "svc_event k p ec bs (server_side s) = Inr (Some r)"
    and none: "p = Read_request \<and> \<not> failed ec \<Longrightarrow> list_all (\<lambda>l. callee l \<noteq> Some k) (lines s)"
  shows "system_ok (s\<lparr>server_side := r\<rparr>) \<and> call_view (s\<lparr>server_side := r\<rparr>) = call_view s"
proof -
  have r: "services_ok r" by (rule services_ok_event [OF system_okD(2) [OF ok] io k p [unfolded service_at_def] e])
  show ?thesis
  proof (rule svc_event_moves [OF services_okD [OF system_okD(2) [OF ok] k] p [unfolded service_at_def] e])
    fix w
    assume h: "r = (server_side s)\<lparr>services := (services (server_side s))[k := w]\<rparr>"
      "svc_response w = svc_response (services (server_side s) ! k)"
    show ?thesis by (rule service_deleted [OF ok k r _ h(2)]) (simp add: h(1))
  next
    fix w
    assume h: "p = Read_request" "\<not> failed ec" "r = (server_side s)\<lparr>services := (services (server_side s))[k := w]\<rparr>"
    have other: "callee l \<noteq> Some k" if "l \<in> set (lines s)" for l using none h(1,2) that by (simp add: list_all_iff)
    have "\<And>l. l \<in> set (lines s) \<Longrightarrow> served_by r l = served_by (server_side s) l"
      "\<And>l. l \<in> set (lines s) \<Longrightarrow> back_ok (services r) l = back_ok (services (server_side s)) l"
      using other_service [OF other] h(3) by simp_all
    then show ?thesis using server_moves [OF ok r] view_kept [of s r] system_okD(3) [OF ok]
      by (simp add: list_all_iff lines_ok_def line_ok_def)
  qed
qed

lemma received_moves:
  assumes ok: "system_ok s" and io: "ioc_runs (server_side s)" and j: "j < length (lines s)" "lines s ! j = l"
    and k: "callee l = Some k" and p: "Read_request \<in> set (svc_ops (service_at s k))" and n: "newline \<in> set (heard l)"
    and e: "svc_event k Read_request no_error (heard l) (server_side s) = Inr (Some r)"
  shows "system_ok (s\<lparr>server_side := r\<rparr>) \<and> remote_step (call_view s) (call_view (s\<lparr>server_side := r\<rparr>))"
proof -
  have k': "k < length (services (server_side s))" using line_facts(4) [OF ok j(1)] j(2) k by simp
  have r: "services_ok r" by (rule services_ok_event [OF system_okD(2) [OF ok] io k' p [unfolded service_at_def] e])
  show ?thesis
  proof (rule svc_event_moves [OF services_okD [OF system_okD(2) [OF ok] k'] p [unfolded service_at_def] e])
    fix w
    assume h: "r = (server_side s)\<lparr>services := (services (server_side s))[k := w]\<rparr>"
      "svc_response w = response_text" "svc_response (services (server_side s) ! k) = []"
    show ?thesis
      by (rule service_computes [OF ok j(1) _ _ r _ h(2,3)]) (use j k n h(1) in simp_all)
  qed simp
qed

lemma accepts_moves:
  assumes ok: "system_ok s" and io: "ioc_runs (server_side s)" and a: "0 < accepting_ops (server_side s)"
    and j: "j < length (lines s)" "callee (lines s ! j) = None"
  defines "t \<equiv> put_line j ((lines s ! j)\<lparr>callee := Some (length (services (server_side s)))\<rparr>)
    (s\<lparr>server_side := OnAccept no_error ((server_side s)\<lparr>accepting_ops := accepting_ops (server_side s) - 1\<rparr>)\<rparr>)"
  shows "system_ok t \<and> call_view t = call_view s"
proof -
  let ?r = "OnAccept no_error ((server_side s)\<lparr>accepting_ops := accepting_ops (server_side s) - 1\<rparr>)"
  let ?k = "length (services (server_side s))"
  have r: "services ?r = services (server_side s) @ [StartHandling]"
    by (simp add: OnAccept_services no_error_def failed_def)
  have s1: "system_ok (s\<lparr>server_side := ?r\<rparr>)" "call_view (s\<lparr>server_side := ?r\<rparr>) = call_view s"
    using accept_other [OF ok services_ok_accept [OF system_okD(2) [OF ok] io a] , of no_error "[StartHandling]"] r
    by simp_all
  have "callee l \<noteq> Some ?k" if "l \<in> set (lines s)" for l
    using that line_facts(4) [OF ok] by (metis in_set_conv_nth less_irrefl)
  then have "list_all (\<lambda>l. callee l \<noteq> Some ?k) (lines (s\<lparr>server_side := ?r\<rparr>))" by (simp add: list_all_iff)
  then show ?thesis
    using accept_line [OF s1(1), of j ?k] j r s1(2) unfolding t_def by (simp add: StartHandling_def nth_append)
qed

text \<open>Every step keeps the invariant and does to the remote calls what the specification allows.\<close>

lemma smooth_moves:
  assumes ok: "system_ok s" and ab: "failed aborted" and st: "smooth_step aborted s t"
  shows "system_ok t \<and> remote_step\<^sup>=\<^sup>= (call_view s) (call_view t)"
  using st
proof cases
  case (connects i)
  then show ?thesis using connects_moves [OF ok ab] by simp
next
  case (sends j l)
  then show ?thesis using byte_moves [OF ok sends(2)] byte_steps(1) [OF ok sends(2,3)] by simp
next
  case (wrote j l)
  then show ?thesis using wrote_moves [OF ok ab] by simp
next
  case (accepts j)
  then show ?thesis using accepts_moves [OF ok accepts(2-5)] by simp
next
  case (hears j l k b bs)
  then show ?thesis using byte_moves [OF ok hears(2)] byte_steps(2) [OF ok hears(2,3)] by simp
next
  case (received j l k r)
  then show ?thesis using received_moves [OF ok received(2-8)] by (simp add: r_into_rtranclp)
next
  case (replies j l k w)
  then show ?thesis using byte_moves [OF ok replies(2)] byte_steps(3) [OF ok replies(2,3)] by simp
next
  case (responded j l k w r)
  have k: "k < length (services (server_side s))" by (rule in_use(2) [OF ok responded(3)]) (use responded in simp_all)
  show ?thesis using deletes_moves [OF ok responded(2) k responded(6,8)] responded(1) by simp
next
  case (gathers j l b bs)
  then show ?thesis using byte_moves [OF ok gathers(2)] byte_steps(4) [OF ok gathers(2,3)] by simp
next
  case (reads j l)
  then show ?thesis using reads_moves [OF ok ab] by simp
qed

lemma call_moves:
  assumes ok: "system_ok s" and ab: "failed aborted" and st: "call_step aborted s t"
  shows "system_ok t \<and> remote_step\<^sup>=\<^sup>= (call_view s) (call_view t)"
  using st
proof cases
  case smooth
  then show ?thesis by (rule smooth_moves [OF ok ab])
next
  case (request d address open_error rid c)
  then show ?thesis using request_moves [OF ok] by (simp add: r_into_rtranclp)
next
  case (cancel rid)
  then show ?thesis using cancel_moves [OF ok] by simp
next
  case (close c)
  then show ?thesis using close_moves [OF ok] by simp
next
  case (client_fails i ec bs)
  then obtain st where "i < length (sessions (caller_side s))" "in_flight (sessions (caller_side s) ! i) = Some st"
    by (auto simp: event_enabled_def)
  from client_event_plain [OF ok ab this, of ec bs] client_fails show ?thesis by simp
next
  case (service_fails k p ec bs r)
  then show ?thesis using deletes_moves [OF ok service_fails(2,3,4,6)] by simp
next
  case (other_client k p ec bs r)
  then show ?thesis using deletes_moves [OF ok other_client(2,3,5,6)] by simp
next
  case (other_accept ec)
  show ?thesis
    using accept_other [OF ok services_ok_accept [OF system_okD(2) [OF ok] other_accept(2,3), of ec] , of "if failed ec then [] else [StartHandling]"]
      other_accept(1) by (simp add: OnAccept_services)
next
  case stop_acceptor
  then show ?thesis
    using accept_other [OF ok services_ok_stop(1) [OF system_okD(2) [OF ok]], of "[]"] by (simp add: StopAcceptor_def)
next
  case stop_context
  then show ?thesis
    using accept_other [OF ok services_ok_stop(2) [OF system_okD(2) [OF ok]], of "[]"] by (simp add: StopContext_def)
qed

lemma calls_start_ok: "calls_start s \<Longrightarrow> system_ok s \<and> call_view s = []"
proof -
  assume "calls_start s"
  then obtain n where s: "StartServer n new_async_server = Inr (server_side s)" "caller_side s = AsyncTCPClient" "lines s = []"
    by (auto simp: calls_start_def)
  have "async_server_ok (Inr (Some (server_side s)))"
    by (rule async_server_reachable_ok [of n]) (use s(1) in \<open>auto simp: async_server_reachable_def\<close>)
  moreover have "services (server_side s) = []"
    using StartServer_Inr [OF s(1)] by (simp add: InitAccept_def new_async_server_def)
  moreover have "async_inv AsyncTCPClient" by (rule async.inv_init) simp
  ultimately show ?thesis using s(2,3)
    by (simp add: system_ok_def services_ok_def sessions_ok_def lines_ok_def reports_ok_def call_view_def AsyncTCPClient_def)
qed

text \<open>The counts are what the invariant says they are.\<close>

lemma executions_view:
  assumes ok: "system_ok s"
  shows "executions s i = (if executed_for s i then 1 else 0)"
proof -
  let ?ls = "filter (\<lambda>l. caller l = i) (lines s)"
  have runs: "runs_for (server_side s) l = (if served_by (server_side s) l then 1 else 0)" if "l \<in> set (lines s)" for l
  proof -
    have "k < length (services (server_side s))" if "callee l = Some k" for k
      using that \<open>l \<in> set (lines s)\<close> system_okD(3) [OF ok]
      by (fastforce simp: lines_ok_def list_all_iff line_ok_def back_ok_def)
    then show ?thesis
      using services_okD(2) [OF system_okD(2) [OF ok]]
      by (fastforce simp: runs_for_def served_by_def response_ok_def split: option.split)
  qed
  have "distinct ?ls" "l = l'" if "l \<in> set ?ls" "l' \<in> set ?ls" for l l'
    using that same_caller [OF ok] system_okD(3) [OF ok] by (auto simp: lines_ok_def distinct_map)
  then consider "?ls = []" | l where "?ls = [l]"
    by (metis distinct.simps(2) list.set_intros neq_Nil_conv)
  then show ?thesis
  proof cases
    case 1
    then have "\<not> executed_for s i" by (auto simp: executed_for_def list_ex_iff filter_empty_conv)
    then show ?thesis using 1 by (simp add: executions_def)
  next
    case (2 l)
    then have l: "l \<in> set (lines s)" "caller l = i" using filter_eq_ConsD [OF 2] by auto
    then have "executed_for s i \<longleftrightarrow> served_by (server_side s) l"
      using same_caller [OF ok] by (auto simp: executed_for_def list_ex_iff)
    then show ?thesis using 2 runs [OF l(1)] by (simp add: executions_def)
  qed
qed

lemma remote_calls_view:
  assumes ok: "system_ok s"
  shows "remote_calls s = call_view s"
proof -
  have "reports_to (caller_side s) i = told (reported_to (caller_side s) i)" if "i < length (sessions (caller_side s))" for i
  proof -
    have "length (calls_of i (caller_side s)) \<le> 1"
      using system_okD(1) [OF ok] that by (simp add: sessions_ok_def async_inv_def calls_ok_def)
    then show ?thesis by (cases "calls_of i (caller_side s)") (auto simp: reports_to_def reported_to_def)
  qed
  then show ?thesis by (simp add: remote_calls_def call_view_def executions_view [OF ok])
qed

lemma calls_moves:
  assumes "system_ok s" "failed aborted" "call_step aborted s t"
  shows "system_ok t \<and> remote_step\<^sup>=\<^sup>= (remote_calls s) (remote_calls t)"
  using call_moves [OF assms] by (simp add: remote_calls_view assms(1))

interpretation calls: simulation calls_start "call_step aborted" "\<lambda>cs. cs = []" remote_step
  "\<lambda>s cs. failed aborted \<longrightarrow> system_ok s \<and> cs = remote_calls s" for aborted
proof unfold_locales
  show "calls_start c \<Longrightarrow> \<exists>a. a = [] \<and> (failed aborted \<longrightarrow> system_ok c \<and> a = remote_calls c)" for c
    using calls_start_ok [of c] by (simp add: remote_calls_view)
next
  fix c a d
  assume a: "failed aborted \<longrightarrow> system_ok c \<and> a = remote_calls c" and st: "call_step aborted c d"
  show "\<exists>b. remote_step\<^sup>*\<^sup>* a b \<and> (failed aborted \<longrightarrow> system_ok d \<and> b = remote_calls d)"
  proof (cases "failed aborted")
    case True
    with a calls_moves [OF _ True st] have "system_ok d" "remote_step\<^sup>=\<^sup>= a (remote_calls d)" by simp_all
    then show ?thesis by (intro exI [of _ "remote_calls d"]) auto
  qed auto
qed

section \<open>Nothing fails\<close>

text \<open>The runs in which the only call of the user is the request.\<close>

inductive calm_step :: "error_code \<Rightarrow> call_system \<Rightarrow> call_system \<Rightarrow> bool" for aborted where
  smooth: "smooth_step aborted s t \<Longrightarrow> calm_step aborted s t"
| request: "EmulateLongComputationOp d address open_error rid (caller_side s) = Inr c \<Longrightarrow>
    calm_step aborted s (s\<lparr>caller_side := c\<rparr>)"

definition client_calm :: "async_client \<Rightarrow> bool" where
  "client_calm c \<longleftrightarrow> m_thread c \<and> list_all (\<lambda>v. \<not> m_was_canceled v) (sessions c) \<and>
     (\<forall>i < length (sessions c). \<forall>e. reported_to c i \<noteq> Some (Inl e))"

definition server_calm :: "async_server \<Rightarrow> bool" where
  "server_calm r \<longleftrightarrow> acceptor_open r \<and> ioc_runs r \<and> \<not> is_stopped r"

definition line_calm :: "async_server \<Rightarrow> tcp_line \<Rightarrow> bool" where
  "line_calm r l \<longleftrightarrow> (case callee l of None \<Rightarrow> True
     | Some k \<Rightarrow> svc_deleted (services r ! k) \<longrightarrow> replied l = length response_text)"

definition calm :: "call_system \<Rightarrow> bool" where
  "calm s \<longleftrightarrow> system_ok s \<and> client_calm (caller_side s) \<and> server_calm (server_side s) \<and>
     list_all (line_calm (server_side s)) (lines s)"

lemma calm_ok: "calm s \<Longrightarrow> system_ok s"
  by (simp add: calm_def)

lemma client_calm_event:
  assumes ok: "system_ok s" and calm: "client_calm (caller_side s)" and ab: "failed aborted"
    and i: "i < length (sessions (caller_side s))" and st: "in_flight (sessions (caller_side s) ! i) = Some st"
    and ec: "\<not> failed ec"
  shows "client_calm (io_event aborted i ec bs (caller_side s))"
proof -
  let ?c = "caller_side s"
  have quiet: "\<not> m_was_canceled (sessions ?c ! i)" using calm i by (simp add: client_calm_def list_all_length)
  show ?thesis
    using i st ab
  proof (cases rule: io_event_moves [where ec = ec and bs = bs])
    case goes
    let ?d = "set_session i ((sessions ?c ! i)\<lparr>in_flight := Some (following st)\<rparr>) ?c"
    have "reported_to ?d = reported_to ?c" by (rule reported_to_same) simp
    then show ?thesis using calm quiet goes(4) by (simp add: client_calm_def list_all_length nth_update_if)
  next
    case (fails v)
    then show ?thesis using ec quiet by simp
  next
    case (answered v)
    note d = answered(1) [unfolded over_def completed_def]
    have inv: "async_inv ?c" and ready: "session_ready (sessions ?c ! i)"
      using system_okD(1) [OF ok] i by (simp_all add: sessions_ok_def list_all_length)
    have "\<not> failed (outcome aborted v)"
      using ready st answered(5) quiet d by (simp add: session_ready_def outcome_def)
    then have "reported_to (io_event aborted i ec bs ?c) = (reported_to ?c)(i := Some (Inr (m_response v)))"
      using reported_to_over(2) [OF inv i _ answered(1)] st by simp
    then show ?thesis using calm quiet d by (simp add: client_calm_def list_all_length nth_update_if)
  qed
qed

lemma client_calm_request:
  assumes ok: "system_ok s" and calm: "client_calm (caller_side s)"
    and c: "EmulateLongComputationOp d address open_error rid (caller_side s) = Inr c"
  shows "client_calm c"
proof -
  from c obtain v where v: "sessions c = sessions (caller_side s) @ [v]" "\<not> m_was_canceled v"
    "calls c = calls (caller_side s)" "m_thread c = m_thread (caller_side s)"
    by (auto simp: EmulateLongComputationOp_def rbind_Inr_iff new_session_def Let_def split: option.splits)
  have "calls_of (length (sessions (caller_side s))) c = []"
    using system_okD(1) [OF ok] v(3)
    by (auto simp: sessions_ok_def async_inv_def calls_ok_def calls_of_def filter_empty_conv)
  then have "reported_to c (length (sessions (caller_side s))) = None" by (simp add: reported_to_def)
  then show ?thesis
    using calm v reported_to_same [OF v(3)] by (auto simp: client_calm_def less_Suc_eq)
qed

lemma line_calm_put:
  assumes "list_all (line_calm r) ls" "line_calm r l"
  shows "list_all (line_calm r) (ls[j := l])"
  using assms by (simp add: list_all_length nth_update_if)

lemma line_calm_new [simp]: "line_calm r (new_line i)"
  by (simp add: line_calm_def new_line_def)

lemma line_calm_same: "replied l' = replied l \<Longrightarrow> callee l' = callee l \<Longrightarrow> line_calm r l \<Longrightarrow> line_calm r l'"
  by (cases "callee l") (simp_all add: line_calm_def)

text \<open>A service that goes on; only the one whose response was sent is deleted.\<close>

lemma server_calm_event:
  assumes ok: "system_ok s" and calm: "calm s" and j: "j < length (lines s)" "callee (lines s ! j) = Some k"
    and p: "p \<in> set (svc_ops (service_at s k))" and e: "svc_event k p no_error bs (server_side s) = Inr (Some r)"
    and sent: "p \<noteq> Read_request \<Longrightarrow> replied (lines s ! j) = length response_text"
  shows "server_calm r \<and> list_all (line_calm r) (lines s)"
proof -
  have k: "k < length (services (server_side s))" by (rule line_facts(4) [OF ok j])
  have only: "l = lines s ! j" if "l \<in> set (lines s)" "callee l = Some k" for l
    using that system_okD(3) [OF ok] j by (auto simp: lines_ok_def in_set_conv_nth)
  obtain w where w: "r = (server_side s)\<lparr>services := (services (server_side s))[k := w]\<rparr>"
    "svc_deleted w \<longrightarrow> replied (lines s ! j) = length response_text"
    by (rule svc_event_moves [OF services_okD [OF system_okD(2) [OF ok] k] p [unfolded service_at_def] e])
      (use sent in \<open>auto simp: no_error_def failed_def\<close>)
  have "line_calm r l" if l: "l \<in> set (lines s)" for l
  proof (cases "callee l = Some k")
    case True
    then show ?thesis using only [OF l True] w k by (simp add: line_calm_def)
  next
    case False
    then have "line_calm (server_side s) l" using calm l by (simp add: calm_def list_all_iff)
    with False w(1) show ?thesis by (auto simp: line_calm_def split: option.splits)
  qed
  moreover have "server_calm r" using calm w(1) by (simp add: calm_def server_calm_def ioc_runs_def)
  ultimately show ?thesis by (simp add: list_all_iff)
qed

lemma smooth_keeps_calm:
  assumes calm: "calm s" and ab: "failed aborted" and st: "smooth_step aborted s t"
  shows "calm t"
proof -
  have ok: "system_ok s" and c: "client_calm (caller_side s)" and r: "server_calm (server_side s)"
    and l: "list_all (line_calm (server_side s)) (lines s)" using calm by (simp_all add: calm_def)
  have t: "system_ok t" using smooth_moves [OF ok ab st] by blast
  note put = line_calm_put [OF l]
  have line: "line_calm (server_side s) (lines s ! j)" if "j < length (lines s)" for j
    using l that by (simp add: list_all_length)
  from st show ?thesis
  proof cases
    case (connects i)
    then show ?thesis using t r l client_calm_event [OF ok c ab connects(3,4), of no_error]
      by (simp add: calm_def no_error_def failed_def)
  next
    case (sends j la)
    then have "line_calm (server_side s) (la\<lparr>pushed := Suc (pushed la), on_way := on_way la @ [m_request (session_at s la) ! pushed la]\<rparr>)"
      by (intro line_calm_same [OF _ _ line]) simp_all
    then show ?thesis using t c r put sends(1) by (simp add: calm_def)
  next
    case (wrote j la)
    have "caller la < length (sessions (caller_side s))" using line_facts(1) [OF ok wrote(3)] wrote(4) by simp
    from client_calm_event [OF ok c ab this wrote(5) [unfolded session_at_def], of no_error] t r l wrote(1)
    show ?thesis by (simp add: calm_def no_error_def failed_def)
  next
    case (accepts j)
    define r' where "r' = OnAccept no_error ((server_side s)\<lparr>accepting_ops := accepting_ops (server_side s) - 1\<rparr>)"
    have sv: "services r' = services (server_side s) @ [StartHandling]"
      by (simp add: r'_def OnAccept_services no_error_def failed_def)
    have "line_calm r' la" if "la \<in> set (lines s)" for la
    proof (cases "callee la")
      case (Some k)
      then have "k < length (services (server_side s))"
        using that line_facts(4) [OF ok] by (auto simp: in_set_conv_nth)
      then show ?thesis using l that Some sv by (auto simp: line_calm_def list_all_iff nth_append)
    qed (simp add: line_calm_def)
    then have "list_all (line_calm r') ((lines s)[j := (lines s ! j)\<lparr>callee := Some (length (services (server_side s)))\<rparr>])"
      by (intro line_calm_put) (simp_all add: list_all_iff line_calm_def sv StartHandling_def nth_append)
    moreover have "server_calm r'" using r by (simp add: r'_def server_calm_def OnAccept_def InitAccept_def ioc_runs_def Let_def)
    ultimately show ?thesis using t c accepts(1) unfolding r'_def [symmetric] by (simp add: calm_def)
  next
    case (hears j la k b bs)
    then have "line_calm (server_side s) (la\<lparr>heard := heard la @ [b], on_way := bs\<rparr>)"
      by (intro line_calm_same [OF _ _ line]) simp_all
    then show ?thesis using t c r put hears(1) by (simp add: calm_def)
  next
    case (received j la k ra)
    then show ?thesis using server_calm_event [OF ok calm received(3) _ received(6,8)] t c by (simp add: calm_def)
  next
    case (replies j la k w)
    have "\<not> svc_deleted (services (server_side s) ! k)"
      using in_use(3) [OF ok replies(2), of k] replies(3-5) by (simp add: service_at_def)
    then have "line_calm (server_side s) (la\<lparr>replied := Suc (replied la), on_return := on_return la @ [w ! replied la]\<rparr>)"
      using replies(4) by (simp add: line_calm_def)
    then show ?thesis using t c r put replies(1) by (simp add: calm_def)
  next
    case (responded j la k w ra)
    then have "w = response_text" using in_use(1) [OF ok responded(3), of k "Write_response w"] by (simp split: if_splits)
    then show ?thesis using server_calm_event [OF ok calm responded(3) _ responded(6,8)] responded t c by (simp add: calm_def)
  next
    case (gathers j la b bs)
    then have "line_calm (server_side s) (la\<lparr>gathered := gathered la @ [b], on_return := bs\<rparr>)"
      by (intro line_calm_same [OF _ _ line]) simp_all
    then show ?thesis using t c r put gathers(1) by (simp add: calm_def)
  next
    case (reads j la)
    have "caller la < length (sessions (caller_side s))" using line_facts(1) [OF ok reads(3)] reads(4) by simp
    from client_calm_event [OF ok c ab this reads(5) [unfolded session_at_def], of no_error] t r l reads(1)
    show ?thesis by (simp add: calm_def no_error_def failed_def)
  qed
qed

lemma calm_step_keeps:
  assumes "calm s" "failed aborted" "calm_step aborted s t"
  shows "calm t"
  using assms(3)
proof cases
  case smooth
  then show ?thesis by (rule smooth_keeps_calm [OF assms(1,2)])
next
  case (request d address open_error rid c)
  then show ?thesis using request_moves [of s d address open_error rid c] client_calm_request [of s d address open_error rid c] assms(1)
    by (simp add: calm_def)
qed

lemma calls_start_calm: "calls_start s \<Longrightarrow> calm s"
proof -
  assume s: "calls_start s"
  then obtain n where n: "StartServer n new_async_server = Inr (server_side s)" "caller_side s = AsyncTCPClient" "lines s = []"
    by (auto simp: calls_start_def)
  then have "0 < n" by (auto simp: StartServer_def split: if_splits)
  then have "server_calm (server_side s)"
    using StartServer_Inr [OF n(1)] by (simp add: server_calm_def ioc_runs_def InitAccept_def new_async_server_def)
  with calls_start_ok [OF s] n(2,3) show ?thesis by (simp add: calm_def client_calm_def AsyncTCPClient_def)
qed

interpretation calm: invariant_system calls_start "calm_step aborted" "\<lambda>s. failed aborted \<longrightarrow> calm s" for aborted
  by unfold_locales (auto intro: calls_start_calm calm_step_keeps)

section \<open>The steps left\<close>

definition session_left :: "session \<Rightarrow> nat" where
  "session_left v = (case in_flight v of
     None \<Rightarrow> 0 | Some Connecting \<Rightarrow> 24 + 2 * length (m_request v) | Some Writing \<Rightarrow> 2 | Some Reading \<Rightarrow> 1)"

definition service_left :: "service list \<Rightarrow> tcp_line \<Rightarrow> nat" where
  "service_left ws l = (case callee l of
     None \<Rightarrow> 3
   | Some k \<Rightarrow> if svc_deleted (ws ! k) then 0 else if svc_response (ws ! k) = [] then 2 else 1)"

definition line_left :: "string list \<Rightarrow> service list \<Rightarrow> tcp_line \<Rightarrow> nat" where
  "line_left texts ws l = 2 * (length (texts ! caller l) - pushed l) + length (on_way l) + service_left ws l +
     2 * (length response_text - replied l) + length (on_return l)"

definition work_left :: "call_system \<Rightarrow> nat" where
  "work_left s = sum_list (map session_left (sessions (caller_side s))) +
     sum_list (map (line_left (map m_request (sessions (caller_side s))) (services (server_side s))) (lines s))"

lemma sum_list_less:
  fixes f g :: "'b \<Rightarrow> nat"
  assumes "\<And>x. x \<in> set xs \<Longrightarrow> f x \<le> g x" "y \<in> set xs" "f y < g y"
  shows "sum_list (map f xs) < sum_list (map g xs)"
  using assms
proof (induction xs)
  case (Cons x xs)
  have le: "sum_list (map f xs) \<le> sum_list (map g xs)" using Cons.prems(1) by (intro sum_list_mono) simp
  show ?case
  proof (cases "y \<in> set xs")
    case True
    with Cons show ?thesis by (simp add: add_le_less_mono)
  next
    case False
    with Cons.prems le show ?thesis by (simp add: add_less_le_mono)
  qed
qed simp

lemma byte_left:
  assumes "j < length (lines s)"
    "line_left (map m_request (sessions (caller_side s))) (services (server_side s)) l <
      line_left (map m_request (sessions (caller_side s))) (services (server_side s)) (lines s ! j)"
  shows "work_left (put_line j l s) < work_left s"
  using sum_list_decrease [OF assms(1), of "line_left (map m_request (sessions (caller_side s))) (services (server_side s))" l] assms(2)
  by (simp add: work_left_def)

lemma client_left:
  assumes ok: "system_ok s" and ab: "failed aborted" and i: "i < length (sessions (caller_side s))"
    and st: "in_flight (sessions (caller_side s) ! i) = Some st"
    and ls: "ls = (if st = Connecting then [new_line i] else [])"
  shows "work_left (s\<lparr>caller_side := io_event aborted i no_error bs (caller_side s), lines := lines s @ ls\<rparr>) < work_left s"
proof -
  let ?v = "sessions (caller_side s) ! i" and ?c = "io_event aborted i no_error bs (caller_side s)"
  obtain w where w: "sessions ?c = (sessions (caller_side s))[i := w]" "m_request w = m_request ?v"
    "in_flight w = None \<or> st \<noteq> Reading \<and> in_flight w = Some (following st)"
    using i st ab
  proof (cases rule: io_event_moves [where ec = no_error and bs = bs])
    case goes
    then show thesis using that [of "?v\<lparr>in_flight := Some (following st)\<rparr>"] by simp
  next
    case (fails v)
    then show thesis using that [of v] by (simp add: over_def completed_def)
  next
    case (answered v)
    then show thesis using that [of v] by (simp add: over_def completed_def)
  qed
  have texts: "map m_request ((sessions (caller_side s))[i := w]) = map m_request (sessions (caller_side s))"
    using w(2) by (simp add: map_update_same)
  have less: "session_left w + sum_list (map (line_left (map m_request (sessions (caller_side s))) ws) ls) < session_left ?v" for ws
    using w(2,3) st ls i
    by (cases st) (auto simp: session_left_def line_left_def service_left_def new_line_def response_text_def)
  have "sum_list (map session_left ((sessions (caller_side s))[i := w])) + session_left ?v =
      sum_list (map session_left (sessions (caller_side s))) + session_left w"
    by (rule sum_list_replace [OF i])
  then show ?thesis using less [of "services (server_side s)"] w(1) by (simp add: work_left_def texts)
qed

lemma service_left_event:
  assumes ok: "system_ok s" and j: "j < length (lines s)" "callee (lines s ! j) = Some k"
    and p: "p \<in> set (svc_ops (service_at s k))" and e: "svc_event k p no_error bs (server_side s) = Inr (Some r)"
  shows "work_left (s\<lparr>server_side := r\<rparr>) < work_left s"
proof -
  have k: "k < length (services (server_side s))" by (rule line_facts(4) [OF ok j])
  have live: "\<not> svc_deleted (services (server_side s) ! k)" using in_use(3) [OF ok j p] by (simp add: service_at_def)
  obtain w where w: "services r = (services (server_side s))[k := w]"
    "svc_deleted w \<or> svc_response w \<noteq> [] \<and> svc_response (services (server_side s) ! k) = []"
    by (rule svc_event_moves [OF services_okD [OF system_okD(2) [OF ok] k] p [unfolded service_at_def] e]) auto
  have "sum_list (map (line_left texts (services r)) (lines s)) <
      sum_list (map (line_left texts (services (server_side s))) (lines s))" for texts
  proof (rule sum_list_less [OF _ nth_mem [OF j(1)]])
    show "line_left texts (services r) l \<le> line_left texts (services (server_side s)) l" for l
      using w live k by (cases "callee l = Some k")
        (auto simp: line_left_def service_left_def split: option.split)
    show "line_left texts (services r) (lines s ! j) < line_left texts (services (server_side s)) (lines s ! j)"
      using w live k j(2) by (auto simp: line_left_def service_left_def)
  qed
  then show ?thesis by (simp add: work_left_def)
qed

lemma smooth_decreases:
  assumes ok: "system_ok s" and ab: "failed aborted" and st: "smooth_step aborted s t"
  shows "work_left t < work_left s"
  using st
proof cases
  case (connects i)
  then show ?thesis using client_left [OF ok ab connects(3,4)] by simp
next
  case (sends j l)
  have "caller l < length (sessions (caller_side s))" using line_facts(1) [OF ok sends(2)] sends(3) by simp
  then show ?thesis unfolding sends(1)
    by (intro byte_left) (use sends in \<open>auto simp: line_left_def service_left_def session_at_def split: option.split\<close>)
next
  case (wrote j l)
  have "caller l < length (sessions (caller_side s))" using line_facts(1) [OF ok wrote(3)] wrote(4) by simp
  from client_left [OF ok ab this wrote(5) [unfolded session_at_def], of "[]"] wrote(1) show ?thesis by simp
next
  case (accepts j)
  let ?r = "OnAccept no_error ((server_side s)\<lparr>accepting_ops := accepting_ops (server_side s) - 1\<rparr>)"
  let ?l = "(lines s ! j)\<lparr>callee := Some (length (services (server_side s)))\<rparr>"
  have sv: "services ?r = services (server_side s) @ [StartHandling]"
    by (simp add: OnAccept_services no_error_def failed_def del: One_nat_def)
  have old: "line_left texts (services ?r) l = line_left texts (services (server_side s)) l" if "l \<in> set (lines s)" for l texts
  proof (cases "callee l")
    case (Some k)
    then have "k < length (services (server_side s))" using that line_facts(4) [OF ok] by (auto simp: in_set_conv_nth)
    then show ?thesis using Some unfolding sv by (simp add: line_left_def service_left_def nth_append)
  qed (simp add: line_left_def service_left_def)
  have "line_left texts (services ?r) ?l < line_left texts (services ?r) (lines s ! j)" for texts
    using accepts(5) unfolding sv by (simp add: line_left_def service_left_def StartHandling_def nth_append)
  then have "sum_list (map (line_left texts (services ?r)) ((lines s)[j := ?l])) <
      sum_list (map (line_left texts (services (server_side s))) (lines s))" for texts
    using sum_list_decrease [OF accepts(4), of "line_left texts (services ?r)" ?l] old [of _ texts]
    by (simp cong: map_cong del: One_nat_def)
  then show ?thesis unfolding accepts(1) by (simp add: work_left_def del: One_nat_def)
next
  case (hears j l k b bs)
  then show ?thesis unfolding hears(1)
    by (intro byte_left) (auto simp: line_left_def service_left_def)
next
  case (received j l k r)
  then show ?thesis using service_left_event [OF ok received(3) _ received(6,8)] by simp
next
  case (replies j l k w)
  then have "w = response_text" using in_use(1) [OF ok replies(2), of k "Write_response w"] by (simp split: if_splits)
  then show ?thesis using replies unfolding replies(1)
    by (intro byte_left) (auto simp: line_left_def service_left_def)
next
  case (responded j l k w r)
  then show ?thesis using service_left_event [OF ok responded(3) _ responded(6,8)] by simp
next
  case (gathers j l b bs)
  then show ?thesis unfolding gathers(1)
    by (intro byte_left) (auto simp: line_left_def service_left_def split: option.split)
next
  case (reads j l)
  have "caller l < length (sessions (caller_side s))" using line_facts(1) [OF ok reads(3)] reads(4) by simp
  from client_left [OF ok ab this reads(5) [unfolded session_at_def], of "[]"] reads(1) show ?thesis by simp
qed

section \<open>Progress\<close>

lemma first_index:
  assumes "j < length xs" "P (xs ! j)"
  obtains m where "m < length xs" "P (xs ! m)" "list_all (\<lambda>x. \<not> P x) (take m xs)"
proof -
  define m where "m = (LEAST m. m < length xs \<and> P (xs ! m))"
  have "m < length xs \<and> P (xs ! m)" unfolding m_def by (rule LeastI [of _ j]) (use assms in simp)
  moreover have "\<not> P (xs ! n)" if "n < m" for n
    using not_less_Least [of n "\<lambda>m. m < length xs \<and> P (xs ! m)"] that calculation by (auto simp: m_def)
  ultimately show thesis by (intro that [of m]) (auto simp: list_all_length)
qed

lemma newline_ends: "newline \<in> set (request_text d)" "newline \<in> set response_text"
  by (simp_all add: request_text_def response_text_def)

text \<open>A service that is not deleted can take the next of its steps.\<close>

lemma service_goes_on:
  assumes ok: "system_ok s" and calm: "server_calm (server_side s)" and j: "j < length (lines s)"
    and k: "callee (lines s ! j) = Some k" and live: "\<not> svc_deleted (service_at s k)"
    and sent: "pushed (lines s ! j) = length (m_request (session_at s (lines s ! j)))"
  shows "\<exists>t. smooth_step aborted s t"
proof -
  let ?l = "lines s ! j" and ?w = "service_at s k" and ?r = "server_side s"
  note f = line_facts [OF ok j]
  have k': "k < length (services ?r)" by (rule f(4) [OF k])
  have io: "ioc_runs ?r" using calm by (simp add: server_calm_def)
  have all: "list_all service_ok (services ?r)" using system_okD(2) [OF ok] by (simp add: services_ok_def async_server_ok_def)
  have ops: "svc_ops ?w = [if svc_response ?w = [] then Read_request else Write_response response_text]"
    using services_okD(2) [OF system_okD(2) [OF ok] k'] live by (simp add: response_ok_def service_at_def)
  have runs: "\<exists>r. svc_event k p no_error bs ?r = Inr (Some r)" if "p \<in> set (svc_ops ?w)" for p bs
    using svc_event_ok [OF all k', of p no_error bs] that by (auto simp: service_at_def)
  show ?thesis
  proof (cases "svc_response ?w = []")
    case True
    then have p: "Read_request \<in> set (svc_ops ?w)" using ops by simp
    show ?thesis
    proof (cases "on_way ?l")
      case Nil
      then have "heard ?l = m_request (session_at s ?l)" using f(2) sent by (simp add: out_ok_def)
      moreover obtain d where "m_request (session_at s ?l) = request_text d"
        using system_okD(1) [OF ok] f(1) by (auto simp: sessions_ok_def list_all_length session_ready_def session_at_def)
      ultimately have "newline \<in> set (heard ?l)" by (simp add: newline_ends)
      then show ?thesis using smooth_step.received [OF io j refl k p] runs [OF p] by blast
    next
      case (Cons b bs)
      from smooth_step.hears [OF j refl k p this] show ?thesis by blast
    qed
  next
    case False
    then have p: "Write_response response_text \<in> set (svc_ops ?w)" using ops by simp
    have "replied ?l \<le> length response_text" using f(3) by (simp add: back_ok_def)
    obtain r where "svc_event k (Write_response response_text) no_error [] ?r = Inr (Some r)" using runs [OF p] by blast
    with \<open>replied ?l \<le> length response_text\<close> show ?thesis
      using smooth_step.replies [OF j refl k p] smooth_step.responded [OF io j refl k p]
      by (cases "replied ?l = length response_text") (auto simp: le_less)
  qed
qed

lemma calm_goes_on:
  assumes calm: "calm s" and i: "i < length (sessions (caller_side s))"
    and st: "in_flight (sessions (caller_side s) ! i) = Some st"
  shows "\<exists>t. smooth_step aborted s t"
proof -
  have ok: "system_ok s" and c: "client_calm (caller_side s)" and r: "server_calm (server_side s)"
    and l: "list_all (line_calm (server_side s)) (lines s)" using calm by (simp_all add: calm_def)
  have thread: "m_thread (caller_side s)" using c by (simp add: client_calm_def)
  show ?thesis
  proof (cases "st = Connecting")
    case True
    then show ?thesis using smooth_step.connects [OF thread i] st r by (auto simp: server_calm_def)
  next
    case False
    then have "i \<in> caller ` set (lines s)"
      using system_okD(3) [OF ok] i st by (cases st) (simp_all add: lines_ok_def)
    then obtain j where j: "j < length (lines s)" "caller (lines s ! j) = i" by (auto simp: in_set_conv_nth)
    let ?l = "lines s ! j"
    note f = line_facts [OF ok j(1)]
    have at: "in_flight (session_at s ?l) = Some st" using st j(2) by (simp add: session_at_def)
    show ?thesis
    proof (cases st)
      case Connecting
      then show ?thesis using False by simp
    next
      case Writing
      have "pushed ?l \<le> length (m_request (session_at s ?l))" using f(2) by (simp add: out_ok_def)
      then show ?thesis
        using smooth_step.sends [OF j(1) refl] smooth_step.wrote [OF thread j(1) refl] at Writing
        by (cases "pushed ?l = length (m_request (session_at s ?l))") (auto simp: le_less)
    next
      case Reading
      then have sent: "pushed ?l = length (m_request (session_at s ?l))" using f(2) at by (simp add: out_ok_def)
      consider "newline \<in> set (gathered ?l)" | b bs where "on_return ?l = b # bs"
        | "newline \<notin> set (gathered ?l)" "on_return ?l = []" by (cases "on_return ?l") auto
      then show ?thesis
      proof cases
        case 1
        then show ?thesis using smooth_step.reads [OF thread j(1) refl] at Reading by blast
      next
        case 2
        then show ?thesis using smooth_step.gathers [OF j(1) refl] at Reading by blast
      next
        case 3
        have "gathered ?l = take (replied ?l) response_text" using f(3) 3(2) by (simp add: back_ok_def)
        then have more: "replied ?l \<noteq> length response_text" using 3(1) newline_ends(2) by auto
        show ?thesis
        proof (cases "callee ?l")
          case None
          obtain m where m: "m < length (lines s)" "callee (lines s ! m) = None"
            "list_all (\<lambda>x. callee x \<noteq> None) (take m (lines s))"
            by (rule first_index [of j "lines s" "\<lambda>x. callee x = None"]) (use j(1) None in auto)
          have "0 < accepting_ops (server_side s)" "ioc_runs (server_side s)"
            using system_okD(2) [OF ok] r by (simp_all add: services_ok_def async_server_ok_def server_calm_def split: if_splits)
          then show ?thesis using smooth_step.accepts [OF _ _ m] by blast
        next
          case (Some k)
          have "line_calm (server_side s) ?l" using l j(1) by (simp add: list_all_length)
          then have "\<not> svc_deleted (service_at s k)" using more Some by (simp add: line_calm_def service_at_def)
          then show ?thesis by (rule service_goes_on [OF ok r j(1) Some _ sent])
        qed
      qed
    qed
  qed
qed

lemma all_answered:
  assumes calm: "calm s" and stuck: "\<not> (\<exists>t. smooth_step aborted s t)"
  shows "list_all (\<lambda>x. x = \<lparr>executed = 1, reported = [Inr ''Response'']\<rparr>) (remote_calls s)"
proof -
  have ok: "system_ok s" and c: "client_calm (caller_side s)" using calm by (simp_all add: calm_def)
  have "reported_to (caller_side s) i = Some (Inr ''Response'') \<and> executed_for s i"
    if i: "i < length (sessions (caller_side s))" for i
  proof -
    have "in_flight (sessions (caller_side s) ! i) = None" using calm_goes_on [OF calm i] stuck by (cases "in_flight (sessions (caller_side s) ! i)") auto
    then have "length (calls_of i (caller_side s)) = 1"
      using system_okD(1) [OF ok] i by (simp add: sessions_ok_def async_inv_def calls_ok_def)
    then have "reported_to (caller_side s) i \<noteq> None"
      by (auto simp: reported_to_def split: list.splits prod.splits)
    then obtain x where "reported_to (caller_side s) i = Some x" by blast
    moreover have "\<forall>e. reported_to (caller_side s) i \<noteq> Some (Inl e)" using c i by (simp add: client_calm_def)
    ultimately obtain response where "reported_to (caller_side s) i = Some (Inr response)" by (cases x) auto
    then show ?thesis using system_okD(4) [OF ok] i by (auto simp: reports_ok_def)
  qed
  then show ?thesis by (simp add: remote_calls_view [OF ok] call_view_def list_all_length)
qed

interpretation smooth: terminating_system "smooth_step aborted" "\<lambda>s. failed aborted \<and> calm s" work_left for aborted
  by unfold_locales (blast intro: smooth_keeps_calm smooth_decreases calm_ok)+

section \<open>Properties\<close>

text \<open>
  C7: The asynchronous client and the asynchronous server over TCP implement remote calls that are
  executed at most once, step by step: whatever fails, is cancelled or stopped and whatever other
  clients do, every step changes the counts of executions and the lists of reports by one step of the
  specification or not at all. So \<open>ProcessRequest\<close> runs at most once for a request, its callback is
  called at most once, and a success is reported only after the execution and with the response.
\<close>

theorem calls_implemented:
  assumes "failed aborted" "calls_start s0" "(call_step aborted)\<^sup>*\<^sup>* s0 s" "call_step aborted s t"
  shows "remote_step\<^sup>*\<^sup>* [] (remote_calls s) \<and> remote_step\<^sup>=\<^sup>= (remote_calls s) (remote_calls t)"
proof -
  from calls.rel_reachable [OF assms(2,3)] assms(1) have s: "system_ok s" "remote_step\<^sup>*\<^sup>* [] (remote_calls s)" by auto
  with calls_moves [OF s(1) assms(1,4)] show ?thesis by blast
qed

text \<open>
  C6: As long as nothing fails and nothing is cancelled or stopped, every request is answered: after
  the last request at most \<open>work_left\<close> more steps happen, and when none is left every request was
  executed and reported with the response.
\<close>

theorem requests_answered:
  assumes "failed aborted" "calls_start s0" "(calm_step aborted)\<^sup>*\<^sup>* s0 s" "(smooth_step aborted ^^ n) s t"
  shows "n \<le> work_left s \<and> ((\<exists>u. smooth_step aborted t u) \<or>
    list_all (\<lambda>x. x = \<lparr>executed = 1, reported = [Inr ''Response'']\<rparr>) (remote_calls t))"
proof -
  have "calm s" using calm.inv_reachable [OF assms(2,3)] assms(1) by simp
  then have "calm t" "n + work_left t \<le> work_left s" using smooth.steps_bounded [OF assms(4)] assms(1) by blast+
  then show ?thesis using all_answered [of t aborted] by auto
qed

text \<open>Two requests to a server with a pool of two threads.\<close>

definition calls_idle :: call_system where
  "calls_idle = \<lparr>caller_side = AsyncTCPClient,
     server_side = (InitAccept (new_async_server\<lparr>acceptor_open := True\<rparr>))\<lparr>thread_pool := 2\<rparr>, lines = []\<rparr>"

definition issue :: "u32 \<Rightarrow> u32 \<Rightarrow> call_system \<Rightarrow> call_system" where
  "issue d rid s = s\<lparr>caller_side := case EmulateLongComputationOp d (Inr 0) None rid (caller_side s) of
     Inr c \<Rightarrow> c | Inl e \<Rightarrow> caller_side s\<rparr>"

definition two_calls :: call_system where
  "two_calls = issue 11 2 (issue 10 1 calls_idle)"

lemma calls_idle_start: "calls_start calls_idle"
proof -
  have "StartServer 2 new_async_server = Inr (server_side calls_idle)" by (simp add: StartServer_def calls_idle_def)
  then show ?thesis by (auto simp: calls_start_def calls_idle_def)
qed

lemma issue_step: "calm_step aborted s (issue d rid s)"
proof -
  obtain c where "EmulateLongComputationOp d (Inr 0) None rid (caller_side s) = Inr c"
    by (simp add: EmulateLongComputationOp_def Let_def)
  then show ?thesis using calm_step.request [of d "Inr 0" None rid s c aborted] by (simp add: issue_def)
qed

lemma calm_call: "calm_step aborted s t \<Longrightarrow> call_step aborted s t"
  by (erule calm_step.cases) (auto intro: call_step.intros)

lemma two_calls_run: "(calm_step aborted)\<^sup>*\<^sup>* calls_idle two_calls"
  unfolding two_calls_def by (blast intro: issue_step rtranclp.rtrancl_into_rtrancl)

lemma smooth_sessions:
  assumes "system_ok s" "failed aborted" "smooth_step aborted s t"
  shows "length (remote_calls t) = length (remote_calls s)"
proof -
  have io: "length (sessions (io_event aborted i ec bs c)) = length (sessions c)" for i ec bs c
    by (simp add: io_event_def on_connect_def on_write_def on_read_def go_on_def OnRequestComplete_def Let_def
        split: option.split stage.split prod.split)
  from assms(3) show ?thesis by cases (simp_all add: remote_calls_def io)
qed

lemma smooth_run_sessions:
  "(smooth_step aborted ^^ n) s t \<Longrightarrow> calm s \<Longrightarrow> failed aborted \<Longrightarrow> length (remote_calls t) = length (remote_calls s)"
proof (induction n arbitrary: t)
  case (Suc n)
  then obtain u where u: "(smooth_step aborted ^^ n) s u" "smooth_step aborted u t" by auto
  then have "system_ok u" using smooth.steps_bounded [of n aborted s u] Suc.prems(2,3) by (simp add: calm_def)
  then show ?case using smooth_sessions [OF _ Suc.prems(3) u(2)] Suc.IH [OF u(1) Suc.prems(2,3)] by simp
qed simp

text \<open>The two requests come to their end, and both are answered.\<close>

theorem requests_answered_witness:
  "\<exists>n t. (smooth_step operation_aborted ^^ n) two_calls t \<and> n \<le> work_left two_calls \<and>
    map reported (remote_calls t) = [[Inr ''Response''], [Inr ''Response'']]"
proof -
  let ?a = "operation_aborted"
  have ab: "failed ?a" by (simp add: operation_aborted_def failed_def)
  have calm: "calm two_calls" using calm.inv_reachable [OF calls_idle_start two_calls_run, of ?a] ab by simp
  obtain n t where t: "(smooth_step ?a ^^ n) two_calls t" "\<not> (\<exists>u. smooth_step ?a t u)"
    using smooth.run_to_end [of ?a two_calls] ab calm by blast
  have r: "n \<le> work_left two_calls"
    "list_all (\<lambda>x. x = \<lparr>executed = 1, reported = [Inr ''Response'']\<rparr>) (remote_calls t)"
    using requests_answered [OF ab calls_idle_start two_calls_run t(1)] t(2) by blast+
  have "length (remote_calls t) = 2"
    using smooth_run_sessions [OF t(1) calm ab]
    by (simp add: remote_calls_def two_calls_def issue_def calls_idle_def AsyncTCPClient_def EmulateLongComputationOp_def Let_def)
  then obtain x y where "remote_calls t = [x, y]" by (auto simp: length_Suc_conv numeral_2_eq_2)
  with r t(1) show ?thesis by (intro exI [of _ n] exI [of _ t]) simp
qed

text \<open>A request whose connect is refused.\<close>

definition refused_call :: call_system where
  "refused_call = (issue 10 1 calls_idle)\<lparr>caller_side := io_event operation_aborted 0
     \<lparr>ec_value = 111, ec_category = 0\<rparr> [] (caller_side (issue 10 1 calls_idle))\<rparr>"

theorem calls_implemented_witness:
  "remote_step\<^sup>=\<^sup>= [\<lparr>executed = 0, reported = []\<rparr>] [\<lparr>executed = 0, reported = [Inl \<lparr>ec_value = 111, ec_category = 0\<rparr>]\<rparr>]"
proof -
  let ?a = "operation_aborted" and ?s = "issue 10 1 calls_idle"
  have st: "call_step ?a ?s refused_call"
    unfolding refused_call_def
    by (rule call_step.client_fails) (simp_all add: event_enabled_def failed_def issue_def calls_idle_def AsyncTCPClient_def
        EmulateLongComputationOp_def Let_def)
  have run: "(call_step ?a)\<^sup>*\<^sup>* calls_idle ?s"
    using calm_call [OF issue_step] by (blast intro: rtranclp.rtrancl_into_rtrancl)
  have "remote_calls ?s = [\<lparr>executed = 0, reported = []\<rparr>]"
    "remote_calls refused_call = [\<lparr>executed = 0, reported = [Inl \<lparr>ec_value = 111, ec_category = 0\<rparr>]\<rparr>]"
    by (simp_all add: remote_calls_def refused_call_def issue_def calls_idle_def AsyncTCPClient_def EmulateLongComputationOp_def
        new_session_def io_event_def on_connect_def go_on_def OnRequestComplete_def reports_to_def calls_of_def
        executions_def failed_def Let_def)
  with calls_implemented [OF _ calls_idle_start run st] show ?thesis by (simp add: operation_aborted_def failed_def)
qed

end
