(* ===== verification/Retry_Client.thy ===== *)
theory Retry_Client
  imports Sync_Io Shutdown_Protocol
begin

text \<open>
  What is left of \<open>src/asio-cookbook/ch2_io\<close>: the transfer functions that are one composed operation of
  asio, beside the loops of \<open>Sync_Io\<close>, and the program of \<open>socket_shutdown_client1.cpp\<close>, which tries to
  connect until it succeeds. Shown: the three ways to write a message keep the same contract, and
  when the retrying program comes to an end, with which exit.
\<close>

section \<open>One composed operation\<close>

text \<open>
  \<open>asio::write\<close> and \<open>asio::async_write\<close> on a buffer: the error, if any, and the bytes that went out.
  Asio documents that the operation ends when all of the buffer was written, or with an error.
\<close>

type_synonym composed_write = "string \<Rightarrow> error_code option \<times> string"

locale whole_buffer =
  fixes composed :: composed_write
  assumes transferred: "\<exists>e m. composed b = (e, take m b) \<and> m \<le> length b \<and> (e = None \<longleftrightarrow> m = length b)"
    and error_fails: "composed b = (Some e, sent) \<Longrightarrow> failed e"

definition WriteToSocketEnhanced :: "composed_write \<Rightarrow> error_code option \<times> string" where
  "WriteToSocketEnhanced composed = composed ''Hello''"

text \<open>The asynchronous form: the callback prints an error; its result is the error printed.\<close>

definition CallbackEnhanced :: "error_code \<Rightarrow> nat \<Rightarrow> write_session \<Rightarrow> error_code option" where
  "CallbackEnhanced ec bytes_transfered s = (if ec_value ec \<noteq> 0 then Some ec else None)"

definition async_WriteToSocketEnhanced :: "composed_write \<Rightarrow> error_code option \<times> string" where
  "async_WriteToSocketEnhanced composed =
     (let s = \<lparr>buf = ''Hello'', total_bytes_written = 0\<rparr>
      in case composed (buf s) of
           (None, sent) \<Rightarrow> (CallbackEnhanced no_error (length sent) s, sent)
         | (Some e, sent) \<Rightarrow> (CallbackEnhanced e (length sent) s, sent))"

text \<open>\<open>asio::read\<close> with a buffer of \<open>k\<close> bytes.\<close>

definition ReadFromSocketEnhanced :: "(nat \<Rightarrow> error_code + string) \<Rightarrow> error_code + string" where
  "ReadFromSocketEnhanced composed = composed MESSAGE_SIZE"

text \<open>
  What a function that sends the message promises: it returns, with success exactly when all of it
  went out.
\<close>

locale message_writer =
  fixes written :: "(error_code option \<times> string) option"
  assumes all_or_error: "\<exists>e m. written = Some (e, take m ''Hello'') \<and> m \<le> 5 \<and> (e = None \<longleftrightarrow> m = 5)"
begin

lemma outcome: "\<exists>e sent. written = Some (e, sent) \<and> prefix sent ''Hello'' \<and> (e = None \<longleftrightarrow> sent = ''Hello'')"
proof -
  obtain e m where "written = Some (e, take m ''Hello'')" "m \<le> 5" "e = None \<longleftrightarrow> m = 5" using all_or_error by blast
  moreover have "take m ''Hello'' = ''Hello'' \<longleftrightarrow> 5 \<le> m" by (subst take_all_iff) (simp add: eval_nat_numeral)
  ultimately show ?thesis using take_is_prefix [of m "''Hello''"] by fastforce
qed

end

sublocale stream_socket \<subseteq> loop: message_writer "WriteToSocket sock"
  using write_loop_ok [of 0 "''Hello''" "[]" 0]
  by unfold_locales (simp add: WriteToSocket_def eval_nat_numeral)

sublocale stream_socket \<subseteq> chain: message_writer "run_writes sock 0 async_WriteToSocket []"
  using write_loop_ok [of 0 "''Hello''" "[]" 0] run_writes_eq [of async_WriteToSocket 0 "[]"]
  by unfold_locales (simp add: async_WriteToSocket_def eval_nat_numeral)

context stream_socket
begin

lemma loops_outcome:
  "\<exists>e sent. WriteToSocket sock = Some (e, sent) \<and> prefix sent ''Hello'' \<and> (e = None \<longleftrightarrow> sent = ''Hello'')"
  "\<exists>e sent. run_writes sock 0 async_WriteToSocket [] = Some (e, sent) \<and> prefix sent ''Hello'' \<and>
     (e = None \<longleftrightarrow> sent = ''Hello'')"
  by (rule loop.outcome, rule chain.outcome)

end

sublocale whole_buffer \<subseteq> composed: message_writer "Some (WriteToSocketEnhanced composed)"
  using transferred [of "''Hello''"] by unfold_locales (simp add: WriteToSocketEnhanced_def eval_nat_numeral)

context whole_buffer
begin

lemma composed_outcome:
  "\<exists>e sent. Some (WriteToSocketEnhanced composed) = Some (e, sent) \<and> prefix sent ''Hello'' \<and> (e = None \<longleftrightarrow> sent = ''Hello'')"
  by (rule composed.outcome)

lemma async_same: "async_WriteToSocketEnhanced composed = WriteToSocketEnhanced composed"
proof (cases "composed ''Hello''")
  case (Pair e sent)
  then show ?thesis using error_fails [of "''Hello''"]
    by (cases e) (auto simp: async_WriteToSocketEnhanced_def WriteToSocketEnhanced_def CallbackEnhanced_def no_error_def
        failed_def Let_def)
qed

end

text \<open>A composed write over a socket that takes two bytes at a time, and one that is reset after three bytes.\<close>

definition write_all :: composed_write where
  "write_all b = (None, b)"

definition reset_after_three :: composed_write where
  "reset_after_three b = (if length b \<le> 3 then (None, b) else (Some \<lparr>ec_value = 104, ec_category = 0\<rparr>, take 3 b))"

interpretation all: whole_buffer write_all
  by unfold_locales (auto simp: write_all_def)

interpretation three: whole_buffer reset_after_three
  by unfold_locales (auto simp: reset_after_three_def failed_def split: if_splits intro: exI [of _ 3] exI [of _ "length _"])

text \<open>
  Every way to send the message returns, on any socket that keeps its contract: synchronous and
  asynchronous, as a loop over \<open>write_some\<close> or as one composed operation. It succeeds only when the
  whole message went out; otherwise a first part of it did.
\<close>

theorem writers_agree:
  assumes "stream_socket sock" "whole_buffer composed"
    and "w \<in> {WriteToSocket sock, run_writes sock 0 async_WriteToSocket [], Some (WriteToSocketEnhanced composed),
      Some (async_WriteToSocketEnhanced composed)}"
  shows "\<exists>e sent. w = Some (e, sent) \<and> prefix sent ''Hello'' \<and> (e = None \<longleftrightarrow> sent = ''Hello'')"
  using assms(3) stream_socket.loops_outcome [OF assms(1)] whole_buffer.composed_outcome [OF assms(2)]
    whole_buffer.async_same [OF assms(2)] by auto

theorem writers_agree_witness:
  "\<exists>e sent. Some (WriteToSocketEnhanced reset_after_three) = Some (e, sent) \<and> prefix sent ''Hello'' \<and>
    (e = None \<longleftrightarrow> sent = ''Hello'')"
  by (rule writers_agree [OF two.stream_socket_axioms three.whole_buffer_axioms]) simp

section \<open>The program that tries again\<close>

text \<open>
  \<open>Communicate\<close>: the exceptions of \<open>write\<close> and \<open>shutdown\<close>, if they throw, and the error code and text
  \<open>read\<close> comes to, which ends with \<open>eof\<close> when the server has closed its side. The result is the
  exception, or the lines printed.
\<close>

definition retry_Communicate :: "error_code \<Rightarrow> error_code option \<Rightarrow> error_code option \<Rightarrow> error_code \<times> string \<Rightarrow>
    error_code + string list" where
  "retry_Communicate eof written shut received =
     (case written of
        Some e \<Rightarrow> Inl e
      | None \<Rightarrow> (case shut of
            Some e \<Rightarrow> Inl e
          | None \<Rightarrow> let (ec, s) = received in if ec = eof then Inr [s, ''asio::error::eof''] else Inl ec))"

datatype retry_end = Uncaught_exception error_code | Returned_0

text \<open>
  \<open>main\<close>, and what it printed; there is no \<open>try\<close> block. \<open>address\<close> and \<open>opened\<close> are what \<open>make_address\<close> and
  the constructor of the socket come to, \<open>talk k\<close> what \<open>Communicate\<close> comes to on the socket of attempt
  \<open>k\<close>. \<open>run\<close> goes on for as long as the handler starts another attempt, maybe for ever.
\<close>

definition main_retry_client :: "(error_code \<Rightarrow> string) \<Rightarrow> error_code \<Rightarrow> error_code option \<Rightarrow> error_code option \<Rightarrow>
    (nat \<Rightarrow> error_code) \<Rightarrow> (nat \<Rightarrow> error_code + string list) \<Rightarrow> (retry_end \<times> string list) option" where
  "main_retry_client message aborted address opened result talk =
     (case address of
        Some e \<Rightarrow> Some (Uncaught_exception e, [])
      | None \<Rightarrow> (case opened of
            Some e \<Rightarrow> Some (Uncaught_exception e, [])
          | None \<Rightarrow> (case ConnCallback message aborted result 0 [] of
                None \<Rightarrow> None
              | Some (out, k) \<Rightarrow> (case talk k of
                    Inl e \<Rightarrow> Some (Uncaught_exception e, out)
                  | Inr answer \<Rightarrow> Some (Returned_0, out @ answer)))))"

lemma ConnCallback_connected:
  assumes "ConnCallback message aborted result k out = Some y"
  shows "k \<le> snd y \<and> \<not> failed (result (snd y))"
  using assms
proof (rule ConnCallback.raw_induct [rotated])
  fix C message aborted k out y and result :: "nat \<Rightarrow> error_code"
  assume step: "\<And>message aborted result k out y. C message aborted result k out = Some y \<Longrightarrow>
      k \<le> snd y \<and> \<not> failed (result (snd y))"
    and y: "(let ec = result k
      in if ec_value ec \<noteq> 0
         then let line = (if ec = aborted then ''Operation cancelled!''
                          else ''In async_connect! Error code = '' @ show_int (ec_value ec) @ ''. Message: '' @ message ec)
              in C message aborted result (k + 1) (out @ [line, ''Retry connect''])
         else Some (out @ [''Connected''], k)) = Some y"
  show "k \<le> snd y \<and> \<not> failed (result (snd y))"
  proof (cases "ec_value (result k) = 0")
    case True
    with y show ?thesis by (auto simp: failed_def Let_def)
  next
    case False
    with y obtain out' where "C message aborted result (k + 1) out' = Some y" by (auto simp: Let_def)
    from step [OF this] show ?thesis by simp
  qed
qed

text \<open>
  The program runs for ever exactly when every attempt fails. Otherwise it communicates on the socket
  of the first attempt that succeeds, and returns 0 unless that throws; nothing catches the exception.
\<close>

theorem retry_client_ends:
  "case main_retry_client message aborted None None result talk of
     None \<Rightarrow> (\<forall>k. failed (result k))
   | Some (ending, out) \<Rightarrow> (\<exists>k. \<not> failed (result k) \<and> k = (LEAST k. \<not> failed (result k)) \<and>
       ending = (case talk k of Inl e \<Rightarrow> Uncaught_exception e | Inr answer \<Rightarrow> Returned_0))"
proof (cases "\<exists>k. \<not> failed (result k)")
  case True
  let ?n = "LEAST k. \<not> failed (result k)"
  from True obtain k where "\<not> failed (result k)" by blast
  then obtain out where c: "ConnCallback message aborted result 0 [] = Some (out @ [''Connected''], ?n)"
    using connect_retries_until_success [of result k message aborted] by blast
  have "\<not> failed (result ?n)" using LeastI_ex [OF True] .
  with c show ?thesis by (simp add: main_retry_client_def split: sum.split)
next
  case False
  then have "ConnCallback message aborted result 0 [] = None"
    using ConnCallback_connected [of message aborted result 0 "[]"] by (cases "ConnCallback message aborted result 0 []") auto
  with False show ?thesis by (simp add: main_retry_client_def)
qed

text \<open>\<open>Communicate\<close> ends without an exception only when everything was sent and the server closed its side.\<close>

theorem retry_communicates:
  "retry_Communicate eof written shut received = Inr answer \<longleftrightarrow>
     written = None \<and> shut = None \<and> fst received = eof \<and> answer = [snd received, ''asio::error::eof'']"
  by (auto simp: retry_Communicate_def Let_def split: option.splits prod.splits)

end
