(* ===== verification/Grab_Program.thy ===== *)
theory Grab_Program
  imports Web_Fetch
begin

text \<open>
  The program of \<open>src/one_lone_coder/simple_example1.cpp\<close> around the reads of \<open>Web_Fetch\<close>: \<open>main\<close>
  connects, starts the first read, sends its request, sleeps, stops the \<open>io_context\<close> and joins its
  thread, which runs the handlers meanwhile. Shown: after \<open>stop\<close> the program ends in a bounded number
  of steps however many reads the handlers have started, and how it ends when the socket is not open.
\<close>

section \<open>The program\<close>

datatype main_pc =
    At_connect | At_is_open | At_grab | At_write
  | At_sleep       \<comment> \<open>asleep for two seconds\<close>
  | At_stop | At_join
  | At_return      \<comment> \<open>at the end of \<open>main\<close>, where \<open>thrContext\<close> and the others are destroyed\<close>
  | Main_returned

record grab_program =
  main_at :: main_pc
  grabs :: grabber
  context_stopped :: bool
  context_joined :: bool
  printed :: "string list"

definition idle_grabber :: grabber where
  "idle_grabber = \<lparr>vBuffer = replicate BUFFER_SIZE (CHR 0x00), reads_pending = 0, ready = [],
     handler = None, incoming = [], shown = [], begun = 0\<rparr>"

definition example1_start :: grab_program where
  "example1_start = \<lparr>main_at = At_connect, grabs = idle_grabber, context_stopped = False,
     context_joined = False, printed = []\<rparr>"

text \<open>\<open>connect\<close> came to \<open>ec\<close>.\<close>

definition main_connect :: "(error_code \<Rightarrow> string) \<Rightarrow> error_code \<Rightarrow> grab_program \<Rightarrow> grab_program" where
  "main_connect message ec p = p\<lparr>main_at := At_is_open, printed := printed p @
     [if ec_value ec = 0 then ''Connected ''
      else ''Error Code :'' @ show_int (ec_value ec) @ '' Failed to connect to address: '' @ [newline] @ message ec]\<rparr>"

definition main_is_open :: "bool \<Rightarrow> grab_program \<Rightarrow> grab_program" where
  "main_is_open b p = p\<lparr>main_at := (if b then At_grab else At_return)\<rparr>"

definition main_grab :: "grab_program \<Rightarrow> grab_program" where
  "main_grab p = p\<lparr>grabs := GrabSomeData (grabs p), main_at := At_write\<rparr>"

definition main_stop :: "grab_program \<Rightarrow> grab_program" where
  "main_stop p = p\<lparr>context_stopped := True, main_at := At_join\<rparr>"

text \<open>\<open>run\<close> has returned: it was stopped, and the handler it was in is over.\<close>

definition run_returned :: "grab_program \<Rightarrow> bool" where
  "run_returned p \<longleftrightarrow> context_stopped p \<and> handler (grabs p) = None"

text \<open>A thread that was not joined is destroyed at the end of \<open>main\<close>: \<open>std::terminate\<close>.\<close>

definition main_return :: "grab_program \<Rightarrow> fault + grab_program" where
  "main_return p = (if context_joined p then Inr (p\<lparr>main_at := Main_returned\<rparr>) else Inl Terminate)"

text \<open>
  The thread of the \<open>io_context\<close> begins a handler only while it is not stopped; a handler that has
  begun goes on. A read may complete as soon as it is started.
\<close>

inductive example1_step :: "(error_code \<Rightarrow> string) \<Rightarrow> fault + grab_program \<Rightarrow> fault + grab_program \<Rightarrow> bool" for message where
  connect: "main_at p = At_connect \<Longrightarrow> example1_step message (Inr p) (Inr (main_connect message ec p))"
| is_open: "main_at p = At_is_open \<Longrightarrow> example1_step message (Inr p) (Inr (main_is_open b p))"
| grab: "main_at p = At_grab \<Longrightarrow> example1_step message (Inr p) (Inr (main_grab p))"
| request: "main_at p = At_write \<Longrightarrow> example1_step message (Inr p) (Inr (p\<lparr>main_at := At_sleep\<rparr>))"
| wake: "main_at p = At_sleep \<Longrightarrow> example1_step message (Inr p) (Inr (p\<lparr>main_at := At_stop\<rparr>))"
| stop: "main_at p = At_stop \<Longrightarrow> example1_step message (Inr p) (Inr (main_stop p))"
| join: "main_at p = At_join \<Longrightarrow> run_returned p \<Longrightarrow>
    example1_step message (Inr p) (Inr (p\<lparr>context_joined := True, main_at := At_return\<rparr>))"
| ends: "main_at p = At_return \<Longrightarrow> example1_step message (Inr p) (main_return p)"
| completes: "main_at p \<noteq> Main_returned \<Longrightarrow> read_completes ec bs (grabs p) = Some g \<Longrightarrow>
    example1_step message (Inr p) (Inr (p\<lparr>grabs := g\<rparr>))"
| begins: "\<not> context_stopped p \<Longrightarrow> begin_read_handler (grabs p) = Some g \<Longrightarrow>
    example1_step message (Inr p) (Inr (p\<lparr>grabs := g\<rparr>))"
| iterates: "iterate (grabs p) = Some g \<Longrightarrow> example1_step message (Inr p) (Inr (p\<lparr>grabs := g\<rparr>))"

inductive_simps no_step_after_end [simp]: "example1_step message (Inl f) r"

section \<open>Invariant\<close>

definition sizes_ok :: "grabber \<Rightarrow> bool" where
  "sizes_ok g \<longleftrightarrow> length (vBuffer g) = BUFFER_SIZE \<and> list_all (\<lambda>(ec, len). len \<le> BUFFER_SIZE) (ready g) \<and>
     (case handler g of None \<Rightarrow> True | Some (len, i) \<Rightarrow> i \<le> len \<and> len \<le> BUFFER_SIZE)"

lemma sizes_ok_step:
  assumes "sizes_ok g"
  shows "read_completes ec bs g = Some h \<Longrightarrow> sizes_ok h" "begin_read_handler g = Some h \<Longrightarrow> sizes_ok h"
    "iterate g = Some h \<Longrightarrow> sizes_ok h" "sizes_ok (GrabSomeData g)"
  using assms
  by (auto simp: sizes_ok_def read_completes_def begin_read_handler_def iterate_def GrabSomeData_def
      split: if_splits option.splits list.splits prod.splits)

fun after_stop :: "main_pc \<Rightarrow> bool" where
  "after_stop At_join = True"
| "after_stop At_return = True"
| "after_stop Main_returned = True"
| "after_stop _ = False"

definition program_ok :: "grab_program \<Rightarrow> bool" where
  "program_ok p \<longleftrightarrow> sizes_ok (grabs p) \<and>
     (context_stopped p \<longrightarrow> after_stop (main_at p) \<and> (main_at p \<noteq> At_join \<longrightarrow> context_joined p)) \<and>
     (context_joined p \<longrightarrow> run_returned p \<and> main_at p \<noteq> At_join) \<and>
     (main_at p = At_join \<or> main_at p = Main_returned \<longrightarrow> context_stopped p)"

definition side_ok :: "fault + grab_program \<Rightarrow> bool" where
  "side_ok r = (case r of Inl f \<Rightarrow> f = Terminate | Inr p \<Rightarrow> program_ok p)"

lemma handler_kept: "read_completes ec bs g = Some h \<Longrightarrow> handler h = handler g"
  by (auto simp: read_completes_def split: if_splits)

lemma iterate_runs: "iterate g = Some h \<Longrightarrow> handler g \<noteq> None"
  by (auto simp: iterate_def split: option.splits)

lemma program_ok_grabs:
  assumes "program_ok p" "sizes_ok g" "handler g = None \<or> \<not> context_joined p"
  shows "program_ok (p\<lparr>grabs := g\<rparr>)"
proof -
  have "run_returned (p\<lparr>grabs := g\<rparr>)" if "context_joined p"
  proof -
    have "context_stopped p" using assms(1) that by (simp add: program_ok_def run_returned_def)
    moreover have "handler g = None" using assms(3) that by simp
    ultimately show ?thesis by (simp add: run_returned_def)
  qed
  then show ?thesis using assms(1,2) by (simp add: program_ok_def)
qed

lemma example1_step_ok:
  assumes "side_ok r" "example1_step message r r'"
  shows "side_ok r'"
proof -
  obtain p where p: "r = Inr p" "program_ok p" using assms by (cases r) (auto simp: side_ok_def)
  then have sizes: "sizes_ok (grabs p)" by (simp add: program_ok_def)
  from assms(2) show ?thesis
    unfolding p(1)
  proof cases
    case (connect ec)
    then show ?thesis using p(2) by (auto simp: side_ok_def program_ok_def main_connect_def run_returned_def)
  next
    case (is_open b)
    then show ?thesis using p(2) by (auto simp: side_ok_def program_ok_def main_is_open_def run_returned_def)
  next
    case grab
    then show ?thesis using p(2) sizes_ok_step(4) [OF sizes]
      by (auto simp: side_ok_def program_ok_def main_grab_def run_returned_def)
  next
    case request
    then show ?thesis using p(2) by (auto simp: side_ok_def program_ok_def run_returned_def)
  next
    case wake
    then show ?thesis using p(2) by (auto simp: side_ok_def program_ok_def run_returned_def)
  next
    case stop
    then show ?thesis using p(2) by (auto simp: side_ok_def program_ok_def main_stop_def run_returned_def)
  next
    case join
    then show ?thesis using p(2) by (auto simp: side_ok_def program_ok_def run_returned_def)
  next
    case ends
    then show ?thesis using p(2) by (auto simp: side_ok_def program_ok_def main_return_def run_returned_def)
  next
    case (completes ec bs g)
    have "handler (grabs p) = None \<or> \<not> context_joined p" using p(2) unfolding program_ok_def run_returned_def by blast
    then show ?thesis
      using program_ok_grabs [OF p(2) sizes_ok_step(1) [OF sizes completes(3)]] completes(1) handler_kept [OF completes(3)]
      by (simp add: side_ok_def)
  next
    case (begins g)
    have "\<not> context_joined p" using p(2) begins(2) unfolding program_ok_def run_returned_def by blast
    then show ?thesis
      using program_ok_grabs [OF p(2) sizes_ok_step(2) [OF sizes begins(3)]] begins(1) by (simp add: side_ok_def)
  next
    case (iterates g)
    have "\<not> context_joined p" using p(2) iterate_runs [OF iterates(2)] unfolding program_ok_def run_returned_def by blast
    then show ?thesis
      using program_ok_grabs [OF p(2) sizes_ok_step(3) [OF sizes iterates(2)]] iterates(1) by (simp add: side_ok_def)
  qed
qed

interpretation example1: invariant_system "\<lambda>r. r = Inr example1_start" "example1_step message" side_ok for message
proof unfold_locales
  show "r = Inr example1_start \<Longrightarrow> side_ok r" for r
    by (simp add: side_ok_def program_ok_def example1_start_def idle_grabber_def sizes_ok_def)
qed (rule example1_step_ok)

section \<open>After the stop\<close>

fun main_left :: "main_pc \<Rightarrow> nat" where
  "main_left At_join = 2"
| "main_left At_return = 1"
| "main_left _ = 0"

definition stop_left :: "fault + grab_program \<Rightarrow> nat" where
  "stop_left r = (case r of Inl f \<Rightarrow> 0 | Inr p \<Rightarrow> main_left (main_at p) + reads_pending (grabs p) +
     (case handler (grabs p) of None \<Rightarrow> 0 | Some (len, i) \<Rightarrow> 2 * (len - i) + 1))"

definition stopped_side :: "fault + grab_program \<Rightarrow> bool" where
  "stopped_side r \<longleftrightarrow> (\<exists>p. r = Inr p \<and> program_ok p \<and> context_stopped p)"

lemma stopping_main_step:
  assumes "stopped_side r" "example1_step message r r'"
  shows "stopped_side r' \<and> stop_left r' < stop_left r"
proof -
  obtain p where p: "r = Inr p" "program_ok p" "context_stopped p" using assms(1) by (auto simp: stopped_side_def)
  have ok: "side_ok r'" using example1_step_ok [OF _ assms(2)] p by (simp add: side_ok_def)
  from assms(2) [unfolded p(1)] show ?thesis
  proof cases
    case join
    then show ?thesis using p(1,3) ok by (simp add: stopped_side_def stop_left_def side_ok_def)
  next
    case ends
    have "context_joined p" using p(2,3) ends by (simp add: program_ok_def)
    then show ?thesis using p(1,3) ok ends
      by (simp add: stopped_side_def stop_left_def side_ok_def main_return_def)
  next
    case (completes ec bs g)
    then show ?thesis using p(1,3) ok
      by (auto simp: stopped_side_def stop_left_def side_ok_def read_completes_def split: if_splits option.splits)
  next
    case (iterates g)
    then show ?thesis using p(1,3) ok
      by (auto simp: stopped_side_def stop_left_def side_ok_def iterate_def GrabSomeData_def split: if_splits option.splits)
  qed (use p in \<open>auto simp: program_ok_def\<close>)
qed

interpretation after_stop: terminating_system "example1_step message" stopped_side stop_left for message
  by unfold_locales (simp_all add: stopping_main_step)

lemma iterate_goes_on: "handler g = Some x \<Longrightarrow> \<exists>h. iterate g = Some h"
  by (cases x) (simp add: iterate_def)

lemma stopped_goes_on:
  assumes "program_ok p" "context_stopped p" "main_at p \<noteq> Main_returned"
  shows "\<exists>r. example1_step message (Inr p) r"
proof -
  consider "main_at p = At_join" | "main_at p = At_return"
    using assms by (cases "main_at p") (simp_all add: program_ok_def)
  then show ?thesis
  proof cases
    case 1
    show ?thesis
    proof (cases "handler (grabs p)")
      case None
      then show ?thesis using example1_step.join [OF 1] assms(2) by (auto simp: run_returned_def)
    next
      case (Some x)
      from iterate_goes_on [OF this] example1_step.iterates show ?thesis by blast
    qed
  next
    case 2
    then show ?thesis using example1_step.ends by blast
  qed
qed

section \<open>Properties\<close>

text \<open>
  Once \<open>main\<close> has stopped the context, the program ends: at most the rest of the loop of the handler
  in progress, one completion for each read in flight or started by that loop, and two steps of \<open>main\<close>
  follow, and until \<open>main\<close> has returned some step is possible. The reads the handlers have started do
  not keep it from ending.
\<close>

theorem example1_ends_after_stop:
  assumes "(example1_step message)\<^sup>*\<^sup>* (Inr example1_start) (Inr p)" "context_stopped p"
    "(example1_step message ^^ n) (Inr p) r"
  shows "n \<le> 3 + 2 * BUFFER_SIZE + reads_pending (grabs p) \<and>
    (\<exists>q. r = Inr q \<and> (main_at q = Main_returned \<or> (\<exists>r'. example1_step message r r')))"
proof -
  have ok: "program_ok p" using example1.inv_reachable [OF refl assms(1)] by (simp add: side_ok_def)
  then have "stopped_side (Inr p)" using assms(2) by (simp add: stopped_side_def)
  from after_stop.steps_bounded [OF assms(3) this] have r: "stopped_side r" "n + stop_left r \<le> stop_left (Inr p)" by blast+
  have "main_left (main_at p) \<le> 2" by (cases "main_at p") simp_all
  moreover have "(case handler (grabs p) of None \<Rightarrow> 0 | Some (len, i) \<Rightarrow> 2 * (len - i) + 1) \<le> 2 * BUFFER_SIZE + 1"
    using ok by (auto simp: program_ok_def sizes_ok_def split: option.split)
  ultimately have "stop_left (Inr p) \<le> 3 + 2 * BUFFER_SIZE + reads_pending (grabs p)" by (simp add: stop_left_def)
  with r stopped_goes_on show ?thesis by (fastforce simp: stopped_side_def)
qed

text \<open>The program whose socket is not open reaches the end of \<open>main\<close> with a joinable thread.\<close>

theorem example1_not_open:
  "(example1_step message)\<^sup>*\<^sup>* (Inr example1_start) (Inl Terminate)"
proof -
  let ?p = "main_is_open False (main_connect message no_error example1_start)"
  have "(example1_step message)\<^sup>*\<^sup>* (Inr example1_start) (Inr (main_connect message no_error example1_start))"
    by (intro r_into_rtranclp example1_step.connect) (simp add: example1_start_def)
  moreover have "example1_step message (Inr (main_connect message no_error example1_start)) (Inr ?p)"
    by (rule example1_step.is_open) (simp add: main_connect_def)
  moreover have "example1_step message (Inr ?p) (Inl Terminate)"
    using example1_step.ends [of ?p message] by (simp add: main_is_open_def main_connect_def main_return_def example1_start_def)
  ultimately show ?thesis by (meson rtranclp.rtrancl_into_rtrancl)
qed

theorem example1_ends_after_stop_witness:
  "\<exists>p. main_at p = At_join \<and> (\<exists>r'. example1_step (\<lambda>_. []) (Inr p) r')"
proof -
  let ?s = "example1_step (\<lambda>_. [])"
  define a where "a = main_connect (\<lambda>_. []) no_error example1_start"
  define b where "b = main_grab (main_is_open True a)"
  define c where "c = b\<lparr>main_at := At_sleep\<rparr>"
  define d where "d = main_stop (c\<lparr>main_at := At_stop\<rparr>)"
  note defs = a_def b_def c_def d_def main_connect_def main_is_open_def main_grab_def main_stop_def example1_start_def
  have "?s (Inr example1_start) (Inr a)" unfolding a_def by (rule example1_step.connect) (simp add: example1_start_def)
  moreover have "?s (Inr a) (Inr (main_is_open True a))" by (rule example1_step.is_open) (simp add: defs)
  moreover have "?s (Inr (main_is_open True a)) (Inr b)" unfolding b_def by (rule example1_step.grab) (simp add: defs)
  moreover have "?s (Inr b) (Inr c)" unfolding c_def by (rule example1_step.request) (simp add: defs)
  moreover have "?s (Inr c) (Inr (c\<lparr>main_at := At_stop\<rparr>))" by (rule example1_step.wake) (simp add: defs)
  moreover have "?s (Inr (c\<lparr>main_at := At_stop\<rparr>)) (Inr d)" unfolding d_def by (rule example1_step.stop) simp
  ultimately have "?s\<^sup>*\<^sup>* (Inr example1_start) (Inr d)" 
    by - ((rule converse_rtranclp_into_rtranclp, assumption)+, rule rtranclp.rtrancl_refl)
  from example1_ends_after_stop [OF this, of 0 "Inr d"] have "\<exists>r'. ?s (Inr d) r'"
    by (simp add: d_def main_stop_def)
  moreover have "main_at d = At_join" by (simp add: d_def main_stop_def)
  ultimately show ?thesis by blast
qed

end
