(* ===== verification/Spec2Isabelle.thy ===== *)
theory Spec2Isabelle
  imports Tsqueue_Threads Simple_Client Cancel_Locks Chat_Server Async_Server Pool_Refinement Duplex_Channel
    Shutdown_Protocol Web_Fetch Timers Line_Server Chat_Room Server_Race Programs Cancel_Connect Async_Program Simple_Progress
    Sync_Threads Pool_Program Request_System
    Retry_Client Grab_Program
begin

text \<open>
  A verification library for \<open>cpp-asio-study\<close>, a collection of networking programs in C++ on asio.

  The programs. \<open>src/one_lone_coder\<close> is a small framework: \<open>net_message.h\<close> (messages with a header
  and a body used as a stack of bytes), \<open>net_tsqueue.h\<close> (a queue shared by threads),
  \<open>net_connection.h\<close> (a connection that writes and reads messages asynchronously), \<open>net_server.h\<close>
  and \<open>net_client.h\<close> (the two ends, each with an \<open>io_context\<close> run by a thread of its own), with the
  programs \<open>simple_server.cpp\<close> and \<open>simple_client.cpp\<close> on top, and the experiments it grew from.
  \<open>src/asio-cookbook\<close> holds clients and servers in the synchronous and asynchronous styles and small
  programs on sockets, buffers and timers, \<open>src/etc\<close> a chat server, a line server and a timer.

  Asio. Asio is not part of the repository. An asynchronous operation that was started is an entry of
  a list of pending operations; its completion is an event that may come at any time, in any order
  and with any error. What asio documents of a completion is stated where it is used
  (\<open>asio_contract\<close>: a composed read or write succeeds only when the whole buffer was transferred; the
  locales \<open>stream_socket\<close> and \<open>input_socket\<close>: a call of \<open>write_some\<close> or \<open>read_some\<close> transfers at least
  one byte and no more than it was asked for). Handlers of one \<open>io_context\<close> with one thread run one
  at a time, so a handler is one step; where several threads run handlers (\<open>Pool_Client\<close>), or a
  handler runs beside the main thread without a lock (\<open>Server_Race\<close>), the steps are smaller. Behaviour
  the language leaves undefined, and the end of the process, are the values \<open>fault\<close>.

  The framework.
  \<open>Asio_Prelude\<close>: machine words, faults and results, error codes, buffers, decimal text, lines, and
  the three locales the proofs about executions go through: \<open>invariant_system\<close> (an invariant of a
  step relation holds in every reachable state), \<open>simulation\<close> (a detailed step relation implements
  a coarser one) and \<open>terminating_system\<close> (a measure bounds the number of steps).
  \<open>Net_Message\<close>: \<open>operator<<\<close> and \<open>operator>>\<close> as \<open>push_data\<close> and \<open>pop_data\<close> on object
  representations; round trip of chains, the size field, when a pull leaves the vector.
  \<open>Net_Tsqueue\<close>: the queue's operations one at a time; the locales \<open>fifo\<close> and \<open>double_ended\<close> are what
  the connection and the server rely on, interpreted on the model of the class.
  \<open>Tsqueue_Threads\<close>: the same class lock by lock for any number of threads: order, mutual exclusion,
  absence of deadlock, the safety of a single consumer, and a lost wake-up of \<open>wait\<close>.
  \<open>Net_Connection\<close>: the connection's members, public functions and handlers.
  \<open>Wire_Format\<close>: how messages lie in the byte stream (\<open>ser\<close>, \<open>frames\<close>), what a receiver hands over
  (\<open>deliver\<close>), and the locale \<open>wire_codec\<close> of header representations with the interpretation on the
  header of the example programs.
  \<open>Connection_Protocol\<close>: all executions of a connection; invariants of the write and the read side;
  two connections put together.
  \<open>Duplex_Channel\<close>: two connections joined by a network implement two FIFO channels, the
  specification being an acceptor of traces of messages sent and messages handed over.
  \<open>Connection_Progress\<close>: as long as nothing fails such a pair can go on until everything sent has been
  delivered, and does so within a bound (a \<open>terminating_system\<close>).
  \<open>Net_Server\<close>: the server; \<open>objects\<close> are all connections ever made and \<open>referenced\<close> says whether a
  \<open>shared_ptr\<close> to one is left, so that a handler that outlives its connection is a fault. The
  locale \<open>server_callbacks\<close> is the contract of the virtual functions.
  \<open>asio_work\<close> is what asio's thread may do between two looks of \<open>Update\<close> at the queue, and \<open>hands_over\<close>
  what a call of \<open>Update\<close> then hands to \<open>OnMessage\<close>.
  \<open>Custom_Server\<close>: \<open>simple_server.cpp\<close>, the interpretation of that contract, the server's properties.
  \<open>Server_Race\<close>: the loop of a broadcast iteration by iteration: by itself it is \<open>MessageAllClients\<close>,
  beside the accept handler it can use a dangling iterator.
  \<open>Server_System\<close>: the server with a history of what each connection accepted, wrote, read and handed
  over, and of the messages handled; every execution has one. The guarantees of \<open>Connection_Protocol\<close>
  carry over to connections that share the server's queue.
  \<open>Simple_System\<close>: \<open>simple_server.cpp\<close> and \<open>simple_client.cpp\<close> over a network: an account of what the
  server sends each client, what a client gets back, and that at rest it has got back all its pings.
  \<open>Simple_Progress\<close>: left to itself, a client of which nothing failed comes to that rest: all its
  pings come back after a bounded number of steps.
  \<open>Net_Client\<close> and \<open>Simple_Client\<close>: the client and \<open>simple_client.cpp\<close>.
  \<open>Web_Fetch\<close>: the two experiments, one read and reads that multiply; \<open>Grab_Program\<close>: the second with
  its \<open>main\<close> and the thread of its \<open>io_context\<close>, which ends once the context is stopped.

  Clients and servers.
  \<open>Async_Tcp_Client\<close>: requests with callbacks and cancellation; \<open>Async_Program\<close>: its \<open>main\<close>;
  \<open>Cancel_Locks\<close>: its two mutexes.
  \<open>Pool_Client\<close>: the same client with a pool of threads (\<open>async_tcp_client_mt.cpp\<close>), lock by lock:
  mutual exclusion, one callback per request, that what runs comes to an end, and the deadlock of a
  second cancel. \<open>Pool_Refinement\<close>: it implements the client of \<open>Async_Tcp_Client\<close>.
  \<open>Pool_Program\<close>: its \<open>main\<close> beside the threads of the pool; every run ends, with three callbacks.
  \<open>Chat_Server\<close>: \<open>dens_simple_chat_server.cpp\<close>; \<open>Chat_Room\<close>: the room it implements, and that its
  clients agree on the conversation and catch up with it. \<open>Line_Server\<close>: \<open>dens_asyn_server.cpp\<close>.
  \<open>Sync_Io\<close>: the transfer loops of \<open>ch2_io\<close>, partial functions with proofs that they return.
  \<open>Sync_Server\<close>: the synchronous clients and servers of \<open>ch3_client\<close> and \<open>ch4_server\<close>.
  \<open>Sync_Threads\<close>: these servers with \<open>main\<close>, the thread of \<open>Run\<close> and the threads of the services
  interleaved, by way of the interface \<open>acceptor\<close> that both versions of \<open>Accept\<close> provide: what the loop
  reads of the stop flag and that it then does what \<open>Run\<close> does, what \<open>Stop\<close> waits for, and the detached
  threads that outlive the \<open>io_context\<close>.
  \<open>Async_Server\<close>: the asynchronous server of \<open>ch4_server\<close>.
  \<open>Request_System\<close>: the asynchronous client and the asynchronous server over TCP: they implement remote
  calls, with counts of executions and the results reported, step by step (a \<open>simulation\<close>), and when nothing fails every request is answered.
  \<open>Shutdown_Protocol\<close>: the client and the server that end a message by a shutdown, run against each
  other, and the client that retries. \<open>Retry_Client\<close>: that client as a program, and the transfers that
  are one composed operation: with the loops they provide the interface \<open>message_writer\<close>.
  \<open>Cancel_Connect\<close>: a connect cancelled by another thread, and the programs on buffers.
  \<open>Timers\<close>: the periodic timer of \<open>src/etc\<close> and the two timers of \<open>ch6_etc\<close>.
  \<open>Programs\<close>: the \<open>main\<close> functions of the cookbook as sequences of calls that may fail: which stop at
  the first failure and report it, which hide one, and that sockets are used in the order asio asks for.

  Bounds. There is no fuel: executions are step relations, the loops are structural, have a measure
  (\<open>update_loop\<close>, whose counter is a \<open>size_t\<close> that never wraps because it stays below the limit), or
  are partial functions proved to return. Sizes are words: the body's length is a \<open>size_t\<close>, the size
  field 32 bits, the identifiers of connections 32 bits, counted from 10000. Time is a natural number
  of nanoseconds.

  Not modelled. Data races other than those of \<open>Tsqueue_Threads\<close>, \<open>Pool_Client\<close>,
  \<open>Server_Race\<close> and \<open>Sync_Threads\<close>; memory that cannot be allocated; what asio does inside a call;
  \<open>write_tcp_async1.cpp\<close>, which is not built and does not compile.
\<close>

section \<open>Framework and programs together\<close>

text \<open>A stream that goes on behind the header of a ping of size 0.\<close>

lemma frames_behind_ping:
  assumes "frames custom_codec bs ms" "prefix bs (enc_hdr custom_codec (header bare_ping) @ tail)"
  shows "ms = [] \<or> ms = [bare_ping] \<or>
    (\<exists>m2 ms'. ms = bare_ping # m2 # ms' \<and> header m2 = dec_hdr custom_codec (take 8 tail))"
  using assms(1)
proof cases
  case (frames_Cons hb c bs1 ms1)
  obtain left where left: "enc_hdr custom_codec (header bare_ping) @ tail = hb @ c @ bs1 @ left"
    using assms(2) frames_Cons(1) by (auto simp: prefix_def)
  moreover have "length (enc_hdr custom_codec (header bare_ping)) = length hb" using frames_Cons(3) by (simp add: custom.length_enc)
  ultimately have hb: "hb = enc_hdr custom_codec (header bare_ping)" and tail: "tail = c @ bs1 @ left" by simp_all
  then have c: "c = []" using frames_Cons(4) by (simp add: custom.dec_enc)
  then have ms: "ms = bare_ping # ms1" using frames_Cons(2) hb by (simp add: custom.dec_enc bare_ping_eq)
  from frames_Cons(5) show ?thesis
  proof cases
    case inner: (frames_Cons hb2 c2 bs2 ms2)
    then have "take 8 tail = hb2" using tail c by (simp add: hdr_of_bytes(3))
    then show ?thesis using ms inner(2) by simp
  qed (simp add: ms)
qed simp

text \<open>
  C37: A ping without a body that follows a message with a body breaks the stream. When its header
  arrives, the connection, whose temporary message still has the body \<open>b\<close> of the message before it,
  queues it with that body; \<open>Update\<close> bounces it as it is, a header of size 0 with \<open>b\<close> behind it; and
  whatever a client reads of that and of what is sent after it, it takes a ping without a body for the
  first message and the first bytes of \<open>b\<close> for the next header.
\<close>

theorem stale_bounce_breaks_stream:
  assumes "custom_reachable (Inr s)" "r < length (objects s)" "referenced s r" "queued s = []"
    and "body (m_msgTemporaryIn (objects s ! r)) = b"
  shows "(\<exists>s1 s2. connection_event custom_codec r Read_header_op no_error (enc_hdr custom_codec (header bare_ping)) s = Inr s1 \<and>
      queued s1 = [owned_by r (bare_ping\<lparr>body := b\<rparr>)] \<and>
      update_round custom_callbacks s1 = Inr s2 \<and> objects s2 ! r = Send (bare_ping\<lparr>body := b\<rparr>) (objects s1 ! r)) \<and>
    (\<forall>bs ms. frames custom_codec bs ms \<and> prefix bs (ser custom_codec (bare_ping\<lparr>body := b\<rparr> # rest)) \<longrightarrow>
      ms = [] \<or> ms = [bare_ping] \<or>
      (\<exists>m2 ms'. ms = bare_ping # m2 # ms' \<and> header m2 = dec_hdr custom_codec (take 8 (b @ ser custom_codec rest))))"
proof (intro conjI allI impI)
  fix bs ms
  assume "frames custom_codec bs ms \<and> prefix bs (ser custom_codec (bare_ping\<lparr>body := b\<rparr> # rest))"
  then have "frames custom_codec bs ms"
    "prefix bs (enc_hdr custom_codec (header bare_ping) @ b @ ser custom_codec rest)" by (simp_all add: ser1_def)
  then show "ms = [] \<or> ms = [bare_ping] \<or>
    (\<exists>m2 ms'. ms = bare_ping # m2 # ms' \<and> header m2 = dec_hdr custom_codec (take 8 (b @ ser custom_codec rest)))"
    by (rule frames_behind_ping)
qed (rule bare_ping_bounced [OF assms])

theorem stale_bounce_breaks_stream_witness:
  "(\<exists>s1 s2. connection_event custom_codec 0 Read_header_op no_error (enc_hdr custom_codec (header bare_ping)) after_ping = Inr s1 \<and>
      update_round custom_callbacks s1 = Inr s2 \<and>
      objects s2 ! 0 = Send (bare_ping\<lparr>body := [1, 2, 3, 4]\<rparr>) (objects s1 ! 0)) \<and>
    \<not> frames custom_codec (ser custom_codec [bare_ping\<lparr>body := [1, 2, 3, 4]\<rparr>]) [bare_ping\<lparr>body := [1, 2, 3, 4]\<rparr>]"
proof -
  note broken = stale_bounce_breaks_stream [OF after_ping_facts, of "[]"]
  have "\<not> frames custom_codec (ser custom_codec [bare_ping\<lparr>body := [1, 2, 3, 4]\<rparr>]) [bare_ping\<lparr>body := [1, 2, 3, 4]\<rparr>]"
    using conjunct2 [OF broken, rule_format, of "ser custom_codec [bare_ping\<lparr>body := [1, 2, 3, 4]\<rparr>]" "[bare_ping\<lparr>body := [1, 2, 3, 4]\<rparr>]"]
      bare_ping_body by auto
  with conjunct1 [OF broken] show ?thesis by blast
qed

end
